(* ===== verification/Prelude.thy ===== *)
theory Prelude
  imports Main "HOL-Library.Word"
begin

text \<open>
  Shared vocabulary of the development: the fixed-width integers of the Go source, the
  errors a Go function may return, the state-and-error computations its methods are
  translated into, and the byte order conversions of the \<^verbatim>\<open>encoding/binary\<close> package.

  The lemma collections: \<open>op_simps\<close> evaluates the state-and-error combinators,
  \<open>byte_simps\<close> evaluates byte order conversions.
\<close>

unbundle bit_operations_syntax

named_theorems op_simps \<open>evaluation of state-and-error computations\<close>
named_theorems byte_simps \<open>byte order conversions\<close>

type_synonym u8 = "8 word"
type_synonym u16 = "16 word"
type_synonym u32 = "32 word"
type_synonym u64 = "64 word"
type_synonym bytes = "8 word list"

section \<open>Errors and computations\<close>

text \<open>
  Every value a Go \<^verbatim>\<open>error\<close> takes in the modelled code, one constructor per
  \<^verbatim>\<open>fmt.Errorf\<close> call site or returned library error. \<open>Panic\<close> is a run-time panic
  (an index out of range, an integer division by zero), which no caller recovers, and
  \<open>Diverges\<close> stands for a loop that does not end (the fuel of its translation ran out) or a
  call that blocks for ever.
  \<open>External\<close> is an error of code outside the repository (a system call, a host reader or
  writer), told apart by a number.
\<close>

datatype error =
    Unmapped
  | IRQOutOfRange
  | NoGuestMemory
  | DescIndexOutOfRange
  | DescChainLoop
  | ReadableAfterWritable
  | RequestTooLarge
  | RequestEmpty
  | ResponseTooSmall
  | RxChainTooSmall
  | PayloadTruncated
  | PfnBufferUnaligned
  | RangeUnaligned
  | AddressOutOfRange
  | AddressUnaligned
  | RegisterOutOfRange
  | InvalidSize
  | GuestPoweroff
  | ShortHeader
  | UnexpectedEOF
  | OpaqueTooLong
  | NotACall
  | BadRPCVersion
  | RecordTooLarge
  | HeaderTooShort
  | UnsupportedVersion
  | HeaderLengthMismatch
  | MACUnknown
  | NetClosed
  | Timeout
  | InterfaceDetached
  | PacketTooShort
  | BadUDPLength
  | BufferTooSmall
  | EOF
  | Panic
  | Diverges
  | External nat

text \<open>
  A Go method that changes the state and may return an error is a function from the state
  to the result and the state: the state changes made before an early return stay.
\<close>

type_synonym ('s, 'a) op = "'s \<Rightarrow> (error + 'a) \<times> 's"

definition retE :: "'a \<Rightarrow> ('s, 'a) op" where
  "retE x s = (Inr x, s)"

definition failE :: "error \<Rightarrow> ('s, 'a) op" where
  "failE e s = (Inl e, s)"

definition bindE :: "('s, 'a) op \<Rightarrow> ('a \<Rightarrow> ('s, 'b) op) \<Rightarrow> ('s, 'b) op" where
  "bindE m f s = (case m s of (Inl e, s') \<Rightarrow> (Inl e, s') | (Inr x, s') \<Rightarrow> f x s')"

definition liftE :: "(error + 'a) \<Rightarrow> ('s, 'a) op" where
  "liftE r s = (r, s)"

lemma retE_apply [op_simps, simp]: "retE x s = (Inr x, s)"
  by (simp add: retE_def)

lemma failE_apply [op_simps, simp]: "failE e s = (Inl e, s)"
  by (simp add: failE_def)

lemma bindE_cong [fundef_cong]:
  assumes "m s = m' s'" and "\<And>x t. m' s' = (Inr x, t) \<Longrightarrow> f x t = f' x t"
  shows "bindE m f s = bindE m' f' s'"
  using assms by (auto simp: bindE_def split: prod.splits sum.splits)

lemma bindE_Inr [op_simps]: "m s = (Inr x, t) \<Longrightarrow> bindE m f s = f x t"
  by (simp add: bindE_def)

lemma bindE_Inl [op_simps]: "m s = (Inl e, t) \<Longrightarrow> bindE m f s = (Inl e, t)"
  by (simp add: bindE_def)

lemma liftE_apply [op_simps, simp]: "liftE r s = (r, s)"
  by (simp add: liftE_def)

lemma bindE_eq_Inr:
  "bindE m f s = (Inr y, u) \<longleftrightarrow> (\<exists>x t. m s = (Inr x, t) \<and> f x t = (Inr y, u))"
  by (auto simp: bindE_def split: prod.splits sum.splits)

lemma bindE_cases:
  assumes "bindE m f s = (r, u)"
  obtains (fail) e where "m s = (Inl e, u)" "r = Inl e"
    | (ok) x t where "m s = (Inr x, t)" "f x t = (r, u)"
  using assms by (auto simp: bindE_def split: prod.splits sum.splits)

lemma snd_bindE:
  "P (snd (m s)) \<Longrightarrow> (\<And>x t. m s = (Inr x, t) \<Longrightarrow> P t \<Longrightarrow> P (snd (f x t))) \<Longrightarrow> P (snd (bindE m f s))"
  by (auto simp: bindE_def split: prod.splits sum.splits)

text \<open>A Go loop over a slice that returns at the first error.\<close>

fun each :: "('a \<Rightarrow> ('w, unit) op) \<Rightarrow> 'a list \<Rightarrow> ('w, unit) op" where
  "each f [] w = (Inr (), w)"
| "each f (x # xs) w = bindE (f x) (\<lambda>_. each f xs) w"

lemma bindE_assoc: "bindE (bindE m f) g s = bindE m (\<lambda>x. bindE (f x) g) s"
  by (simp add: bindE_def split: prod.split sum.split)

lemma each_Cons: "each f (x # xs) = bindE (f x) (\<lambda>_. each f xs)"
  by (rule ext) simp

lemma each_append: "each f (xs @ ys) w = bindE (each f xs) (\<lambda>_. each f ys) w"
proof (induction xs arbitrary: w)
  case Nil
  then show ?case by (simp add: bindE_def)
next
  case (Cons x xs)
  have "bindE (f x) (\<lambda>_. each f (xs @ ys)) w = bindE (f x) (\<lambda>_. bindE (each f xs) (\<lambda>_. each f ys)) w"
    by (rule bindE_cong) (simp_all add: Cons.IH)
  also have "\<dots> = bindE (bindE (f x) (\<lambda>_. each f xs)) (\<lambda>_. each f ys) w" by (simp add: bindE_assoc)
  finally show ?case by (simp add: each_Cons)
qed

lemma each_concat: "each f (concat xss) w = each (each f) xss w"
proof (induction xss arbitrary: w)
  case (Cons xs xss)
  have "bindE (each f xs) (\<lambda>_. each f (concat xss)) w = bindE (each f xs) (\<lambda>_. each (each f) xss) w"
    by (rule bindE_cong) (simp_all add: Cons.IH)
  then show ?case by (simp add: each_append)
qed simp

lemma each_map: "each f (map g xs) w = each (\<lambda>x. f (g x)) xs w"
proof (induction xs arbitrary: w)
  case (Cons x xs)
  then show ?case by (simp add: bindE_def split: prod.split sum.split)
qed simp

lemma each_cong [fundef_cong]:
  "xs = ys \<Longrightarrow> w = w' \<Longrightarrow> (\<And>x v. x \<in> set ys \<Longrightarrow> f x v = g x v) \<Longrightarrow> each f xs w = each g ys w'"
  by (induction ys arbitrary: xs w w') (auto simp: bindE_def split: prod.split sum.split)

section \<open>Slices\<close>

text \<open>\<open>slice bs i j\<close> is the Go expression \<^verbatim>\<open>bs[i:j]\<close> where \<open>i \<le> j \<le> length bs\<close>.\<close>

definition slice :: "'a list \<Rightarrow> nat \<Rightarrow> nat \<Rightarrow> 'a list" where
  "slice bs i j = take (j - i) (drop i bs)"

lemma length_slice [simp]: "length (slice bs i j) = min (j - i) (length bs - i)"
  by (simp add: slice_def)

lemma slice_append_left: "j \<le> length xs \<Longrightarrow> slice (xs @ ys) i j = slice xs i j"
  by (cases "i \<le> j") (auto simp: slice_def)

lemma slice_append_right:
  "length xs \<le> i \<Longrightarrow> slice (xs @ ys) i j = slice ys (i - length xs) (j - length xs)"
  by (simp add: slice_def)

lemma slice_all [simp]: "n = length xs \<Longrightarrow> slice xs 0 n = xs"
  by (simp add: slice_def)

text \<open>\<open>splice bs i data\<close> is the slice after \<^verbatim>\<open>copy(bs[i:], data)\<close> with data that fits.\<close>

definition splice :: "'a list \<Rightarrow> nat \<Rightarrow> 'a list \<Rightarrow> 'a list" where
  "splice bs i data = take i bs @ data @ drop (i + length data) bs"

lemma length_splice [simp]: "i + length data \<le> length bs \<Longrightarrow> length (splice bs i data) = length bs"
  by (simp add: splice_def)

lemma splice_Nil [simp]: "splice bs i [] = bs"
  by (simp add: splice_def)

lemma nth_splice:
  assumes "i + length data \<le> length bs" and "k < length bs"
  shows "splice bs i data ! k =
    (if i \<le> k \<and> k < i + length data then data ! (k - i) else bs ! k)"
  using assms by (auto simp: splice_def nth_append min_def)

lemma slice_nth: "j \<le> length bs \<Longrightarrow> k < j - i \<Longrightarrow> slice bs i j ! k = bs ! (i + k)"
  by (simp add: slice_def)

lemma slice_splice_same:
  "i + length data \<le> length bs \<Longrightarrow> slice (splice bs i data) i (i + length data) = data"
  by (simp add: splice_def slice_def)

lemma slice_splice_disjoint:
  assumes "i + length data \<le> length bs" and "b \<le> length bs" and "b \<le> i \<or> i + length data \<le> a"
  shows "slice (splice bs i data) a b = slice bs a b"
  using assms by (intro nth_equalityI) (auto simp: slice_nth nth_splice)

section \<open>Byte order\<close>

text \<open>
  \<open>le_nat\<close> and \<open>be_nat\<close> read a byte list as an unsigned integer, the first byte least and
  most significant; \<open>le_bytes n k\<close> and \<open>be_bytes n k\<close> are the \<open>n\<close> bytes of \<open>k\<close>.
\<close>

fun le_nat :: "bytes \<Rightarrow> nat" where
  "le_nat [] = 0"
| "le_nat (b # bs) = unat b + 256 * le_nat bs"

fun le_bytes :: "nat \<Rightarrow> nat \<Rightarrow> bytes" where
  "le_bytes 0 k = []"
| "le_bytes (Suc n) k = of_nat k # le_bytes n (k div 256)"

definition be_nat :: "bytes \<Rightarrow> nat" where
  "be_nat bs = le_nat (rev bs)"

definition be_bytes :: "nat \<Rightarrow> nat \<Rightarrow> bytes" where
  "be_bytes n k = rev (le_bytes n k)"

lemma unat_lt2p: "unat (w :: 'a::len word) < 2 ^ LENGTH('a)"
  by (rule unsigned_less)

lemma length_le_bytes [simp]: "length (le_bytes n k) = n"
  by (induction n arbitrary: k) auto

lemma length_be_bytes [simp]: "length (be_bytes n k) = n"
  by (simp add: be_bytes_def)

lemma le_nat_bound: "le_nat bs < 256 ^ length bs"
proof (induction bs)
  case (Cons b bs)
  have "unat b < 256" using unat_lt2p [of b] by simp
  with Cons show ?case by simp
qed simp

lemma le_nat_le_bytes [simp]: "le_nat (le_bytes n k) = k mod 256 ^ n"
proof (induction n arbitrary: k)
  case (Suc n)
  have "k mod 256 + 256 * (k div 256 mod 256 ^ n) = k mod (256 * 256 ^ n)"
    by (simp add: mod_mult2_eq)
  then show ?case using Suc by (simp add: unat_of_nat take_bit_eq_mod)
qed simp

lemma le_bytes_le_nat [simp]: "length bs = n \<Longrightarrow> le_bytes n (le_nat bs) = bs"
proof (induction bs arbitrary: n)
  case (Cons b bs)
  have "unat b < 256" using unat_lt2p [of b] by simp
  moreover have "of_nat (unat b + 256 * le_nat bs) = b"
  proof -
    have "of_nat (unat b + 256 * le_nat bs) = of_nat (unat b) + (256 :: u8) * of_nat (le_nat bs)"
      by simp
    also have "(256 :: u8) = 0" by simp
    finally show ?thesis by simp
  qed
  ultimately show ?case using Cons by auto
qed simp

lemma be_nat_bound: "be_nat bs < 256 ^ length bs"
  using le_nat_bound [of "rev bs"] by (simp add: be_nat_def)

lemma be_nat_be_bytes [simp]: "be_nat (be_bytes n k) = k mod 256 ^ n"
  by (simp add: be_nat_def be_bytes_def)

lemma be_bytes_be_nat [simp]: "length bs = n \<Longrightarrow> be_bytes n (be_nat bs) = bs"
  by (simp add: be_nat_def be_bytes_def)

text \<open>The readers and writers of \<^verbatim>\<open>binary.LittleEndian\<close> and \<^verbatim>\<open>binary.BigEndian\<close>.\<close>

definition le16 :: "bytes \<Rightarrow> u16" where "le16 bs = of_nat (le_nat (take 2 bs))"
definition le32 :: "bytes \<Rightarrow> u32" where "le32 bs = of_nat (le_nat (take 4 bs))"
definition le64 :: "bytes \<Rightarrow> u64" where "le64 bs = of_nat (le_nat (take 8 bs))"
definition put_le16 :: "u16 \<Rightarrow> bytes" where "put_le16 w = le_bytes 2 (unat w)"
definition put_le32 :: "u32 \<Rightarrow> bytes" where "put_le32 w = le_bytes 4 (unat w)"
definition put_le64 :: "u64 \<Rightarrow> bytes" where "put_le64 w = le_bytes 8 (unat w)"

definition be16 :: "bytes \<Rightarrow> u16" where "be16 bs = of_nat (be_nat (take 2 bs))"
definition be32 :: "bytes \<Rightarrow> u32" where "be32 bs = of_nat (be_nat (take 4 bs))"
definition put_be16 :: "u16 \<Rightarrow> bytes" where "put_be16 w = be_bytes 2 (unat w)"
definition put_be32 :: "u32 \<Rightarrow> bytes" where "put_be32 w = be_bytes 4 (unat w)"

lemma length_put [simp]:
  "length (put_le16 a) = 2" "length (put_le32 b) = 4" "length (put_le64 c) = 8"
  "length (put_be16 a) = 2" "length (put_be32 b) = 4"
  by (simp_all add: put_le16_def put_le32_def put_le64_def put_be16_def put_be32_def)

lemma unat_mod_width [simp]:
  "unat (a :: u16) mod 65536 = unat a" "unat (b :: u32) mod 4294967296 = unat b"
  "unat (c :: u64) mod 18446744073709551616 = unat c"
  using unat_lt2p [of a] unat_lt2p [of b] unat_lt2p [of c] by simp_all

lemma le_put [byte_simps, simp]:
  "le16 (put_le16 a @ xs) = a" "le32 (put_le32 b @ xs) = b" "le64 (put_le64 c @ xs) = c"
  "be16 (put_be16 a @ xs) = a" "be32 (put_be32 b @ xs) = b"
  by (simp_all add: le16_def le32_def le64_def put_le16_def put_le32_def put_le64_def
      be16_def be32_def put_be16_def put_be32_def)

lemmas le_put_Nil [byte_simps, simp] = le_put [where xs = "[]", simplified]

lemma put_le [byte_simps]:
  "length bs = 2 \<Longrightarrow> put_le16 (le16 bs) = bs" "length bs = 4 \<Longrightarrow> put_le32 (le32 bs) = bs"
  "length bs = 8 \<Longrightarrow> put_le64 (le64 bs) = bs"
  using le_nat_bound [of bs]
  by (simp_all add: le16_def le32_def le64_def put_le16_def put_le32_def put_le64_def
      unat_of_nat take_bit_eq_mod)

section \<open>Loops over an index that wraps\<close>

text \<open>
  A ring index of 16 bits that is incremented until it meets its target is met after as
  many steps as their difference modulo 65536: the measure of the queue loops.
\<close>

lemma unat_diff_step:
  fixes a b :: "'a::len word"
  assumes "a \<noteq> b"
  shows "unat (b - (a + 1)) < unat (b - a)"
proof -
  have "b - a \<noteq> 0" using assms by simp
  moreover have "b - (a + 1) = (b - a) - 1" by simp
  ultimately show ?thesis using unat_minus_one [of "b - a"]
    by (metis diff_less less_numeral_extra(1) unat_gt_0)
qed

end
