(* ===== verification/GuestMemory.thy ===== *)
theory GuestMemory
  imports Prelude
begin

text \<open>
  Guest memory as the devices see it. \<open>host\<close> is the pair of Go interfaces
  \<^verbatim>\<open>virtio.GuestMemory\<close> and \<^verbatim>\<open>virtio.IRQController\<close>; the locale \<open>guest_ram\<close> is what the
  devices rely on. \<open>kvm_vm\<close> is the memory of the amd64 KVM backend
  (\<^verbatim>\<open>internal/hv/kvm/vm_linux_amd64.go\<close>): host mappings, the low window and the
  additional regions, as slices into an explicit store, because the low window and the
  high region are slices of the same host mapping.
\<close>

section \<open>The interface\<close>

record 'w host =
  ReadIPA :: "u64 \<Rightarrow> nat \<Rightarrow> 'w \<Rightarrow> error + bytes"
  WriteIPA :: "u64 \<Rightarrow> bytes \<Rightarrow> ('w, unit) op"
  SetIRQ :: "u32 \<Rightarrow> bool \<Rightarrow> ('w, unit) op"

text \<open>\<open>put_view m a bs\<close> is the memory \<open>m\<close> with the bytes \<open>bs\<close> written from address \<open>a\<close>.\<close>

definition put_view :: "(u64 \<Rightarrow> u8 option) \<Rightarrow> u64 \<Rightarrow> bytes \<Rightarrow> u64 \<Rightarrow> u8 option" where
  "put_view m a bs x = (if unat (x - a) < length bs then Some (bs ! unat (x - a)) else m x)"

definition get_view :: "(u64 \<Rightarrow> u8 option) \<Rightarrow> u64 \<Rightarrow> nat \<Rightarrow> bytes" where
  "get_view m a n = map (\<lambda>i. the (m (a + of_nat i))) [0..<n]"

text \<open>
  \<open>apart a m b n\<close>: the guest ranges of \<open>m\<close> bytes at \<open>a\<close> and of \<open>n\<close> bytes at \<open>b\<close> share no
  address.
\<close>

definition apart :: "u64 \<Rightarrow> nat \<Rightarrow> u64 \<Rightarrow> nat \<Rightarrow> bool" where
  "apart a m b n \<longleftrightarrow> (\<forall>i<m. \<forall>j<n. a + of_nat i \<noteq> b + of_nat j)"

lemma length_get_view [simp]: "length (get_view m a n) = n"
  by (simp add: get_view_def)

lemma nth_get_view [simp]: "i < n \<Longrightarrow> get_view m a n ! i = the (m (a + of_nat i))"
  by (simp add: get_view_def)

lemma put_view_Nil [simp]: "put_view m a [] = m"
  by (rule ext) (simp add: put_view_def)

lemma get_put_view:
  assumes "length bs \<le> 2 ^ 64"
  shows "get_view (put_view m a bs) a (length bs) = bs"
proof (rule nth_equalityI)
  fix i assume "i < length (get_view (put_view m a bs) a (length bs))"
  then have i: "i < length bs" by simp
  with assms have "unat (of_nat i :: u64) = i"
    by (simp add: unat_of_nat take_bit_eq_mod)
  with i show "get_view (put_view m a bs) a (length bs) ! i = bs ! i"
    by (simp add: put_view_def)
qed simp

lemma put_view_outside:
  assumes "\<And>i. i < length bs \<Longrightarrow> x \<noteq> a + of_nat i"
  shows "put_view m a bs x = m x"
proof (rule ccontr)
  assume "put_view m a bs x \<noteq> m x"
  then have "unat (x - a) < length bs" by (auto simp: put_view_def split: if_splits)
  moreover have "x = a + of_nat (unat (x - a))" by simp
  ultimately show False using assms by blast
qed

lemma get_view_apart:
  assumes "apart a (length bs) b n"
  shows "get_view (put_view m a bs) b n = get_view m b n"
proof (rule nth_equalityI)
  fix i assume "i < length (get_view (put_view m a bs) b n)"
  then have i: "i < n" by simp
  then have "put_view m a bs (b + of_nat i) = m (b + of_nat i)"
    using assms by (intro put_view_outside) (metis apart_def)
  with i show "get_view (put_view m a bs) b n ! i = get_view m b n ! i" by simp
qed simp

lemma get_view_split:
  "get_view m a (i + j) = get_view m a i @ get_view m (a + of_nat i) j"
  by (rule nth_equalityI) (auto simp: nth_append algebra_simps)

lemma take_get_view [simp]: "take i (get_view m a n) = get_view m a (min i n)"
  by (rule nth_equalityI) auto

lemma drop_get_view [simp]: "drop i (get_view m a n) = get_view m (a + of_nat i) (n - i)"
  by (rule nth_equalityI) (auto simp: algebra_simps)

lemma slice_get_view:
  "j \<le> n \<Longrightarrow> slice (get_view m a n) i j = get_view m (a + of_nat i) (j - i)"
  by (simp add: slice_def min_def)

lemma apart_sym: "apart a m b n \<longleftrightarrow> apart b n a m"
  unfolding apart_def by metis

lemma apart_sub:
  assumes "apart a m b n" and "i + m' \<le> m" and "j + n' \<le> n"
  shows "apart (a + of_nat i) m' (b + of_nat j) n'"
  unfolding apart_def
proof (intro allI impI)
  fix k l assume "k < m'" "l < n'"
  then have "i + k < m" "j + l < n" using assms by auto
  then have "a + of_nat (i + k) \<noteq> b + of_nat (j + l)" using assms(1) unfolding apart_def by blast
  then show "a + of_nat i + of_nat k \<noteq> b + of_nat j + of_nat l" by (simp add: add.assoc)
qed

lemma apart_no_wrap:
  assumes "unat a + m \<le> unat b" and "unat b + n \<le> 2 ^ 64"
  shows "apart a m b n"
  unfolding apart_def
proof (intro allI impI)
  fix i j assume i: "i < m" and j: "j < n"
  have "unat (a + of_nat i) = unat a + i"
    using assms i j by (simp add: unat_word_ariths unat_of_nat take_bit_eq_mod)
  moreover have "unat (b + of_nat j) = unat b + j"
    using assms i j by (simp add: unat_word_ariths unat_of_nat take_bit_eq_mod)
  ultimately have "unat (a + of_nat i) < unat (b + of_nat j)" using assms i by simp
  then show "a + of_nat i \<noteq> b + of_nat j" by auto
qed

text \<open>
  What a device relies on: a successful read returns as many bytes as asked; on a range
  that is valid for device access a read returns the contents and a write stores its data
  there and nowhere else; neither a write nor a change of an interrupt line changes which
  ranges are valid, and an interrupt line is not memory.
\<close>

locale guest_ram =
  fixes H :: "'w host"
    and ok :: "'w \<Rightarrow> bool"
    and view :: "'w \<Rightarrow> u64 \<Rightarrow> u8 option"
    and valid :: "'w \<Rightarrow> u64 \<Rightarrow> nat \<Rightarrow> bool"
  assumes read_length: "ok w \<Longrightarrow> ReadIPA H a n w = Inr bs \<Longrightarrow> length bs = n"
    and read_valid: "ok w \<Longrightarrow> valid w a n \<Longrightarrow> ReadIPA H a n w = Inr (get_view (view w) a n)"
    and write_valid: "ok w \<Longrightarrow> valid w a (length bs) \<Longrightarrow>
      \<exists>w'. WriteIPA H a bs w = (Inr (), w') \<and> view w' = put_view (view w) a bs"
    and write_ok: "ok w \<Longrightarrow> WriteIPA H a bs w = (r, w') \<Longrightarrow> ok w'"
    and write_keeps_valid: "ok w \<Longrightarrow> WriteIPA H a bs w = (r, w') \<Longrightarrow> valid w' = valid w"
    and irq_ok: "ok w \<Longrightarrow> SetIRQ H l b w = (r, w') \<Longrightarrow> ok w'"
    and irq_view: "SetIRQ H l b w = (r, w') \<Longrightarrow> view w' = view w"
    and irq_keeps_valid: "SetIRQ H l b w = (r, w') \<Longrightarrow> valid w' = valid w"
    and valid_sub: "ok w \<Longrightarrow> valid w a n \<Longrightarrow> i + m \<le> n \<Longrightarrow> valid w (a + of_nat i) m"
    and valid_bound: "ok w \<Longrightarrow> valid w a n \<Longrightarrow> n \<le> 2 ^ 64"
begin

lemma write_validE:
  assumes "ok w" and "valid w a (length bs)"
  obtains w' where "WriteIPA H a bs w = (Inr (), w')" and "ok w'"
    and "view w' = put_view (view w) a bs" and "valid w' = valid w"
  using write_valid [OF assms] write_ok [OF assms(1)] write_keeps_valid [OF assms(1)] by blast

lemma read_after_write:
  assumes "ok w" and "valid w a (length bs)" and "WriteIPA H a bs w = (r, w')"
  shows "ReadIPA H a (length bs) w' = Inr bs"
proof -
  obtain w2 where w2: "WriteIPA H a bs w = (Inr (), w2)" "ok w2"
    "view w2 = put_view (view w) a bs" "valid w2 = valid w"
    using write_validE [OF assms(1,2)] by blast
  with assms(3) have "w' = w2" by simp
  with w2 read_valid [of w' a "length bs"] show ?thesis
    using assms(2) valid_bound [OF assms(1,2)] by (simp add: get_put_view)
qed

lemma read_after_write_apart:
  assumes "ok w" and "valid w a (length bs)" and "valid w b n" and "apart a (length bs) b n"
    and "WriteIPA H a bs w = (r, w')"
  shows "ReadIPA H b n w' = ReadIPA H b n w"
proof -
  obtain w2 where w2: "WriteIPA H a bs w = (Inr (), w2)" "ok w2"
    "view w2 = put_view (view w) a bs" "valid w2 = valid w"
    using write_validE [OF assms(1,2)] by blast
  with assms(5) have "w' = w2" by simp
  with w2 show ?thesis
    using assms(1,3,4) by (simp add: read_valid get_view_apart)
qed

end

section \<open>Guest memory beside other state\<close>

text \<open>
  A device may act on more of the world than guest memory (an output stream, the host's
  memory advice). \<open>fst_host H\<close> is the interface \<open>H\<close> on the first component of such a world.
\<close>

definition fst_op :: "('w, 'a) op \<Rightarrow> ('w \<times> 'e, 'a) op" where
  "fst_op f = (\<lambda>(w, e). case f w of (r, w') \<Rightarrow> (r, (w', e)))"

definition fst_host :: "'w host \<Rightarrow> ('w \<times> 'e) host" where
  "fst_host H = \<lparr>ReadIPA = (\<lambda>a n (w, e). ReadIPA H a n w),
     WriteIPA = (\<lambda>a bs. fst_op (WriteIPA H a bs)), SetIRQ = (\<lambda>l b. fst_op (SetIRQ H l b))\<rparr>"

lemma fst_host_sel [simp]:
  "ReadIPA (fst_host H) a n we = ReadIPA H a n (fst we)"
  "WriteIPA (fst_host H) a bs we = (case WriteIPA H a bs (fst we) of (r, w') \<Rightarrow> (r, (w', snd we)))"
  "SetIRQ (fst_host H) l b we = (case SetIRQ H l b (fst we) of (r, w') \<Rightarrow> (r, (w', snd we)))"
  by (simp_all add: fst_host_def fst_op_def split: prod.splits)

lemma fst_host_ram:
  assumes "guest_ram H ok view valid"
  shows "guest_ram (fst_host H) (\<lambda>we. ok (fst we)) (\<lambda>we. view (fst we)) (\<lambda>we. valid (fst we))"
proof (unfold_locales, goal_cases)
  case (1 w a n bs)
  then show ?case using guest_ram.read_length [OF assms] by simp
next
  case (2 w a n)
  then show ?case using guest_ram.read_valid [OF assms] by simp
next
  case (3 w a bs)
  then show ?case using guest_ram.write_valid [OF assms, of "fst w" a bs] by auto
next
  case (4 w a bs r w')
  then show ?case using guest_ram.write_ok [OF assms, of "fst w" a bs] by (auto split: prod.splits)
next
  case (5 w a bs r w')
  then show ?case using guest_ram.write_keeps_valid [OF assms, of "fst w" a bs] by (auto split: prod.splits)
next
  case (6 w l b r w')
  then show ?case using guest_ram.irq_ok [OF assms, of "fst w" l b] by (auto split: prod.splits)
next
  case (7 l b w r w')
  then show ?case using guest_ram.irq_view [OF assms, of l b "fst w"] by (auto split: prod.splits)
next
  case (8 l b w r w')
  then show ?case using guest_ram.irq_keeps_valid [OF assms, of l b "fst w"] by (auto split: prod.splits)
next
  case (9 w a n i m)
  then show ?case using guest_ram.valid_sub [OF assms] by blast
next
  case (10 w a n)
  then show ?case using guest_ram.valid_bound [OF assms] by blast
qed

end
