(* ===== verification/Virtqueue.thy ===== *)
theory Virtqueue
  imports GuestMemory
begin

text \<open>
  The split virtqueue as the devices walk it (\<^verbatim>\<open>internal/virtio/queue_io.go\<close>, the types of
  \<^verbatim>\<open>internal/virtio/console.go\<close>): descriptors, descriptor chains, the request and the
  response carried by a chain, the available ring and the used ring.
\<close>

section \<open>Data\<close>

record queue =
  q_size :: u16
  q_ready :: bool
  descAddr :: u64
  availAddr :: u64
  usedAddr :: u64
  lastAvailIdx :: u16
  usedIdx :: u16
  noNotify :: bool
  descMem :: bytes
  availMem :: bytes
  usedMem :: bytes

definition zero_queue :: queue where
  "zero_queue = \<lparr>q_size = 0, q_ready = False, descAddr = 0, availAddr = 0, usedAddr = 0,
     lastAvailIdx = 0, usedIdx = 0, noNotify = False, descMem = [], availMem = [], usedMem = []\<rparr>"

definition clearCache :: "queue \<Rightarrow> queue" where
  "clearCache q = q\<lparr>descMem := [], availMem := [], usedMem := []\<rparr>"

record descriptor =
  d_addr :: u64
  d_length :: u32
  d_flags :: u16
  d_next :: u16

record queueBuffer =
  b_addr :: u64
  b_length :: u32
  b_write :: bool

definition descFNext :: u16 where "descFNext = 1"
definition descFWrite :: u16 where "descFWrite = 2"
definition maxQueueRequestBytes :: u64 where "maxQueueRequestBytes = 1048576"

definition decode_descriptor :: "bytes \<Rightarrow> descriptor" where
  "decode_descriptor raw =
     \<lparr>d_addr = le64 (slice raw 0 8), d_length = le32 (slice raw 8 12),
      d_flags = le16 (slice raw 12 14), d_next = le16 (slice raw 14 16)\<rparr>"

text \<open>The layout the guest driver writes: the inverse of \<open>decode_descriptor\<close>.\<close>

definition encode_descriptor :: "descriptor \<Rightarrow> bytes" where
  "encode_descriptor d =
     put_le64 (d_addr d) @ put_le32 (d_length d) @ put_le16 (d_flags d) @ put_le16 (d_next d)"

section \<open>Descriptors and chains\<close>

definition readQueueDescriptor :: "'w host \<Rightarrow> queue \<Rightarrow> u16 \<Rightarrow> 'w \<Rightarrow> error + descriptor" where
  "readQueueDescriptor H q index w =
     (if q_size q = 0 \<or> q_size q \<le> index then Inl DescIndexOutOfRange
      else case ReadIPA H (descAddr q + ucast index * 16) 16 w of
        Inl e \<Rightarrow> Inl e
      | Inr raw \<Rightarrow> Inr (decode_descriptor raw))"

definition desc_buffer :: "descriptor \<Rightarrow> queueBuffer" where
  "desc_buffer d = \<lparr>b_addr = d_addr d, b_length = d_length d,
     b_write = (d_flags d AND descFWrite \<noteq> 0)\<rparr>"

text \<open>The loop of \<^verbatim>\<open>readQueueChain\<close>: the first argument is \<^verbatim>\<open>q.size - count\<close>.\<close>

fun readQueueChain_loop :: "nat \<Rightarrow> 'w host \<Rightarrow> queue \<Rightarrow> u16 \<Rightarrow> 'w \<Rightarrow> error + queueBuffer list" where
  "readQueueChain_loop 0 H q index w = Inl DescChainLoop"
| "readQueueChain_loop (Suc n) H q index w =
     (case readQueueDescriptor H q index w of
        Inl e \<Rightarrow> Inl e
      | Inr desc \<Rightarrow>
          if d_flags desc AND descFNext = 0 then Inr [desc_buffer desc]
          else (case readQueueChain_loop n H q (d_next desc) w of
                  Inl e \<Rightarrow> Inl e
                | Inr out \<Rightarrow> Inr (desc_buffer desc # out)))"

definition readQueueChain ::
    "'w host \<Rightarrow> bool \<Rightarrow> queue \<Rightarrow> u16 \<Rightarrow> 'w \<Rightarrow> error + queueBuffer list" where
  "readQueueChain H mem_attached q head w =
     (if \<not> mem_attached then Inl NoGuestMemory
      else readQueueChain_loop (unat (q_size q)) H q head w)"

section \<open>Requests and responses\<close>

text \<open>The first loop of \<^verbatim>\<open>readQueueRequest\<close>: the sum of the readable lengths.\<close>

fun request_total :: "bool \<Rightarrow> u64 \<Rightarrow> queueBuffer list \<Rightarrow> error + u64" where
  "request_total sawWritable tot [] = Inr tot"
| "request_total sawWritable tot (b # bs) =
     (if b_write b then request_total True tot bs
      else if sawWritable then Inl ReadableAfterWritable
      else let tot' = tot + ucast (b_length b)
           in if 9223372036854775807 < tot' then Inl RequestTooLarge
              else if maxQueueRequestBytes < tot' then Inl RequestTooLarge
              else request_total sawWritable tot' bs)"

text \<open>The second loop: \<open>out\<close> and \<open>offset\<close> are the variables of the source.\<close>

fun request_copy :: "'w host \<Rightarrow> bytes \<Rightarrow> nat \<Rightarrow> queueBuffer list \<Rightarrow> 'w \<Rightarrow> error + bytes" where
  "request_copy H out offset [] w = Inr out"
| "request_copy H out offset (b # bs) w =
     (if b_write b then Inr out
      else if b_length b = 0 then request_copy H out offset bs w
      else case ReadIPA H (b_addr b) (unat (b_length b)) w of
        Inl e \<Rightarrow> Inl e
      | Inr raw \<Rightarrow>
          request_copy H (splice out offset (take (length out - offset) raw))
            (offset + length raw) bs w)"

definition readQueueRequest :: "'w host \<Rightarrow> queueBuffer list \<Rightarrow> 'w \<Rightarrow> error + bytes" where
  "readQueueRequest H buffers w =
     (case request_total False 0 buffers of
        Inl e \<Rightarrow> Inl e
      | Inr tot \<Rightarrow>
          if tot = 0 then Inl RequestEmpty
          else request_copy H (replicate (unat tot) 0) 0 buffers w)"

text \<open>
  \<^verbatim>\<open>writeQueueResponse\<close> returns a count and an error; the loop stops at the first failed write
  (\<open>Some e\<close>) or when the data is exhausted.
\<close>

fun response_loop ::
    "'w host \<Rightarrow> bytes \<Rightarrow> nat \<Rightarrow> queueBuffer list \<Rightarrow> 'w \<Rightarrow> (nat \<times> error option) \<times> 'w" where
  "response_loop H data offset [] w = ((offset, None), w)"
| "response_loop H data offset (b # bs) w =
     (if \<not> b_write b \<or> b_length b = 0 then response_loop H data offset bs w
      else if length data - offset = 0 then ((offset, None), w)
      else let count = min (length data - offset) (unat (b_length b))
           in (case WriteIPA H (b_addr b) (slice data offset (offset + count)) w of
                 (Inl e, w') \<Rightarrow> ((offset, Some e), w')
               | (Inr _, w') \<Rightarrow> response_loop H data (offset + count) bs w'))"

definition writeQueueResponse ::
    "'w host \<Rightarrow> queueBuffer list \<Rightarrow> bytes \<Rightarrow> 'w \<Rightarrow> (u32 \<times> error option) \<times> 'w" where
  "writeQueueResponse H buffers data w =
     (case response_loop H data 0 buffers w of
        ((offset, Some e), w') \<Rightarrow> ((of_nat offset, Some e), w')
      | ((offset, None), w') \<Rightarrow>
          if offset \<noteq> length data then ((of_nat offset, Some ResponseTooSmall), w')
          else ((of_nat offset, None), w'))"

section \<open>The rings\<close>

definition readAvailableIndex :: "'w host \<Rightarrow> queue \<Rightarrow> 'w \<Rightarrow> error + u16" where
  "readAvailableIndex H q w =
     (case ReadIPA H (availAddr q + 2) 2 w of Inl e \<Rightarrow> Inl e | Inr raw \<Rightarrow> Inr (le16 raw))"

definition readAvailableHead :: "'w host \<Rightarrow> queue \<Rightarrow> u16 \<Rightarrow> 'w \<Rightarrow> error + u16" where
  "readAvailableHead H q index w =
     (if q_size q = 0 then Inl Panic
      else case ReadIPA H (availAddr q + 4 + ucast (index mod q_size q) * 2) 2 w of
        Inl e \<Rightarrow> Inl e
      | Inr raw \<Rightarrow> Inr (le16 raw))"

definition used_elem :: "u16 \<Rightarrow> u32 \<Rightarrow> bytes" where
  "used_elem head usedLen = put_le32 (ucast head) @ put_le32 usedLen"

definition writeQueueUsed :: "'w host \<Rightarrow> u16 \<Rightarrow> u32 \<Rightarrow> (queue \<times> 'w, unit) op" where
  "writeQueueUsed H head usedLen s =
     (case s of (q, w) \<Rightarrow>
        if q_size q = 0 then (Inl Panic, (q, w))
        else let slot = usedIdx q mod q_size q
             in (case WriteIPA H (usedAddr q + 4 + ucast slot * 8) (used_elem head usedLen) w of
                   (Inl e, w1) \<Rightarrow> (Inl e, (q, w1))
                 | (Inr _, w1) \<Rightarrow>
                     let q1 = q\<lparr>usedIdx := usedIdx q + 1\<rparr>
                     in (case WriteIPA H (usedAddr q1 + 2) (put_le16 (usedIdx q1)) w1 of
                           (r, w2) \<Rightarrow> (r, (q1, w2)))))"

section \<open>Descriptors\<close>

lemma slice_put_descriptor [byte_simps]:
  "slice (put_le64 a @ put_le32 b @ put_le16 c @ put_le16 d) 0 8 = put_le64 a"
  "slice (put_le64 a @ put_le32 b @ put_le16 c @ put_le16 d) 8 12 = put_le32 b"
  "slice (put_le64 a @ put_le32 b @ put_le16 c @ put_le16 d) 12 14 = put_le16 c"
  "slice (put_le64 a @ put_le32 b @ put_le16 c @ put_le16 d) 14 16 = put_le16 d"
  by (simp_all add: slice_def)

lemma decode_encode_descriptor [simp]: "decode_descriptor (encode_descriptor d) = d"
  by (simp add: decode_descriptor_def encode_descriptor_def byte_simps)

lemma length_encode_descriptor [simp]: "length (encode_descriptor d) = 16"
  by (simp add: encode_descriptor_def)

lemma desc_buffer_sel [simp]:
  "b_addr (desc_buffer d) = d_addr d" "b_length (desc_buffer d) = d_length d"
  "b_write (desc_buffer d) \<longleftrightarrow> d_flags d AND descFWrite \<noteq> 0"
  by (simp_all add: desc_buffer_def)

section \<open>Chains\<close>

text \<open>
  The specification of a chain: \<open>chain_from D i ds\<close> says that \<open>ds\<close> are the descriptors met by
  following the next links from index \<open>i\<close> in the table \<open>D\<close> up to a descriptor without the next
  flag.
\<close>

fun chain_from :: "(u16 \<Rightarrow> descriptor option) \<Rightarrow> u16 \<Rightarrow> descriptor list \<Rightarrow> bool" where
  "chain_from D i [] = False"
| "chain_from D i (d # ds) =
     (D i = Some d \<and>
      (if d_flags d AND descFNext = 0 then ds = [] else chain_from D (d_next d) ds))"

definition desc_table :: "'w host \<Rightarrow> queue \<Rightarrow> 'w \<Rightarrow> u16 \<Rightarrow> descriptor option" where
  "desc_table H q w i = (case readQueueDescriptor H q i w of Inl e \<Rightarrow> None | Inr d \<Rightarrow> Some d)"

lemma desc_table_bound: "desc_table H q w i = Some d \<Longrightarrow> unat i < unat (q_size q)"
  by (auto simp: desc_table_def readQueueDescriptor_def not_le word_less_nat_alt
      split: if_splits sum.splits)

lemma chain_from_unique: "chain_from D i ds \<Longrightarrow> chain_from D i es \<Longrightarrow> ds = es"
proof (induction D i ds arbitrary: es rule: chain_from.induct)
  case (2 D i d ds)
  then obtain e es' where "es = e # es'" by (cases es) auto
  with 2 show ?case by (auto split: if_splits)
qed simp

text \<open>The index at which each descriptor of a chain was found, and the suffixes as chains.\<close>

fun chain_indices :: "u16 \<Rightarrow> descriptor list \<Rightarrow> u16 list" where
  "chain_indices i [] = []"
| "chain_indices i (d # ds) = i # chain_indices (d_next d) ds"

lemma length_chain_indices [simp]: "length (chain_indices i ds) = length ds"
  by (induction ds arbitrary: i) auto

lemma chain_suffix:
  "chain_from D i ds \<Longrightarrow> k < length ds \<Longrightarrow> chain_from D (chain_indices i ds ! k) (drop k ds)"
proof (induction k arbitrary: i ds)
  case 0
  then show ?case by (cases ds) auto
next
  case (Suc k)
  then obtain d ds' where "ds = d # ds'" by (cases ds) auto
  with Suc show ?case by (auto split: if_splits)
qed

lemma chain_indices_distinct:
  assumes "chain_from D i ds"
  shows "distinct (chain_indices i ds)"
proof (rule ccontr)
  assume "\<not> distinct (chain_indices i ds)"
  then obtain a b where ab: "a < length ds" "b < length ds" "a \<noteq> b"
      "chain_indices i ds ! a = chain_indices i ds ! b"
    by (auto simp: distinct_conv_nth)
  then have "drop a ds = drop b ds"
    using chain_suffix [OF assms] chain_from_unique by metis
  then have "length ds - a = length ds - b" by (metis length_drop)
  with ab show False by simp
qed

lemma chain_indices_bound:
  "chain_from (desc_table H q w) i ds \<Longrightarrow> k \<in> set (chain_indices i ds) \<Longrightarrow> unat k < unat (q_size q)"
  by (induction ds arbitrary: i) (auto split: if_splits dest: desc_table_bound)

text \<open>A chain that ends visits no descriptor twice, so it is no longer than the queue.\<close>

lemma chain_length_le:
  assumes "chain_from (desc_table H q w) i ds"
  shows "length ds \<le> unat (q_size q)"
proof -
  have "inj_on unat (set (chain_indices i ds))"
    by (rule inj_onI) (simp add: word_unat_eq_iff)
  then have "card (unat ` set (chain_indices i ds)) = length ds"
    using distinct_card [OF chain_indices_distinct [OF assms]] card_image by fastforce
  moreover have "unat ` set (chain_indices i ds) \<subseteq> {..<unat (q_size q)}"
    using chain_indices_bound [OF assms] by auto
  ultimately show ?thesis by (metis card_lessThan card_mono finite_lessThan)
qed

lemma chain_from_None: "D i = None \<Longrightarrow> \<not> chain_from D i ds"
  by (cases ds) auto

lemma chain_from_last:
  "D i = Some d \<Longrightarrow> d_flags d AND descFNext = 0 \<Longrightarrow> chain_from D i ds \<longleftrightarrow> ds = [d]"
  by (cases ds) auto

lemma chain_from_next:
  "D i = Some d \<Longrightarrow> d_flags d AND descFNext \<noteq> 0 \<Longrightarrow>
     chain_from D i ds \<longleftrightarrow> (\<exists>es. ds = d # es \<and> chain_from D (d_next d) es)"
  by (cases ds) auto

lemma readQueueChain_loop_iff:
  "readQueueChain_loop n H q i w = Inr bs \<longleftrightarrow>
     (\<exists>ds. chain_from (desc_table H q w) i ds \<and> length ds \<le> n \<and> bs = map desc_buffer ds)"
proof (induction n arbitrary: i bs)
  case 0
  then show ?case by auto
next
  case (Suc n)
  show ?case
  proof (cases "readQueueDescriptor H q i w")
    case (Inl e)
    then have "desc_table H q w i = None" by (simp add: desc_table_def)
    from chain_from_None [of "desc_table H q w", OF this] Inl show ?thesis by simp
  next
    case (Inr d)
    then have D: "desc_table H q w i = Some d" by (simp add: desc_table_def)
    show ?thesis
    proof (cases "d_flags d AND descFNext = 0")
      case True
      with Inr chain_from_last [of "desc_table H q w", OF D True] show ?thesis by auto
    next
      case False
      have "readQueueChain_loop (Suc n) H q i w = Inr bs \<longleftrightarrow>
          (\<exists>out. readQueueChain_loop n H q (d_next d) w = Inr out \<and> bs = desc_buffer d # out)"
        using Inr False by (cases "readQueueChain_loop n H q (d_next d) w") auto
      then show ?thesis
        unfolding chain_from_next [of "desc_table H q w", OF D False] Suc.IH by auto
    qed
  qed
qed

lemma readQueueChain_iff:
  "readQueueChain H True q head w = Inr bs \<longleftrightarrow>
     (\<exists>ds. chain_from (desc_table H q w) head ds \<and> bs = map desc_buffer ds)"
  unfolding readQueueChain_def using chain_length_le [of H q w head]
  by (simp add: readQueueChain_loop_iff) blast

section \<open>Requests\<close>

abbreviation readable :: "queueBuffer \<Rightarrow> bool" where
  "readable b \<equiv> \<not> b_write b"

definition span :: "queueBuffer list \<Rightarrow> nat" where
  "span bs = sum_list (map (\<lambda>b. unat (b_length b)) bs)"

lemma span_simps [simp]: "span [] = 0" "span (b # bs) = unat (b_length b) + span bs"
  by (simp_all add: span_def)

text \<open>The bytes of a list of buffers, in order: what a request is meant to be.\<close>

definition gather :: "(u64 \<Rightarrow> u8 option) \<Rightarrow> queueBuffer list \<Rightarrow> bytes" where
  "gather m bs = concat (map (\<lambda>b. get_view m (b_addr b) (unat (b_length b))) bs)"

lemma gather_simps [simp]:
  "gather m [] = []"
  "gather m (b # bs) = get_view m (b_addr b) (unat (b_length b)) @ gather m bs"
  by (simp_all add: gather_def)

lemma length_gather [simp]: "length (gather m bs) = span bs"
  by (induction bs) auto

text \<open>A readable part followed by a writable part, as the device expects of a chain.\<close>

definition request_shape :: "queueBuffer list \<Rightarrow> bool" where
  "request_shape bs \<longleftrightarrow> list_all b_write (dropWhile readable bs)"

lemma request_total_writable:
  "request_total True t bs = (if list_all b_write bs then Inr t else Inl ReadableAfterWritable)"
  by (induction bs) auto

lemma request_total_iff:
  assumes "unat t0 \<le> 1048576"
  shows "request_total False t0 bs = Inr t \<longleftrightarrow>
    request_shape bs \<and> unat t0 + span (takeWhile readable bs) \<le> 1048576 \<and>
    unat t = unat t0 + span (takeWhile readable bs)"
  using assms
proof (induction bs arbitrary: t0)
  case Nil
  then show ?case by (auto simp: request_shape_def word_unat_eq_iff)
next
  case (Cons b bs)
  show ?case
  proof (cases "b_write b")
    case True
    with Cons.prems show ?thesis
      by (auto simp: request_total_writable request_shape_def word_unat_eq_iff)
  next
    case False
    have len: "unat (b_length b) < 4294967296" using unat_lt2p [of "b_length b"] by simp
    have sum: "unat (t0 + ucast (b_length b)) = unat t0 + unat (b_length b)"
      using Cons.prems len by (simp add: unat_word_ariths unsigned_ucast_eq take_bit_eq_mod)
    show ?thesis
    proof (cases "unat t0 + unat (b_length b) \<le> 1048576")
      case True
      then show ?thesis using False sum Cons.IH [of "t0 + ucast (b_length b)"]
        by (simp add: word_less_nat_alt maxQueueRequestBytes_def Let_def request_shape_def add.assoc)
    next
      case False2: False
      then show ?thesis using False sum
        by (simp add: word_less_nat_alt maxQueueRequestBytes_def Let_def)
    qed
  qed
qed

text \<open>Every buffer of the list lies in memory the device may access.\<close>

definition bufs_valid :: "(u64 \<Rightarrow> nat \<Rightarrow> bool) \<Rightarrow> queueBuffer list \<Rightarrow> bool" where
  "bufs_valid v bs \<longleftrightarrow> list_all (\<lambda>b. v (b_addr b) (unat (b_length b))) bs"

lemma bufs_valid_simps [simp]:
  "bufs_valid v []"
  "bufs_valid v (b # bs) \<longleftrightarrow> v (b_addr b) (unat (b_length b)) \<and> bufs_valid v bs"
  by (simp_all add: bufs_valid_def)

context guest_ram
begin

lemma request_copy_gather:
  assumes "ok w" and "bufs_valid (valid w) (takeWhile readable bs)" and "k = span (takeWhile readable bs)"
  shows "request_copy H (pre @ replicate k 0) (length pre) bs w =
    Inr (pre @ gather (view w) (takeWhile readable bs))"
  using assms(2,3)
proof (induction bs arbitrary: pre k)
  case (Cons b bs)
  show ?case
  proof (cases "b_write b \<or> b_length b = 0")
    case True
    with Cons show ?thesis by (auto simp: get_view_def)
  next
    case False
    let ?raw = "get_view (view w) (b_addr b) (unat (b_length b))"
    have v: "valid w (b_addr b) (unat (b_length b))" "bufs_valid (valid w) (takeWhile readable bs)"
      using Cons.prems False by auto
    have k: "k = unat (b_length b) + span (takeWhile readable bs)" using Cons.prems False by simp
    have "splice (pre @ replicate k 0) (length pre) (take (length (pre @ replicate k 0) - length pre) ?raw)
        = (pre @ ?raw) @ replicate (span (takeWhile readable bs)) 0"
      by (simp add: splice_def k)
    with Cons.IH [OF v(2) refl, of "pre @ ?raw"] False read_valid [OF assms(1) v(1)]
    show ?thesis by simp
  qed
qed simp

text \<open>
  A request is accepted exactly when its chain has the shape the device expects and
  carries between one byte and a mebibyte; it is then the readable bytes in order.
\<close>

lemma readQueueRequest_iff:
  assumes "ok w" and "bufs_valid (valid w) (takeWhile readable bs)"
  shows "readQueueRequest H bs w = Inr data \<longleftrightarrow>
    request_shape bs \<and> 0 < span (takeWhile readable bs) \<and> span (takeWhile readable bs) \<le> 1048576 \<and>
    data = gather (view w) (takeWhile readable bs)"
proof (cases "request_total False 0 bs")
  case (Inl e)
  then have "\<not> (request_shape bs \<and> span (takeWhile readable bs) \<le> 1048576)"
    using request_total_iff [of 0 bs "of_nat (span (takeWhile readable bs))"]
    by (auto simp: unat_of_nat take_bit_eq_mod)
  with Inl show ?thesis by (auto simp: readQueueRequest_def)
next
  case (Inr t)
  then have t: "request_shape bs" "span (takeWhile readable bs) \<le> 1048576"
      "unat t = span (takeWhile readable bs)"
    using request_total_iff [of 0 bs t] by auto
  have "t = 0 \<longleftrightarrow> span (takeWhile readable bs) = 0" using t(3) by (auto simp: word_unat_eq_iff)
  with t Inr request_copy_gather [OF assms refl, of "[]"] show ?thesis
    by (auto simp: readQueueRequest_def)
qed

end

section \<open>Responses\<close>

definition bufs_apart :: "queueBuffer list \<Rightarrow> bool" where
  "bufs_apart bs \<longleftrightarrow> sorted_wrt (\<lambda>a b.
     apart (b_addr a) (unat (b_length a)) (b_addr b) (unat (b_length b))) bs"

definition in_buf :: "u64 \<Rightarrow> queueBuffer \<Rightarrow> bool" where
  "in_buf x b \<longleftrightarrow> (\<exists>i<unat (b_length b). x = b_addr b + of_nat i)"

definition outside :: "queueBuffer list \<Rightarrow> u64 \<Rightarrow> bool" where
  "outside bs x \<longleftrightarrow> \<not> list_ex (in_buf x) bs"

lemma outside_simps [simp]:
  "outside [] x" "outside (b # bs) x \<longleftrightarrow> \<not> in_buf x b \<and> outside bs x"
  by (simp_all add: outside_def)

lemma bufs_apart_Cons:
  "bufs_apart (b # bs) \<Longrightarrow> bufs_apart bs \<and> (\<forall>i<unat (b_length b). outside bs (b_addr b + of_nat i))"
  by (induction bs) (auto simp: bufs_apart_def in_buf_def apart_def)

lemma get_view_cong:
  "(\<And>i. i < n \<Longrightarrow> m (a + of_nat i) = m' (a + of_nat i)) \<Longrightarrow> get_view m a n = get_view m' a n"
  by (simp add: get_view_def)

lemma length_slice_fit: "i + n \<le> length xs \<Longrightarrow> length (slice xs i (i + n)) = n"
  by simp

lemma slice_join: "i \<le> j \<Longrightarrow> j \<le> k \<Longrightarrow> k \<le> length xs \<Longrightarrow> slice xs i j @ slice xs j k = slice xs i k"
proof -
  assume "i \<le> j" "j \<le> k" "k \<le> length xs"
  then obtain a b where "j = i + a" "k = i + a + b" by (metis add.assoc le_Suc_ex)
  then show ?thesis by (simp add: slice_def take_add add.commute)
qed

context guest_ram
begin

text \<open>
  The writable buffers take the data in order: afterwards they hold the part of the data
  that fits, the count is its length, and nothing outside them changed.
\<close>

lemma response_loop_scatter:
  assumes "ok w" and "bufs_valid (valid w) (filter b_write bs)" and "bufs_apart (filter b_write bs)"
    and "offset \<le> length data" and "n = min (length data - offset) (span (filter b_write bs))"
  shows "\<exists>w'. response_loop H data offset bs w = ((offset + n, None), w') \<and> ok w' \<and> valid w' = valid w \<and>
    take n (gather (view w') (filter b_write bs)) = slice data offset (offset + n) \<and>
    (\<forall>x. outside (filter b_write bs) x \<longrightarrow> view w' x = view w x)"
  using assms
proof (induction bs arbitrary: w offset n)
  case Nil
  then show ?case by (simp add: slice_def)
next
  case (Cons b bs)
  consider (ro) "readable b" | (zero) "b_write b" "b_length b = 0"
    | (full) "b_write b" "b_length b \<noteq> 0" "length data - offset = 0"
    | (store) "b_write b" "b_length b \<noteq> 0" "length data - offset \<noteq> 0" by blast
  then show ?case
  proof cases
    case ro
    with Cons show ?thesis by simp
  next
    case zero
    then have "bufs_apart (filter b_write bs)" using Cons.prems bufs_apart_Cons by simp
    with zero Cons.prems Cons.IH [of w offset n] show ?thesis
      by (auto simp: get_view_def in_buf_def)
  next
    case full
    with Cons.prems show ?thesis by (simp add: slice_def)
  next
    case store
    define count where "count = min (length data - offset) (unat (b_length b))"
    define part where "part = slice data offset (offset + count)"
    have len: "length part = count" using Cons.prems(4) by (simp add: part_def count_def)
    have "valid w (b_addr b) (unat (b_length b))" using Cons.prems(2) store by simp
    then have "valid w (b_addr b) (length part)"
      using valid_sub [OF Cons.prems(1), of "b_addr b" "unat (b_length b)" 0 count] len
      by (simp add: count_def)
    then obtain w1 where w1: "WriteIPA H (b_addr b) part w = (Inr (), w1)" "ok w1"
        "view w1 = put_view (view w) (b_addr b) part" "valid w1 = valid w"
      using write_validE [OF Cons.prems(1)] by blast
    have apart: "bufs_apart (filter b_write bs)"
        "\<forall>i<unat (b_length b). outside (filter b_write bs) (b_addr b + of_nat i)"
      using Cons.prems(3) store bufs_apart_Cons by auto
    define n1 where "n1 = min (length data - (offset + count)) (span (filter b_write bs))"
    have IH: "\<exists>w'. response_loop H data (offset + count) bs w1 = ((offset + count + n1, None), w') \<and>
        ok w' \<and> valid w' = valid w1 \<and>
        take n1 (gather (view w') (filter b_write bs)) = slice data (offset + count) (offset + count + n1) \<and>
        (\<forall>x. outside (filter b_write bs) x \<longrightarrow> view w' x = view w1 x)"
      by (rule Cons.IH) (use Cons.prems store w1 apart in \<open>auto simp: count_def n1_def\<close>)
    then obtain w' where w': "response_loop H data (offset + count) bs w1 = ((offset + count + n1, None), w')"
        "ok w'" "valid w' = valid w1"
        "take n1 (gather (view w') (filter b_write bs)) = slice data (offset + count) (offset + count + n1)"
        "\<And>x. outside (filter b_write bs) x \<Longrightarrow> view w' x = view w1 x" by blast
    have "span (filter b_write (b # bs)) = unat (b_length b) + span (filter b_write bs)"
      using store by simp
    then have n: "n = count + n1" using Cons.prems(5) unfolding count_def n1_def by linarith
    have "get_view (view w') (b_addr b) count = get_view (view w1) (b_addr b) count"
      by (rule get_view_cong) (use apart w'(5) in \<open>auto simp: count_def\<close>)
    also have "\<dots> = part"
      using get_put_view [of part "view w" "b_addr b"] valid_bound [OF Cons.prems(1) \<open>valid w (b_addr b) (length part)\<close>]
      by (simp add: w1 len)
    finally have first: "get_view (view w') (b_addr b) count = part" .
    have "take n (gather (view w') (filter b_write (b # bs))) =
        part @ take n1 (gather (view w') (filter b_write bs))"
    proof (cases "count = unat (b_length b)")
      case True
      with first n store len show ?thesis by simp
    next
      case False
      then have "n1 = 0" "count < unat (b_length b)" by (auto simp: n1_def count_def)
      with first n store show ?thesis by simp
    qed
    also have "\<dots> = slice data offset (offset + n)"
      unfolding w'(4) part_def n add.assoc [symmetric]
      by (rule slice_join) (use Cons.prems(4) in \<open>auto simp: count_def n1_def\<close>)
    finally have taken: "take n (gather (view w') (filter b_write (b # bs))) = slice data offset (offset + n)" .
    have outside: "view w' x = view w x" if "outside (filter b_write (b # bs)) x" for x
    proof -
      have "put_view (view w) (b_addr b) part x = view w x"
        by (rule put_view_outside) (use that store len in \<open>auto simp: in_buf_def count_def\<close>)
      with that store w'(5) w1(3) show ?thesis by simp
    qed
    have "response_loop H data offset (b # bs) w = ((offset + n, None), w')"
      using store w1(1) w'(1) by (simp add: Let_def count_def [symmetric] part_def [symmetric] n add.assoc)
    with w' w1 taken outside show ?thesis by auto
  qed
qed

lemma writeQueueResponse_scatter:
  assumes "ok w" and "bufs_valid (valid w) (filter b_write bs)" and "bufs_apart (filter b_write bs)"
    and "n = min (length data) (span (filter b_write bs))"
  shows "\<exists>w'. writeQueueResponse H bs data w =
      ((of_nat n, if n = length data then None else Some ResponseTooSmall), w') \<and>
    ok w' \<and> valid w' = valid w \<and>
    take n (gather (view w') (filter b_write bs)) = take n data \<and>
    (\<forall>x. outside (filter b_write bs) x \<longrightarrow> view w' x = view w x)"
  using response_loop_scatter [OF assms(1-3), of 0 data n] assms(4)
  by (auto simp: writeQueueResponse_def slice_def)

end

end
