(* ===== verification/QueueServer.thy ===== *)
theory QueueServer
  imports Virtqueue
begin

text \<open>
  The loop by which every device serves a queue, and what it guarantees: it ends after as
  many rounds as there are pending chains, it accounts for every chain in its registers,
  and, where serving a chain leaves guest memory alone, the used ring lists the chains in
  the order in which the driver published them.
\<close>

section \<open>The loop over the available ring\<close>

text \<open>
  Every device serves a queue by the same loop: while \<^verbatim>\<open>q.lastAvailIdx != availIdx\<close>, read the
  next head, serve its chain, complete it in the used ring, advance. \<open>get\<close> and \<open>put\<close> reach the
  queue inside the device, \<open>body\<close> serves one chain and returns the length to report. The
  index is advanced once per round, so \<open>availIdx - lastAvailIdx\<close> rounds are enough
  (\<open>drain_fuel\<close> below).
\<close>

fun drain :: "nat \<Rightarrow> 'w host \<Rightarrow> ('d \<Rightarrow> queue) \<Rightarrow> (queue \<Rightarrow> 'd \<Rightarrow> 'd) \<Rightarrow>
    (u16 \<Rightarrow> ('d \<times> 'w, u32) op) \<Rightarrow> u16 \<Rightarrow> ('d \<times> 'w, unit) op" where
  "drain 0 H get put body availIdx (d, w) =
     (if lastAvailIdx (get d) = availIdx then (Inr (), (d, w)) else (Inl Diverges, (d, w)))"
| "drain (Suc n) H get put body availIdx (d, w) =
     (if lastAvailIdx (get d) = availIdx then (Inr (), (d, w))
      else case readAvailableHead H (get d) (lastAvailIdx (get d)) w of
        Inl e \<Rightarrow> (Inl e, (d, w))
      | Inr head \<Rightarrow>
          (case body head (d, w) of
             (Inl e, s1) \<Rightarrow> (Inl e, s1)
           | (Inr usedLen, (d1, w1)) \<Rightarrow>
               (case writeQueueUsed H head usedLen (get d1, w1) of
                  (Inl e, (q2, w2)) \<Rightarrow> (Inl e, (put q2 d1, w2))
                | (Inr _, (q2, w2)) \<Rightarrow>
                    drain n H get put body availIdx
                      (put (q2\<lparr>lastAvailIdx := lastAvailIdx q2 + 1\<rparr>) d1, w2))))"

text \<open>The rounds needed: the distance from the index to its target, modulo 65536.\<close>

definition pending :: "queue \<Rightarrow> u16 \<Rightarrow> nat" where
  "pending q availIdx = unat (availIdx - lastAvailIdx q)"

section \<open>The used ring\<close>

definition used_slot :: "queue \<Rightarrow> u16 \<Rightarrow> u64" where
  "used_slot q i = usedAddr q + 4 + ucast (i mod q_size q) * 8"

definition avail_slot :: "queue \<Rightarrow> u16 \<Rightarrow> u64" where
  "avail_slot q i = availAddr q + 4 + ucast (i mod q_size q) * 2"

definition used_bytes :: "queue \<Rightarrow> nat" where
  "used_bytes q = 4 + unat (q_size q) * 8"

definition avail_bytes :: "queue \<Rightarrow> nat" where
  "avail_bytes q = 4 + unat (q_size q) * 2"

lemma length_used_elem [simp]: "length (used_elem h n) = 8"
  by (simp add: used_elem_def)

lemma slot_lt: "q_size q \<noteq> 0 \<Longrightarrow> unat (i mod q_size q) < unat (q_size q)"
proof -
  assume "q_size q \<noteq> 0"
  then have "0 < unat (q_size q)" by (simp add: word_unat_eq_iff)
  then show ?thesis by (simp add: unat_mod_distrib)
qed

lemma used_slot_nat: "used_slot q i = usedAddr q + of_nat (4 + unat (i mod q_size q) * 8)"
  by (simp add: used_slot_def)

lemma avail_slot_nat: "avail_slot q i = availAddr q + of_nat (4 + unat (i mod q_size q) * 2)"
  by (simp add: avail_slot_def)

lemma apart_offsets:
  assumes "i + m \<le> j" and "j + n \<le> 2 ^ 64"
  shows "apart (a + of_nat i) m (a + of_nat j) n"
  unfolding apart_def
proof (intro allI impI)
  fix k l assume "k < m" "l < n"
  then have "unat (of_nat (i + k) :: u64) = i + k" "unat (of_nat (j + l) :: u64) = j + l" "i + k < j + l"
    using assms by (simp_all only: unat_of_nat take_bit_eq_mod) simp_all
  then have "(of_nat (i + k) :: u64) \<noteq> of_nat (j + l)" by (metis less_irrefl)
  then show "a + of_nat i + of_nat k \<noteq> a + of_nat j + of_nat l" by (simp add: add.assoc)
qed

lemma used_slots_apart:
  assumes "unat (i mod q_size q) \<noteq> unat (j mod q_size q)"
  shows "apart (used_slot q i) 8 (used_slot q j) 8"
proof -
  have small: "unat x < 65536" for x :: u16 using unat_lt2p [of x] by simp
  show ?thesis
  proof (cases "unat (i mod q_size q) < unat (j mod q_size q)")
    case True
    with small [of "j mod q_size q"] show ?thesis unfolding used_slot_nat by (intro apart_offsets) auto
  next
    case False
    with assms small [of "i mod q_size q"] show ?thesis
      unfolding used_slot_nat by (subst apart_sym, intro apart_offsets) auto
  qed
qed

lemma used_idx_apart: "apart (usedAddr q + 2) 2 (used_slot q i) 8"
  using apart_offsets [of 2 2 "4 + unat (i mod q_size q) * 8" 8 "usedAddr q"]
    unat_lt2p [of "i mod q_size q"]
  unfolding used_slot_nat by simp

lemma index_mod:
  assumes "unat (q_size q) dvd 65536"
  shows "unat ((u + of_nat i) mod q_size q) = (unat u + i) mod unat (q_size q)"
proof -
  have "unat (u + of_nat i) = (unat u + i) mod 65536"
    by (simp add: unat_word_ariths unat_of_nat take_bit_eq_mod mod_simps)
  with assms show ?thesis by (simp add: unat_mod_distrib mod_mod_cancel)
qed

lemma slots_differ:
  assumes "unat (q_size q) dvd 65536" and "0 < i" and "i < unat (q_size q)"
  shows "unat ((u + of_nat i) mod q_size q) \<noteq> unat (u mod q_size q)"
proof
  assume "unat ((u + of_nat i) mod q_size q) = unat (u mod q_size q)"
  then have "(unat u + i) mod unat (q_size q) = unat u mod unat (q_size q)"
    using index_mod [OF assms(1), of u i] by (simp add: unat_mod_distrib)
  then have "unat (q_size q) dvd i" by (metis add_diff_cancel_left' le_add1 mod_eq_dvd_iff_nat)
  with assms(2,3) show False by (simp add: nat_dvd_not_less)
qed

context guest_ram
begin

lemma writeQueueUsed_stores:
  assumes "ok w" and "q_size q \<noteq> 0" and "valid w (usedAddr q) (used_bytes q)"
  obtains w' where
    "writeQueueUsed H head n (q, w) = (Inr (), (q\<lparr>usedIdx := usedIdx q + 1\<rparr>, w'))"
    and "ok w'" and "valid w' = valid w"
    and "view w' = put_view (put_view (view w) (used_slot q (usedIdx q)) (used_elem head n))
      (usedAddr q + 2) (put_le16 (usedIdx q + 1))"
proof -
  have "valid w (used_slot q (usedIdx q)) (length (used_elem head n))"
    using valid_sub [OF assms(1,3), of "4 + unat (usedIdx q mod q_size q) * 8" 8]
      slot_lt [OF assms(2), of "usedIdx q"]
    unfolding used_slot_nat by (simp add: used_bytes_def)
  then obtain w1 where w1: "WriteIPA H (used_slot q (usedIdx q)) (used_elem head n) w = (Inr (), w1)"
      "ok w1" "view w1 = put_view (view w) (used_slot q (usedIdx q)) (used_elem head n)" "valid w1 = valid w"
    using write_validE [OF assms(1)] by blast
  have "valid w1 (usedAddr q + 2) (length (put_le16 (usedIdx q + 1)))"
    using valid_sub [OF assms(1,3), of 2 2] by (simp add: w1 used_bytes_def)
  then obtain w2 where w2: "WriteIPA H (usedAddr q + 2) (put_le16 (usedIdx q + 1)) w1 = (Inr (), w2)"
      "ok w2" "view w2 = put_view (view w1) (usedAddr q + 2) (put_le16 (usedIdx q + 1))" "valid w2 = valid w1"
    using write_validE [OF w1(2)] by blast
  have "writeQueueUsed H head n (q, w) = (Inr (), (q\<lparr>usedIdx := usedIdx q + 1\<rparr>, w2))"
    using w1(1) w2(1) assms(2) by (simp add: writeQueueUsed_def used_slot_def Let_def)
  with that w1 w2 show ?thesis by simp
qed

end

section \<open>Serving a queue\<close>

lemma writeQueueUsed_regs:
  "writeQueueUsed H head n (q, w) = (Inr u, (q2, w2)) \<Longrightarrow> q2 = q\<lparr>usedIdx := usedIdx q + 1\<rparr>"
  by (auto simp: writeQueueUsed_def Let_def split: if_splits prod.splits sum.splits)

text \<open>What storing a queue and serving a chain both keep, the loop keeps.\<close>

lemma drain_invariant:
  assumes "\<And>q d. P d \<Longrightarrow> P (put q d)"
    and "\<And>head d w r d1 w1. P d \<Longrightarrow> body head (d, w) = (r, (d1, w1)) \<Longrightarrow> P d1"
    and "P d" and "drain n H get put body a (d, w) = (r, (d', w'))"
  shows "P d'"
  using assms(3,4)
proof (induction n arbitrary: d w)
  case 0
  then show ?case by (auto split: if_splits)
next
  case (Suc n)
  have next_round: "P d'" if "body head (d, w) = (Inr used, (d1, w1))"
      "drain n H get put body a (put q2 d1, w2) = (r, (d', w'))" for head used d1 w1 q2 w2
    using Suc.IH [OF _ that(2)] assms(1) assms(2) [OF Suc.prems(1) that(1)] by blast
  show ?case using Suc.prems assms(1,2)
    by (auto split: if_splits sum.splits prod.splits intro: next_round)
qed

lemma drain_then_invariant:
  assumes "\<And>q d. P d \<Longrightarrow> P (put q d)"
    and "\<And>head d w r d1 w1. P d \<Longrightarrow> body head (d, w) = (r, (d1, w1)) \<Longrightarrow> P d1"
    and "\<And>d w r d1 w1. P d \<Longrightarrow> fin () (d, w) = (r, (d1, w1)) \<Longrightarrow> P d1"
    and "P d" and "bindE (drain n H get put body a) fin (d, w) = (r, (d', w'))"
  shows "P d'"
proof -
  obtain r1 d1 w1 where loop: "drain n H get put body a (d, w) = (r1, (d1, w1))"
    by (rule prod_cases3)
  have "P d1" by (rule drain_invariant [where P = P, OF assms(1,2,4) loop])
  then show ?thesis using assms(3,5) loop by (auto simp: bindE_def split: sum.splits)
qed

text \<open>
  What the loop relies on, for every device: on a well-formed device (one that has the
  queue) \<open>get\<close> reads what \<open>put\<close> stored, serving a chain leaves the queue's own registers
  alone, and both keep the device well-formed.
\<close>

locale queue_server =
  fixes H :: "'w host"
    and wf :: "'d \<Rightarrow> bool"
    and get :: "'d \<Rightarrow> queue"
    and put :: "queue \<Rightarrow> 'd \<Rightarrow> 'd"
    and body :: "u16 \<Rightarrow> ('d \<times> 'w, u32) op"
  assumes get_put: "wf d \<Longrightarrow> get (put q d) = q"
    and put_wf: "wf d \<Longrightarrow> wf (put q d)"
    and body_wf: "wf d \<Longrightarrow> body head (d, w) = (r, (d1, w1)) \<Longrightarrow> wf d1"
    and body_get: "wf d \<Longrightarrow> body head (d, w) = (r, (d1, w1)) \<Longrightarrow> get d1 = get d"
begin

lemma drain_done:
  "lastAvailIdx (get d) = a \<Longrightarrow> drain n H get put body a (d, w) = (Inr (), (d, w))"
  by (cases n) auto

lemma pending_step:
  assumes "lastAvailIdx q \<noteq> a"
  shows "pending (q\<lparr>usedIdx := u, lastAvailIdx := lastAvailIdx q + 1\<rparr>) a < pending q a"
  using unat_diff_step [OF assms] by (simp add: pending_def)

text \<open>Once the fuel covers the distance to the published index, more of it changes nothing.\<close>

lemma drain_fuel:
  "wf d \<Longrightarrow> pending (get d) a \<le> n \<Longrightarrow> drain (n + k) H get put body a (d, w) = drain n H get put body a (d, w)"
proof (induction n arbitrary: d w)
  case 0
  then have "a - lastAvailIdx (get d) = 0" by (simp add: pending_def word_unat_eq_iff)
  then have "lastAvailIdx (get d) = a" by simp
  then show ?case by (simp only: drain_done)
next
  case (Suc n)
  have next_round: "drain (n + k) H get put body a (put (q2\<lparr>lastAvailIdx := lastAvailIdx q2 + 1\<rparr>) d1, w2) =
      drain n H get put body a (put (q2\<lparr>lastAvailIdx := lastAvailIdx q2 + 1\<rparr>) d1, w2)"
    if "lastAvailIdx (get d) \<noteq> a" "body head (d, w) = (Inr used, (d1, w1))"
      "writeQueueUsed H head used (get d1, w1) = (Inr u, (q2, w2))" for head used d1 w1 u q2 w2
  proof (rule Suc.IH)
    show "wf (put (q2\<lparr>lastAvailIdx := lastAvailIdx q2 + 1\<rparr>) d1)"
      using put_wf body_wf [OF Suc.prems(1) that(2)] by blast
    have "q2\<lparr>lastAvailIdx := lastAvailIdx q2 + 1\<rparr> =
        (get d)\<lparr>usedIdx := usedIdx (get d) + 1, lastAvailIdx := lastAvailIdx (get d) + 1\<rparr>"
      using writeQueueUsed_regs [OF that(3)] body_get [OF Suc.prems(1) that(2)] by simp
    with pending_step [OF that(1), of "usedIdx (get d) + 1"] Suc.prems
    show "pending (get (put (q2\<lparr>lastAvailIdx := lastAvailIdx q2 + 1\<rparr>) d1)) a \<le> n"
      using body_wf [OF Suc.prems(1) that(2)] by (simp add: get_put)
  qed
  show ?case
    by (auto simp: next_round split: sum.splits prod.splits)
qed

text \<open>
  A drain that returns without an error has consumed the available ring up to the
  published index, completed as many chains as it consumed, and changed no other register.
\<close>

lemma drain_regs:
  "wf d \<Longrightarrow> drain n H get put body a (d, w) = (Inr (), (d', w')) \<Longrightarrow>
     get d' = (get d)\<lparr>lastAvailIdx := a, usedIdx := usedIdx (get d) + (a - lastAvailIdx (get d))\<rparr>"
proof (induction n arbitrary: d w)
  case 0
  then show ?case by (auto split: if_splits)
next
  case (Suc n)
  show ?case
  proof (cases "lastAvailIdx (get d) = a")
    case True
    with Suc.prems show ?thesis by auto
  next
    case False
    with Suc.prems obtain head used d1 w1 q2 w2 where
        b: "body head (d, w) = (Inr used, (d1, w1))"
        and u: "writeQueueUsed H head used (get d1, w1) = (Inr (), (q2, w2))"
        and rest: "drain n H get put body a (put (q2\<lparr>lastAvailIdx := lastAvailIdx q2 + 1\<rparr>) d1, w2) =
          (Inr (), (d', w'))"
      by (auto split: sum.splits prod.splits)
    have "q2 = (get d)\<lparr>usedIdx := usedIdx (get d) + 1\<rparr>"
      using writeQueueUsed_regs [OF u] body_get [OF Suc.prems(1) b] by simp
    moreover have "wf d1" by (rule body_wf [OF Suc.prems(1) b])
    ultimately show ?thesis using Suc.IH [OF put_wf rest] by (simp add: get_put)
  qed
qed

end

text \<open>
  Queues whose chains the device only reads (the transmit queues): serving a chain leaves
  guest memory as it is. Then the completions appear in the used ring in the order the
  driver published the chains.
\<close>

definition avail_head :: "(u64 \<Rightarrow> u8 option) \<Rightarrow> queue \<Rightarrow> u16 \<Rightarrow> u16" where
  "avail_head m q i = le16 (get_view m (avail_slot q i) 2)"

definition used_id :: "(u64 \<Rightarrow> u8 option) \<Rightarrow> queue \<Rightarrow> u16 \<Rightarrow> u32" where
  "used_id m q i = le32 (take 4 (get_view m (used_slot q i) 8))"

definition used_index :: "(u64 \<Rightarrow> u8 option) \<Rightarrow> queue \<Rightarrow> u16" where
  "used_index m q = le16 (get_view m (usedAddr q + 2) 2)"

text \<open>The rings of a queue lie in device-accessible memory and do not overlap.\<close>

definition rings_ok :: "(u64 \<Rightarrow> nat \<Rightarrow> bool) \<Rightarrow> queue \<Rightarrow> bool" where
  "rings_ok v q \<longleftrightarrow> q_size q \<noteq> 0 \<and> unat (q_size q) dvd 65536 \<and>
     v (availAddr q) (avail_bytes q) \<and> v (usedAddr q) (used_bytes q) \<and>
     apart (usedAddr q) (used_bytes q) (availAddr q) (avail_bytes q)"

lemma ring_addr_cong:
  assumes "usedAddr q' = usedAddr q" and "availAddr q' = availAddr q" and "q_size q' = q_size q"
  shows "rings_ok v q' = rings_ok v q" "used_id m q' i = used_id m q i" "avail_head m q' i = avail_head m q i"
    "used_index m q' = used_index m q"
  using assms by (simp_all add: rings_ok_def used_id_def avail_head_def used_index_def used_slot_def
      avail_slot_def used_bytes_def avail_bytes_def)

lemma used_stores_avail:
  assumes "rings_ok v q" and "m' = put_view (put_view m (used_slot q i) (used_elem h n)) (usedAddr q + 2) (put_le16 u)"
  shows "avail_head m' q j = avail_head m q j"
proof -
  have A: "apart (usedAddr q) (used_bytes q) (availAddr q) (avail_bytes q)" and sz: "q_size q \<noteq> 0"
    using assms(1) by (auto simp: rings_ok_def)
  have "apart (used_slot q i) 8 (avail_slot q j) 2"
    using apart_sub [OF A, of "4 + unat (i mod q_size q) * 8" 8 "4 + unat (j mod q_size q) * 2" 2]
      slot_lt [OF sz, of i] slot_lt [OF sz, of j]
    unfolding used_slot_nat avail_slot_nat by (simp add: used_bytes_def avail_bytes_def)
  moreover have "apart (usedAddr q + 2) 2 (avail_slot q j) 2"
    using apart_sub [OF A, of 2 2 "4 + unat (j mod q_size q) * 2" 2] slot_lt [OF sz, of j]
    unfolding avail_slot_nat by (simp add: used_bytes_def avail_bytes_def)
  ultimately show ?thesis
    by (simp add: assms(2) avail_head_def get_view_apart)
qed

lemma used_stores_self:
  assumes "m' = put_view (put_view m (used_slot q i) (used_elem h n)) (usedAddr q + 2) (put_le16 u)"
  shows "used_id m' q i = ucast h" "used_index m' q = u"
proof -
  have "get_view m' (used_slot q i) 8 = used_elem h n"
    using get_put_view [of "used_elem h n" m "used_slot q i"] used_idx_apart [of q i]
    by (simp add: assms get_view_apart)
  then show "used_id m' q i = ucast h"
    by (simp add: used_id_def used_elem_def)
  show "used_index m' q = u"
    using get_put_view [of "put_le16 u" _ "usedAddr q + 2"] by (simp add: assms used_index_def)
qed

lemma used_stores_other:
  assumes "unat (i mod q_size q) \<noteq> unat (j mod q_size q)"
    and "m' = put_view (put_view m (used_slot q i) (used_elem h n)) (usedAddr q + 2) (put_le16 u)"
  shows "used_id m' q j = used_id m q j"
  using used_slots_apart [OF assms(1)] used_idx_apart [of q j]
  by (simp add: assms(2) used_id_def get_view_apart)

text \<open>
  \<open>completed m m' q p\<close>: from memory \<open>m\<close> to memory \<open>m'\<close> the next \<open>p\<close> entries of the used
  ring became the next \<open>p\<close> heads of the available ring, in order, and no other entry of the
  used ring changed.
\<close>

definition completed :: "(u64 \<Rightarrow> u8 option) \<Rightarrow> (u64 \<Rightarrow> u8 option) \<Rightarrow> queue \<Rightarrow> nat \<Rightarrow> bool" where
  "completed m m' q p \<longleftrightarrow>
     (\<forall>i<p. used_id m' q (usedIdx q + of_nat i) = ucast (avail_head m q (lastAvailIdx q + of_nat i))) \<and>
     (\<forall>j. (\<forall>i<p. unat ((usedIdx q + of_nat i) mod q_size q) \<noteq> unat (j mod q_size q)) \<longrightarrow>
        used_id m' q j = used_id m q j)"

lemma completed_step:
  assumes "rings_ok v q"
    and m2: "m2 = put_view (put_view m (used_slot q (usedIdx q))
      (used_elem (avail_head m q (lastAvailIdx q)) len)) (usedAddr q + 2) (put_le16 (usedIdx q + 1))"
    and q': "q' = q\<lparr>usedIdx := usedIdx q + 1, lastAvailIdx := lastAvailIdx q + 1\<rparr>"
    and "completed m2 m' q' p" and p: "Suc p \<le> unat (q_size q)"
  shows "completed m m' q (Suc p)"
proof -
  have same: "used_id m q' j = used_id m q j" "avail_head m q' j = avail_head m q j" for m j
    by (rule ring_addr_cong; simp add: q')+
  have regs: "usedIdx q' = usedIdx q + 1" "lastAvailIdx q' = lastAvailIdx q + 1" "q_size q' = q_size q"
    by (simp_all add: q')
  note C = assms(4) [unfolded completed_def same regs]
  have later: "used_id m' q (usedIdx q + 1 + of_nat i) = ucast (avail_head m q (lastAvailIdx q + 1 + of_nat i))"
    if "i < p" for i
    using conjunct1 [OF C] that used_stores_avail [OF assms(1) m2] by metis
  have frame: "used_id m' q j = used_id m2 q j"
    if "\<And>i. i < p \<Longrightarrow> unat ((usedIdx q + 1 + of_nat i) mod q_size q) \<noteq> unat (j mod q_size q)" for j
    using conjunct2 [OF C] that by blast
  have dvd: "unat (q_size q) dvd 65536" using assms(1) by (simp add: rings_ok_def)
  have "used_id m' q (usedIdx q) = used_id m2 q (usedIdx q)"
  proof (rule frame)
    fix i assume "i < p"
    then show "unat ((usedIdx q + 1 + of_nat i) mod q_size q) \<noteq> unat (usedIdx q mod q_size q)"
      using slots_differ [OF dvd, of "Suc i" "usedIdx q"] p by (simp add: add.assoc)
  qed
  then have first: "used_id m' q (usedIdx q) = ucast (avail_head m q (lastAvailIdx q))"
    using used_stores_self(1) [OF m2] by simp
  have "used_id m' q (usedIdx q + of_nat i) = ucast (avail_head m q (lastAvailIdx q + of_nat i))"
    if "i < Suc p" for i
  proof (cases i)
    case 0
    with first show ?thesis by simp
  next
    case (Suc k)
    with that later [of k] show ?thesis by (simp add: add.assoc)
  qed
  moreover have "used_id m' q j = used_id m q j"
    if j: "\<forall>i<Suc p. unat ((usedIdx q + of_nat i) mod q_size q) \<noteq> unat (j mod q_size q)" for j
  proof -
    have "used_id m' q j = used_id m2 q j"
    proof (rule frame)
      fix i assume "i < p"
      with j have "unat ((usedIdx q + of_nat (Suc i)) mod q_size q) \<noteq> unat (j mod q_size q)" by blast
      then show "unat ((usedIdx q + 1 + of_nat i) mod q_size q) \<noteq> unat (j mod q_size q)"
        by (simp add: add.assoc)
    qed
    also have "\<dots> = used_id m q j"
      using spec [OF j, of 0] used_stores_other [OF _ m2, of j] by simp
    finally show ?thesis .
  qed
  ultimately show ?thesis unfolding completed_def by blast
qed

lemma pending_pred:
  assumes "lastAvailIdx q \<noteq> a"
  shows "pending q a = Suc (pending (q\<lparr>usedIdx := u, lastAvailIdx := lastAvailIdx q + 1\<rparr>) a)"
proof -
  define k where "k = a - lastAvailIdx q"
  have "k \<noteq> 0" using assms by (simp add: k_def)
  moreover have "a - (lastAvailIdx q + 1) = k - 1" by (simp add: k_def)
  ultimately show ?thesis unfolding pending_def
    by (simp add: k_def [symmetric] unat_minus_one Suc_pred word_unat_eq_iff)
qed

locale queue_reader = guest_ram H ok view valid + queue_server H wf get put body
  for H :: "'w host"
    and ok :: "'w \<Rightarrow> bool"
    and view :: "'w \<Rightarrow> u64 \<Rightarrow> u8 option"
    and valid :: "'w \<Rightarrow> u64 \<Rightarrow> nat \<Rightarrow> bool"
    and wf :: "'d \<Rightarrow> bool"
    and get :: "'d \<Rightarrow> queue"
    and put :: "queue \<Rightarrow> 'd \<Rightarrow> 'd"
    and body :: "u16 \<Rightarrow> ('d \<times> 'w, u32) op" +
  assumes body_world: "wf d \<Longrightarrow> ok w \<Longrightarrow> body head (d, w) = (r, (d1, w1)) \<Longrightarrow>
    ok w1 \<and> view w1 = view w \<and> valid w1 = valid w"
begin

text \<open>One round: the head is the one the available ring names, its completion is the store.\<close>

lemma drain_head:
  assumes "ok w" and "rings_ok (valid w) q"
  shows "readAvailableHead H q i w = Inr (avail_head (view w) q i)"
proof -
  have v: "q_size q \<noteq> 0" "valid w (availAddr q) (avail_bytes q)"
    using assms(2) by (auto simp: rings_ok_def)
  have "valid w (avail_slot q i) 2"
    using valid_sub [OF assms(1) v(2), of "4 + unat (i mod q_size q) * 2" 2] slot_lt [OF v(1), of i]
    unfolding avail_slot_nat by (simp add: avail_bytes_def)
  then show ?thesis
    using v(1) read_valid [OF assms(1)]
    by (simp add: readAvailableHead_def avail_head_def avail_slot_def)
qed

lemma drain_round:
  assumes "ok w" and "wf d" and "rings_ok (valid w) (get d)" and "lastAvailIdx (get d) \<noteq> a"
    and b: "body (avail_head (view w) (get d) (lastAvailIdx (get d))) (d, w) = (Inr len, (d1, w1))"
    and q': "q' = (get d)\<lparr>usedIdx := usedIdx (get d) + 1, lastAvailIdx := lastAvailIdx (get d) + 1\<rparr>"
  obtains w2 where
    "drain (Suc n) H get put body a (d, w) = drain n H get put body a (put q' d1, w2)"
    and "writeQueueUsed H (avail_head (view w) (get d) (lastAvailIdx (get d))) len (get d, w1) =
      (Inr (), ((get d)\<lparr>usedIdx := usedIdx (get d) + 1\<rparr>, w2))"
    and "get (put q' d1) = q'" and "wf (put q' d1)" and "ok w2" and "valid w2 = valid w"
    and "view w2 = put_view (put_view (view w) (used_slot (get d) (usedIdx (get d)))
      (used_elem (avail_head (view w) (get d) (lastAvailIdx (get d))) len))
      (usedAddr (get d) + 2) (put_le16 (usedIdx (get d) + 1))"
proof -
  let ?q = "get d"
  define h where "h = avail_head (view w) ?q (lastAvailIdx ?q)"
  have w1: "ok w1" "view w1 = view w" "valid w1 = valid w" using body_world [OF assms(2,1) b] by auto
  have v: "q_size ?q \<noteq> 0" "valid w1 (usedAddr ?q) (used_bytes ?q)"
    using assms(3) w1 by (auto simp: rings_ok_def)
  obtain w2 where w2: "writeQueueUsed H h len (?q, w1) = (Inr (), (?q\<lparr>usedIdx := usedIdx ?q + 1\<rparr>, w2))"
      "ok w2" "valid w2 = valid w1"
      "view w2 = put_view (put_view (view w1) (used_slot ?q (usedIdx ?q)) (used_elem h len))
        (usedAddr ?q + 2) (put_le16 (usedIdx ?q + 1))"
    using writeQueueUsed_stores [OF w1(1) v, of h len] by metis
  have "drain (Suc n) H get put body a (d, w) = drain n H get put body a (put q' d1, w2)"
    using assms(4) drain_head [OF assms(1,3)] b w2(1) body_get [OF assms(2) b]
    by (simp add: h_def q')
  with that w1 w2 body_wf [OF assms(2) b] show ?thesis
    by (simp add: get_put put_wf h_def)
qed

lemma drain_step:
  assumes "ok w" and "wf d" and "rings_ok (valid w) (get d)" and "lastAvailIdx (get d) \<noteq> a"
    and "drain (Suc n) H get put body a (d, w) = (Inr (), (d', w'))"
    and "q' = (get d)\<lparr>usedIdx := usedIdx (get d) + 1, lastAvailIdx := lastAvailIdx (get d) + 1\<rparr>"
  obtains d2 w2 len where
    "drain n H get put body a (d2, w2) = (Inr (), (d', w'))" and "get d2 = q'"
    and "wf d2" and "ok w2" and "valid w2 = valid w"
    and "view w2 = put_view (put_view (view w) (used_slot (get d) (usedIdx (get d)))
      (used_elem (avail_head (view w) (get d) (lastAvailIdx (get d))) len))
      (usedAddr (get d) + 2) (put_le16 (usedIdx (get d) + 1))"
proof -
  from assms(4,5) drain_head [OF assms(1,3)] obtain len d1 w1 where
      b: "body (avail_head (view w) (get d) (lastAvailIdx (get d))) (d, w) = (Inr len, (d1, w1))"
    by (auto split: sum.splits prod.splits)
  show ?thesis
    by (rule drain_round [OF assms(1-4) b assms(6), of n]) (rule that, use assms(5) in auto)
qed

lemma drain_completes:
  assumes "ok w" and "wf d" and "rings_ok (valid w) (get d)" and "pending (get d) a \<le> unat (q_size (get d))"
    and "drain n H get put body a (d, w) = (Inr (), (d', w'))"
  shows "completed (view w) (view w') (get d) (pending (get d) a) \<and>
    (0 < pending (get d) a \<longrightarrow> used_index (view w') (get d) = usedIdx (get d'))"
  using assms
proof (induction n arbitrary: d w)
  case 0
  then show ?case by (auto simp: pending_def completed_def split: if_splits)
next
  case (Suc n)
  show ?case
  proof (cases "lastAvailIdx (get d) = a")
    case True
    with Suc.prems show ?thesis by (simp add: pending_def completed_def)
  next
    case False
    define q' where "q' = (get d)\<lparr>usedIdx := usedIdx (get d) + 1, lastAvailIdx := lastAvailIdx (get d) + 1\<rparr>"
    obtain d2 w2 len where s2: "drain n H get put body a (d2, w2) = (Inr (), (d', w'))" "get d2 = q'"
        "wf d2" "ok w2" "valid w2 = valid w"
        "view w2 = put_view (put_view (view w) (used_slot (get d) (usedIdx (get d)))
          (used_elem (avail_head (view w) (get d) (lastAvailIdx (get d))) len))
          (usedAddr (get d) + 2) (put_le16 (usedIdx (get d) + 1))"
      using drain_step [OF Suc.prems(1-3) False Suc.prems(5) q'_def] by blast
    have p: "pending (get d) a = Suc (pending q' a)" unfolding q'_def by (rule pending_pred [OF False])
    have same: "rings_ok v q' = rings_ok v (get d)" "used_index m q' = used_index m (get d)" for v m
      by (rule ring_addr_cong; simp add: q'_def)+
    have r: "rings_ok (valid w2) q'" using Suc.prems(3) s2(5) by (simp add: same)
    have sz: "q_size q' = q_size (get d)" by (simp add: q'_def)
    have IH: "completed (view w2) (view w') q' (pending q' a)"
        "0 < pending q' a \<longrightarrow> used_index (view w') q' = usedIdx (get d')"
      using Suc.IH [OF s2(4,3) _ _ s2(1)] r p Suc.prems(4) sz unfolding s2(2) by auto
    have "completed (view w) (view w') (get d) (Suc (pending q' a))"
      using completed_step [OF Suc.prems(3) s2(6) q'_def IH(1)] Suc.prems(4) p by simp
    moreover have "used_index (view w') (get d) = usedIdx (get d')"
    proof (cases "pending q' a = 0")
      case True
      then have "a - lastAvailIdx q' = 0" by (simp add: pending_def word_unat_eq_iff)
      then have "lastAvailIdx (get d2) = a" by (simp add: s2(2))
      with s2(1) drain_done have "d' = d2" "w' = w2" by auto
      with used_stores_self(2) [OF s2(6)] s2(2) show ?thesis by (simp add: q'_def)
    next
      case False
      with IH(2) show ?thesis by (simp add: same)
    qed
    ultimately show ?thesis by (simp add: p)
  qed
qed

end

section \<open>Chains the driver prepared in memory\<close>

text \<open>The descriptor table as a function of the contents of memory.\<close>

definition mem_desc :: "(u64 \<Rightarrow> u8 option) \<Rightarrow> queue \<Rightarrow> u16 \<Rightarrow> descriptor option" where
  "mem_desc m q i =
     (if unat i < unat (q_size q)
      then Some (decode_descriptor (get_view m (descAddr q + of_nat (unat i * 16)) 16)) else None)"

text \<open>The table is device-accessible memory that the used ring does not overlap.\<close>

definition table_ok :: "(u64 \<Rightarrow> nat \<Rightarrow> bool) \<Rightarrow> queue \<Rightarrow> bool" where
  "table_ok v q \<longleftrightarrow> v (descAddr q) (unat (q_size q) * 16) \<and>
     apart (usedAddr q) (used_bytes q) (descAddr q) (unat (q_size q) * 16)"

definition buf_ok :: "(u64 \<Rightarrow> nat \<Rightarrow> bool) \<Rightarrow> queue \<Rightarrow> queueBuffer \<Rightarrow> bool" where
  "buf_ok v q b \<longleftrightarrow> v (b_addr b) (unat (b_length b)) \<and>
     apart (usedAddr q) (used_bytes q) (b_addr b) (unat (b_length b))"

text \<open>The readable buffers of a chain, and the bytes they hold.\<close>

definition readable_bufs :: "descriptor list \<Rightarrow> queueBuffer list" where
  "readable_bufs ds = filter readable (map desc_buffer ds)"

definition chain_bytes :: "(u64 \<Rightarrow> u8 option) \<Rightarrow> descriptor list \<Rightarrow> bytes" where
  "chain_bytes m ds = gather m (readable_bufs ds)"

definition chain_ok ::
    "(u64 \<Rightarrow> nat \<Rightarrow> bool) \<Rightarrow> (u64 \<Rightarrow> u8 option) \<Rightarrow> queue \<Rightarrow> u16 \<Rightarrow> descriptor list \<Rightarrow> bool" where
  "chain_ok v m q head ds \<longleftrightarrow> chain_from (mem_desc m q) head ds \<and> list_all (buf_ok v q) (readable_bufs ds)"

lemma readable_bufs_simps [simp]:
  "readable_bufs [] = []"
  "readable_bufs (d # ds) = (if d_flags d AND descFWrite = 0 then [desc_buffer d] else []) @ readable_bufs ds"
  by (simp_all add: readable_bufs_def)

lemma bufs_valid_ok: "list_all (buf_ok v q) bs \<Longrightarrow> bufs_valid v bs"
  by (induction bs) (auto simp: buf_ok_def)

definition writable_bufs :: "descriptor list \<Rightarrow> queueBuffer list" where
  "writable_bufs ds = filter b_write (map desc_buffer ds)"

lemma writable_bufs_simps [simp]:
  "writable_bufs [] = []"
  "writable_bufs (d # ds) = (if d_flags d AND descFWrite \<noteq> 0 then [desc_buffer d] else []) @ writable_bufs ds"
  by (simp_all add: writable_bufs_def)

text \<open>Memories that differ in the used ring only.\<close>

definition used_only :: "queue \<Rightarrow> (u64 \<Rightarrow> u8 option) \<Rightarrow> (u64 \<Rightarrow> u8 option) \<Rightarrow> bool" where
  "used_only q m m' \<longleftrightarrow> (\<forall>x. (\<forall>i<used_bytes q. x \<noteq> usedAddr q + of_nat i) \<longrightarrow> m' x = m x)"

lemma used_only_refl [simp]: "used_only q m m"
  by (simp add: used_only_def)

lemma used_only_trans: "used_only q m m1 \<Longrightarrow> used_only q m1 m2 \<Longrightarrow> used_only q m m2"
  by (simp add: used_only_def)

lemma used_only_view:
  assumes "used_only q m m'" and "apart (usedAddr q) (used_bytes q) a n"
  shows "get_view m' a n = get_view m a n"
proof (rule get_view_cong)
  fix i assume "i < n"
  then have "\<forall>j<used_bytes q. a + of_nat i \<noteq> usedAddr q + of_nat j"
    using assms(2) unfolding apart_def by metis
  then show "m' (a + of_nat i) = m (a + of_nat i)" using assms(1) by (simp add: used_only_def)
qed

lemma used_only_stores:
  assumes "q_size q \<noteq> 0"
  shows "used_only q m (put_view (put_view m (used_slot q i) (used_elem h n)) (usedAddr q + 2) (put_le16 u))"
  unfolding used_only_def
proof (intro allI impI)
  fix x assume x: "\<forall>i<used_bytes q. x \<noteq> usedAddr q + of_nat i"
  have "x \<noteq> used_slot q i + of_nat k" if "k < 8" for k
  proof -
    have "4 + unat (i mod q_size q) * 8 + k < used_bytes q"
      using slot_lt [OF assms, of i] that by (simp add: used_bytes_def)
    with x have "x \<noteq> usedAddr q + of_nat (4 + unat (i mod q_size q) * 8 + k)" by blast
    then show ?thesis unfolding used_slot_nat of_nat_add add.assoc .
  qed
  moreover have "x \<noteq> usedAddr q + 2 + of_nat k" if "k < 2" for k
  proof -
    have "2 + k < used_bytes q" using that by (simp add: used_bytes_def)
    with x have "x \<noteq> usedAddr q + of_nat (2 + k)" by blast
    then show ?thesis by (simp add: add.assoc)
  qed
  ultimately show "put_view (put_view m (used_slot q i) (used_elem h n)) (usedAddr q + 2) (put_le16 u) x = m x"
    using put_view_outside [of "put_le16 u" x "usedAddr q + 2"]
      put_view_outside [of "used_elem h n" x "used_slot q i"] by simp
qed

lemma mem_desc_used_only:
  assumes "used_only q m m'" and "table_ok v q"
  shows "mem_desc m' q = mem_desc m q"
proof
  fix i :: u16
  have A: "apart (usedAddr q) (used_bytes q) (descAddr q) (unat (q_size q) * 16)"
    using assms(2) by (simp add: table_ok_def)
  have "get_view m' (descAddr q + of_nat (unat i * 16)) 16 = get_view m (descAddr q + of_nat (unat i * 16)) 16"
    if "unat i < unat (q_size q)"
    using apart_sub [OF A, of 0 "used_bytes q" "unat i * 16" 16] that
    by (intro used_only_view [OF assms(1)]) simp
  then show "mem_desc m' q i = mem_desc m q i" by (simp add: mem_desc_def)
qed

lemma chain_ok_used_only:
  assumes "used_only q m m'" and "table_ok v q"
  shows "chain_ok v m' q head ds \<longleftrightarrow> chain_ok v m q head ds"
  by (simp add: chain_ok_def mem_desc_used_only [OF assms])

lemma gather_used_only:
  "used_only q m m' \<Longrightarrow> list_all (buf_ok v q) bs \<Longrightarrow> gather m' bs = gather m bs"
  by (induction bs) (auto simp: buf_ok_def used_only_view)

lemma chain_bytes_used_only:
  "used_only q m m' \<Longrightarrow> chain_ok v m q head ds \<Longrightarrow> chain_bytes m' ds = chain_bytes m ds"
  by (auto simp: chain_bytes_def chain_ok_def gather_used_only)

lemma chain_queue_cong:
  assumes "descAddr q' = descAddr q" and "usedAddr q' = usedAddr q" and "q_size q' = q_size q"
  shows "mem_desc m q' = mem_desc m q" "table_ok v q' = table_ok v q" "chain_ok v m q' = chain_ok v m q"
    "used_only q' m = used_only q m"
proof -
  show 1: "mem_desc m q' = mem_desc m q" using assms by (simp add: mem_desc_def fun_eq_iff)
  show "table_ok v q' = table_ok v q" using assms by (simp add: table_ok_def used_bytes_def)
  have "buf_ok v q' = buf_ok v q" using assms by (simp add: buf_ok_def used_bytes_def fun_eq_iff)
  with 1 show "chain_ok v m q' = chain_ok v m q" by (intro ext) (simp add: chain_ok_def)
  show "used_only q' m = used_only q m" using assms by (simp add: used_only_def used_bytes_def fun_eq_iff)
qed

context guest_ram
begin

lemma desc_table_mem:
  assumes "ok w" and "valid w (descAddr q) (unat (q_size q) * 16)"
  shows "desc_table H q w = mem_desc (view w) q"
proof
  fix i :: u16
  have "valid w (descAddr q + of_nat (unat i * 16)) 16" if "unat i < unat (q_size q)"
    using valid_sub [OF assms, of "unat i * 16" 16] that by simp
  then show "desc_table H q w i = mem_desc (view w) q i"
    using read_valid [OF assms(1)]
    by (auto simp: desc_table_def readQueueDescriptor_def mem_desc_def not_le word_less_nat_alt
        word_le_nat_alt word_unat_eq_iff)
qed

lemma desc_read:
  assumes "ok w" and "valid w (descAddr q) (unat (q_size q) * 16)" and "mem_desc (view w) q i = Some d"
  shows "readQueueDescriptor H q i w = Inr d"
proof -
  have i: "unat i < unat (q_size q)" using assms(3) by (simp add: mem_desc_def split: if_splits)
  then have "valid w (descAddr q + of_nat (unat i * 16)) 16"
    using valid_sub [OF assms(1,2), of "unat i * 16" 16] by simp
  from read_valid [OF assms(1) this] assms(3) i show ?thesis
    by (auto simp: readQueueDescriptor_def mem_desc_def word_le_nat_alt word_unat_eq_iff)
qed

end

end
