(* ===== verification/VirtioMmio.thy ===== *)
theory VirtioMmio
  imports QueueServer
begin

text \<open>
  What the virtio-mmio devices share (\<^verbatim>\<open>internal/virtio/console.go\<close>, \<^verbatim>\<open>queue_helpers.go\<close>,
  \<^verbatim>\<open>state.go\<close>): the register offsets, the transport registers, the interrupt line, the
  snapshot of a device. Every device struct of the source repeats the transport fields;
  here they are one record, which each device extends with its own fields. An interface
  value that may be nil is a flag (\<open>mem_attached\<close>, \<open>irq_attached\<close>).
\<close>

section \<open>Registers\<close>

definition mmioMagicValue :: u64 where "mmioMagicValue = 0x74726976"
definition mmioVersion :: u32 where "mmioVersion = 2"
definition mmioVendorID :: u64 where "mmioVendorID = 0x554d4551"
definition regMagicValue :: u64 where "regMagicValue = 0x000"
definition regVersion :: u64 where "regVersion = 0x004"
definition regDeviceID :: u64 where "regDeviceID = 0x008"
definition regVendorID :: u64 where "regVendorID = 0x00c"
definition regDeviceFeatures :: u64 where "regDeviceFeatures = 0x010"
definition regDeviceFeatSel :: u64 where "regDeviceFeatSel = 0x014"
definition regDriverFeatures :: u64 where "regDriverFeatures = 0x020"
definition regDriverFeatSel :: u64 where "regDriverFeatSel = 0x024"
definition regGuestPageSize :: u64 where "regGuestPageSize = 0x028"
definition regQueueSel :: u64 where "regQueueSel = 0x030"
definition regQueueNumMax :: u64 where "regQueueNumMax = 0x034"
definition regQueueNum :: u64 where "regQueueNum = 0x038"
definition regQueueAlign :: u64 where "regQueueAlign = 0x03c"
definition regQueuePFN :: u64 where "regQueuePFN = 0x040"
definition regQueueReady :: u64 where "regQueueReady = 0x044"
definition regQueueNotify :: u64 where "regQueueNotify = 0x050"
definition regInterruptStatus :: u64 where "regInterruptStatus = 0x060"
definition regInterruptAck :: u64 where "regInterruptAck = 0x064"
definition regStatus :: u64 where "regStatus = 0x070"
definition regQueueDescLow :: u64 where "regQueueDescLow = 0x080"
definition regQueueDescHigh :: u64 where "regQueueDescHigh = 0x084"
definition regQueueAvailLow :: u64 where "regQueueAvailLow = 0x090"
definition regQueueAvailHigh :: u64 where "regQueueAvailHigh = 0x094"
definition regQueueUsedLow :: u64 where "regQueueUsedLow = 0x0a0"
definition regQueueUsedHigh :: u64 where "regQueueUsedHigh = 0x0a4"
definition regConfigGen :: u64 where "regConfigGen = 0x0fc"
definition regConfig :: u64 where "regConfig = 0x100"
definition featureVersion1 :: u64 where "featureVersion1 = 0x100000000"
definition featureSize :: u64 where "featureSize = 1"
definition intVring :: u32 where "intVring = 1"
definition intConfig :: u32 where "intConfig = 2"

lemmas reg_defs = regMagicValue_def regVersion_def regDeviceID_def regVendorID_def
  regDeviceFeatures_def regDeviceFeatSel_def regDriverFeatures_def regDriverFeatSel_def
  regGuestPageSize_def regQueueSel_def regQueueNumMax_def regQueueNum_def regQueueAlign_def
  regQueuePFN_def regQueueReady_def regQueueNotify_def regInterruptStatus_def regInterruptAck_def
  regStatus_def regQueueDescLow_def regQueueDescHigh_def regQueueAvailLow_def regQueueAvailHigh_def
  regQueueUsedLow_def regQueueUsedHigh_def regConfigGen_def regConfig_def

definition mmioTransportVersion :: "bool \<Rightarrow> u32" where
  "mmioTransportVersion legacy = (if legacy then 1 else mmioVersion)"

definition truncateValue :: "u64 \<Rightarrow> nat \<Rightarrow> u64" where
  "truncateValue val sz =
     (if sz = 1 then val AND 0xff
      else if sz = 2 then val AND 0xffff
      else if sz = 4 then val AND 0xffffffff
      else val)"

text \<open>A slice expression or an index past the end of \<open>buf\<close> panics.\<close>

definition readConfigValue :: "bytes \<Rightarrow> nat \<Rightarrow> error + u64" where
  "readConfigValue buf sz =
     (if length buf < sz then Inl Panic
      else if sz = 1 then Inr (ucast (buf ! 0))
      else if sz = 2 then Inr (ucast (le16 (take 2 buf)))
      else if sz = 4 then Inr (ucast (le32 (take 4 buf)))
      else if sz = 8 then Inr (le64 (take 8 buf))
      else Inr (foldr (\<lambda>b out. push_bit 8 out OR ucast b) (take sz buf) 0))"

definition alignVirtio :: "u64 \<Rightarrow> u64 \<Rightarrow> u64" where
  "alignVirtio val alignment =
     (if alignment = 0 then val else (val + alignment - 1) AND NOT (alignment - 1))"

section \<open>The transport\<close>

record virtio_dev =
  Base :: u64
  Size :: u64
  IRQ :: u32
  LegacyMMIO :: bool
  mem_attached :: bool
  irq_attached :: bool
  deviceFeatureSel :: u32
  driverFeatureSel :: u32
  driverFeatures :: u64
  queueSel :: u32
  status :: u32
  interruptStatus :: u32
  irqHigh :: bool
  configGeneration :: u32
  queues :: "queue list"

definition Attach :: "'a virtio_dev_scheme \<Rightarrow> 'a virtio_dev_scheme" where
  "Attach d = d\<lparr>mem_attached := True, irq_attached := True\<rparr>"

definition Contains :: "'a virtio_dev_scheme \<Rightarrow> u64 \<Rightarrow> nat \<Rightarrow> bool" where
  "Contains d addr sz \<longleftrightarrow> Base d \<le> addr \<and> addr + of_nat sz \<le> Base d + Size d"

definition addr_half :: "u64 \<Rightarrow> u32 \<Rightarrow> bool \<Rightarrow> u64" where
  "addr_half target val low =
     (if low then (target AND NOT 0xffffffff) OR ucast val
      else (target AND 0xffffffff) OR push_bit 32 (ucast val))"

definition set_driver_features :: "u64 \<Rightarrow> 'a virtio_dev_scheme \<Rightarrow> 'a virtio_dev_scheme" where
  "set_driver_features val d =
     (if driverFeatureSel d = 0 then
        d\<lparr>driverFeatures := (driverFeatures d AND NOT 0xffffffff) OR ucast (ucast val :: u32)\<rparr>
      else if driverFeatureSel d = 1 then
        d\<lparr>driverFeatures := (driverFeatures d AND 0xffffffff) OR push_bit 32 (ucast (ucast val :: u32))\<rparr>
      else d)"

text \<open>
  \<^verbatim>\<open>selectedQueueLocked\<close> returns a pointer into the array, or nil; here it is the index,
  and an assignment through the pointer is \<open>on_selected\<close>.
\<close>

definition selectedQueueLocked :: "'a virtio_dev_scheme \<Rightarrow> nat option" where
  "selectedQueueLocked d =
     (if of_nat (length (queues d)) \<le> queueSel d then None else Some (unat (queueSel d)))"

definition upd_queue :: "nat \<Rightarrow> (queue \<Rightarrow> queue) \<Rightarrow> 'a virtio_dev_scheme \<Rightarrow> 'a virtio_dev_scheme" where
  "upd_queue i f d = d\<lparr>queues := (queues d)[i := f (queues d ! i)]\<rparr>"

definition on_selected :: "(queue \<Rightarrow> queue) \<Rightarrow> 'a virtio_dev_scheme \<Rightarrow> 'a virtio_dev_scheme" where
  "on_selected f d = (case selectedQueueLocked d of None \<Rightarrow> d | Some i \<Rightarrow> upd_queue i f d)"

definition set_ready :: "u64 \<Rightarrow> queue \<Rightarrow> queue" where
  "set_ready val q =
     (if val = 0 then q\<lparr>q_ready := False, lastAvailIdx := 0, usedIdx := 0\<rparr>
      else q\<lparr>q_ready := True\<rparr>)"

definition updateIRQLocked :: "'w host \<Rightarrow> ('a virtio_dev_scheme \<times> 'w, unit) op" where
  "updateIRQLocked H s =
     (case s of (d, w) \<Rightarrow>
        if \<not> irq_attached d then (Inr (), (d, w))
        else let level = (interruptStatus d \<noteq> 0)
             in if irqHigh d = level then (Inr (), (d, w))
                else (case SetIRQ H (IRQ d) level w of
                        (r, w') \<Rightarrow> (r, (d\<lparr>irqHigh := level\<rparr>, w'))))"

definition resetLocked :: "'a virtio_dev_scheme \<Rightarrow> 'a virtio_dev_scheme" where
  "resetLocked d = d\<lparr>deviceFeatureSel := 0, driverFeatureSel := 0, driverFeatures := 0,
     queueSel := 0, status := 0, interruptStatus := 0, irqHigh := False,
     configGeneration := configGeneration d + 1, queues := map (\<lambda>_. zero_queue) (queues d)\<rparr>"

text \<open>The registers every device answers in the same way.\<close>

definition raise_vring :: "'w host \<Rightarrow> ('a virtio_dev_scheme \<times> 'w, unit) op" where
  "raise_vring H s = (case s of (d, w) \<Rightarrow>
     updateIRQLocked H (d\<lparr>interruptStatus := interruptStatus d OR intVring\<rparr>, w))"

definition ack_interrupt :: "'w host \<Rightarrow> u64 \<Rightarrow> ('a virtio_dev_scheme \<times> 'w, unit) op" where
  "ack_interrupt H val s = (case s of (d, w) \<Rightarrow>
     updateIRQLocked H (d\<lparr>interruptStatus := interruptStatus d AND NOT (ucast val)\<rparr>, w))"

section \<open>Snapshots\<close>

record QueueState =
  qs_Size :: u16
  qs_Ready :: bool
  qs_DescAddr :: u64
  qs_AvailAddr :: u64
  qs_UsedAddr :: u64
  qs_LastAvailIdx :: u16
  qs_UsedIdx :: u16
  qs_NoNotify :: bool

record BalloonPageWord =
  pw_Index :: u64
  pw_Bits :: u64

record MMIOState =
  ms_DeviceFeatureSel :: u32
  ms_DriverFeatureSel :: u32
  ms_DriverFeatures :: u64
  ms_QueueSel :: u32
  ms_Status :: u32
  ms_ConfigGeneration :: u32
  ms_Queues :: "QueueState list"
  ms_NumPages :: u32
  ms_ActualPages :: u32
  ms_InflatedPageWords :: "BalloonPageWord list"
  ms_InflatedPages :: "u64 list"

definition snapshotQueue :: "queue \<Rightarrow> QueueState" where
  "snapshotQueue q = \<lparr>qs_Size = q_size q, qs_Ready = q_ready q, qs_DescAddr = descAddr q,
     qs_AvailAddr = availAddr q, qs_UsedAddr = usedAddr q, qs_LastAvailIdx = lastAvailIdx q,
     qs_UsedIdx = usedIdx q, qs_NoNotify = noNotify q\<rparr>"

definition snapshotQueues :: "queue list \<Rightarrow> QueueState list" where
  "snapshotQueues qs = map snapshotQueue qs"

definition restoreQueue :: "queue \<Rightarrow> QueueState \<Rightarrow> bool \<Rightarrow> queue" where
  "restoreQueue q st mem =
     (let q1 = clearCache (q\<lparr>q_size := qs_Size st, q_ready := qs_Ready st, descAddr := qs_DescAddr st,
            availAddr := qs_AvailAddr st, usedAddr := qs_UsedAddr st,
            lastAvailIdx := qs_LastAvailIdx st, usedIdx := qs_UsedIdx st, noNotify := qs_NoNotify st\<rparr>)
      in if \<not> q_ready q1 \<or> q_size q1 = 0 \<or> \<not> mem then q1\<lparr>lastAvailIdx := 0, usedIdx := 0\<rparr> else q1)"

fun restoreQueues :: "queue list \<Rightarrow> QueueState list \<Rightarrow> bool \<Rightarrow> queue list" where
  "restoreQueues [] sts mem = []"
| "restoreQueues (q # qs) [] mem = zero_queue # restoreQueues qs [] mem"
| "restoreQueues (q # qs) (st # sts) mem = restoreQueue q st mem # restoreQueues qs sts mem"

text \<open>The fields every device snapshots; the balloon adds its own.\<close>

definition mmio_snapshot :: "'a virtio_dev_scheme \<Rightarrow> MMIOState" where
  "mmio_snapshot d = \<lparr>ms_DeviceFeatureSel = deviceFeatureSel d, ms_DriverFeatureSel = driverFeatureSel d,
     ms_DriverFeatures = driverFeatures d, ms_QueueSel = queueSel d, ms_Status = status d,
     ms_ConfigGeneration = configGeneration d, ms_Queues = snapshotQueues (queues d),
     ms_NumPages = 0, ms_ActualPages = 0, ms_InflatedPageWords = [], ms_InflatedPages = []\<rparr>"

definition mmio_restore :: "MMIOState \<Rightarrow> 'a virtio_dev_scheme \<Rightarrow> 'a virtio_dev_scheme" where
  "mmio_restore st d = d\<lparr>deviceFeatureSel := ms_DeviceFeatureSel st,
     driverFeatureSel := ms_DriverFeatureSel st, driverFeatures := ms_DriverFeatures st,
     queueSel := ms_QueueSel st, status := ms_Status st, interruptStatus := 0, irqHigh := False,
     configGeneration := ms_ConfigGeneration st,
     queues := restoreQueues (queues d) (ms_Queues st) (mem_attached d)\<rparr>"

section \<open>Register values\<close>

text \<open>A queue address is written as two halves, in either order.\<close>

lemma addr_half_both:
  "addr_half (addr_half a (ucast v) True) (ucast (drop_bit 32 v)) False = v"
  "addr_half (addr_half a (ucast (drop_bit 32 v)) False) (ucast v) True = v"
proof -
  have low: "(0xffffffff :: u64) = mask 32" by (simp add: mask_numeral)
  show "addr_half (addr_half a (ucast v) True) (ucast (drop_bit 32 v)) False = v"
    unfolding addr_half_def low by (rule bit_word_eqI) (auto simp: bit_simps)
  show "addr_half (addr_half a (ucast (drop_bit 32 v)) False) (ucast v) True = v"
    unfolding addr_half_def low by (rule bit_word_eqI) (auto simp: bit_simps)
qed

text \<open>The byte loop of \<^verbatim>\<open>readConfigValue\<close> and its fixed sizes read the same number.\<close>

lemma foldr_bytes:
  assumes "length bs \<le> 8"
  shows "unat (foldr (\<lambda>b out. push_bit 8 out OR ucast b) bs (0 :: u64)) = le_nat bs"
  using assms
proof (induction bs)
  case (Cons b bs)
  let ?r = "foldr (\<lambda>b out. push_bit 8 out OR ucast b) bs (0 :: u64)"
  have IH: "unat ?r = le_nat bs" using Cons by simp
  have "push_bit 8 ?r AND (ucast b :: u64) = 0"
    by (rule bit_word_eqI) (auto simp: bit_simps dest: bit_imp_le_length)
  then have "push_bit 8 ?r OR ucast b = push_bit 8 ?r + (ucast b :: u64)"
    by (simp add: disjunctive_add bit_eq_iff bit_simps)
  moreover have "le_nat bs < 256 ^ length bs" by (rule le_nat_bound)
  moreover have "256 ^ length bs \<le> (256 :: nat) ^ 7" using Cons.prems by (intro power_increasing) auto
  moreover have "unat b < 256" using unat_lt2p [of b] by simp
  ultimately show ?case using IH
    by (simp add: push_bit_eq_mult unat_word_ariths unsigned_ucast_eq take_bit_eq_mod)
qed simp

lemma readConfigValue_le:
  assumes "sz \<le> length buf" and "sz \<le> 8"
  shows "\<exists>v. readConfigValue buf sz = Inr v \<and> unat v = le_nat (take sz buf)"
proof -
  have bound: "le_nat (take sz buf) < 256 ^ sz"
    using le_nat_bound [of "take sz buf"] assms by simp
  consider "sz = 1" | "sz = 2" | "sz = 4" | "sz = 8" | "sz \<notin> {1, 2, 4, 8}" by blast
  then show ?thesis
  proof cases
    case 1
    with assms show ?thesis
      by (cases buf) (auto simp: readConfigValue_def unsigned_ucast_eq take_bit_eq_mod
          intro!: mod_less order.strict_trans2 [OF unat_lt2p])
  next
    case 2
    with assms bound show ?thesis
      by (simp add: readConfigValue_def le16_def unsigned_ucast_eq unat_of_nat take_bit_eq_mod)
  next
    case 3
    with assms bound show ?thesis
      by (simp add: readConfigValue_def le32_def unsigned_ucast_eq unat_of_nat take_bit_eq_mod)
  next
    case 4
    with assms bound show ?thesis
      by (simp add: readConfigValue_def le64_def unat_of_nat take_bit_eq_mod)
  next
    case 5
    with assms show ?thesis by (simp add: readConfigValue_def foldr_bytes)
  qed
qed

text \<open>Alignment to a power of two, where the result is representable.\<close>

lemma alignVirtio_nat:
  assumes "k < 64" and "unat val + 2 ^ k \<le> 2 ^ 64"
  shows "unat (alignVirtio val (2 ^ k)) = (unat val + 2 ^ k - 1) div 2 ^ k * 2 ^ k"
proof -
  have "(2 :: nat) ^ k < 2 ^ 64" using assms(1) by (rule power_strict_increasing) simp
  then have p: "unat (2 ^ k :: u64) = 2 ^ k"
    using unat_of_nat [of "2 ^ k", where 'a = 64] by (simp add: take_bit_eq_mod)
  have m: "(2 ^ k - 1 :: u64) = mask k" by (simp add: mask_eq_exp_minus_1)
  obtain n where n: "(2 :: nat) ^ k = Suc n" by (metis gr0_implies_Suc zero_less_numeral zero_less_power)
  have "(2 ^ k :: u64) = of_nat (Suc n)" by (simp flip: n)
  then have "val + 2 ^ k - 1 = of_nat (unat val + n)" by simp
  then have sum: "unat (val + 2 ^ k - 1) = unat val + 2 ^ k - 1"
    using assms(2) by (simp only: unat_of_nat take_bit_eq_mod n) simp
  have "alignVirtio val (2 ^ k) = (val + 2 ^ k - 1) AND NOT (mask k)"
    using assms(1) p by (auto simp: alignVirtio_def m)
  also have "\<dots> = push_bit k (drop_bit k (val + 2 ^ k - 1))"
    by (rule bit_word_eqI) (auto simp: bit_simps)
  finally have "unat (alignVirtio val (2 ^ k)) =
      unat (val + 2 ^ k - 1) div 2 ^ k * 2 ^ k mod 2 ^ 64"
    by (simp add: push_bit_eq_mult drop_bit_eq_div unat_word_ariths unat_div_distrib p mod_simps)
  moreover have "unat (val + 2 ^ k - 1) div 2 ^ k * 2 ^ k < 2 ^ 64"
    by (rule order.strict_trans1 [OF div_times_less_eq_dividend])
      (use unat_lt2p [of "val + 2 ^ k - 1"] in simp)
  ultimately show ?thesis by (simp add: sum)
qed

section \<open>The interrupt line\<close>

text \<open>
  The device's record of its interrupt line agrees with its interrupt status: the line is
  high exactly while an interrupt is pending.
\<close>

definition irq_mirror :: "'a virtio_dev_scheme \<Rightarrow> bool" where
  "irq_mirror d \<longleftrightarrow> (irq_attached d \<longrightarrow> irqHigh d = (interruptStatus d \<noteq> 0))"

lemma updateIRQLocked_dev:
  assumes "updateIRQLocked H (d, w) = (r, (d', w'))"
  shows "d' = d\<lparr>irqHigh := (if irq_attached d then interruptStatus d \<noteq> 0 else irqHigh d)\<rparr>"
  using assms by (auto simp: updateIRQLocked_def Let_def split: if_splits prod.splits)

lemma updateIRQLocked_mirror:
  "updateIRQLocked H (d, w) = (r, (d', w')) \<Longrightarrow> irq_mirror d'"
  by (drule updateIRQLocked_dev) (simp add: irq_mirror_def)

lemma updateIRQLocked_world:
  "updateIRQLocked H (d, w) = (r, (d', w')) \<Longrightarrow>
     w' = w \<and> r = Inr () \<or> SetIRQ H (IRQ d) (interruptStatus d \<noteq> 0) w = (r, w')"
  by (auto simp: updateIRQLocked_def Let_def split: if_splits prod.splits)

lemmas irq_ops = raise_vring_def ack_interrupt_def

text \<open>A reset lowers the recorded line without telling the interrupt controller.\<close>

lemma resetLocked_mirror [simp]: "irq_mirror (resetLocked d)"
  by (simp add: irq_mirror_def resetLocked_def)

section \<open>Snapshot and restore\<close>

text \<open>
  What a restored queue is: the snapshot, with the memory cache dropped and the ring
  positions cleared for a queue the device cannot serve.
\<close>

definition servable :: "bool \<Rightarrow> queue \<Rightarrow> bool" where
  "servable mem q \<longleftrightarrow> q_ready q \<and> q_size q \<noteq> 0 \<and> mem"

definition settled :: "bool \<Rightarrow> queue \<Rightarrow> queue" where
  "settled mem q = (if servable mem q then clearCache q else (clearCache q)\<lparr>lastAvailIdx := 0, usedIdx := 0\<rparr>)"

lemma restore_snapshotQueue: "restoreQueue q' (snapshotQueue q) mem = settled mem q"
  by (simp add: restoreQueue_def snapshotQueue_def settled_def servable_def clearCache_def Let_def)

lemma restore_snapshotQueues:
  "length qs' = length qs \<Longrightarrow> restoreQueues qs' (snapshotQueues qs) mem = map (settled mem) qs"
  by (induction qs' qs rule: list_induct2) (auto simp: snapshotQueues_def restore_snapshotQueue)

lemma length_restoreQueues [simp]: "length (restoreQueues qs sts mem) = length qs"
  by (induction qs sts mem rule: restoreQueues.induct) auto

lemma mmio_restore_snapshot:
  assumes "length (queues d') = length (queues d)"
  shows "mmio_restore (mmio_snapshot d) d' = d'\<lparr>deviceFeatureSel := deviceFeatureSel d,
    driverFeatureSel := driverFeatureSel d, driverFeatures := driverFeatures d,
    queueSel := queueSel d, status := status d, interruptStatus := 0, irqHigh := False,
    configGeneration := configGeneration d,
    queues := map (settled (mem_attached d')) (queues d)\<rparr>"
  using restore_snapshotQueues [OF assms]
  by (simp add: mmio_restore_def mmio_snapshot_def)

section \<open>Reaching a queue of the device\<close>

lemma upd_queue_sel [simp]:
  "i < length (queues d) \<Longrightarrow> queues (upd_queue i f d) ! i = f (queues d ! i)"
  "j \<noteq> i \<Longrightarrow> queues (upd_queue i f d) ! j = queues d ! j"
  "length (queues (upd_queue i f d)) = length (queues d)"
  by (simp_all add: upd_queue_def)

lemma upd_queue_others [simp]:
  "Base (upd_queue i f d) = Base d" "interruptStatus (upd_queue i f d) = interruptStatus d"
  "irqHigh (upd_queue i f d) = irqHigh d" "irq_attached (upd_queue i f d) = irq_attached d"
  "mem_attached (upd_queue i f d) = mem_attached d" "IRQ (upd_queue i f d) = IRQ d"
  "status (upd_queue i f d) = status d" "irq_mirror (upd_queue i f d) = irq_mirror d"
  by (simp_all add: upd_queue_def irq_mirror_def)

lemma on_selected_others [simp]:
  "length (queues (on_selected f d)) = length (queues d)"
  "Base (on_selected f d) = Base d" "interruptStatus (on_selected f d) = interruptStatus d"
  "irqHigh (on_selected f d) = irqHigh d" "irq_attached (on_selected f d) = irq_attached d"
  "mem_attached (on_selected f d) = mem_attached d" "IRQ (on_selected f d) = IRQ d"
  "irq_mirror (on_selected f d) = irq_mirror d"
  by (simp_all add: on_selected_def split: option.split)

lemma set_driver_features_others [simp]:
  "queues (set_driver_features v d) = queues d" "irq_mirror (set_driver_features v d) = irq_mirror d"
  "interruptStatus (set_driver_features v d) = interruptStatus d"
  "irqHigh (set_driver_features v d) = irqHigh d" "irq_attached (set_driver_features v d) = irq_attached d"
  by (simp_all add: set_driver_features_def irq_mirror_def)

section \<open>The invariant of a device\<close>

text \<open>The array of queues keeps its length, and the recorded line agrees with the status.\<close>

definition dev_inv :: "nat \<Rightarrow> 'a virtio_dev_scheme \<Rightarrow> bool" where
  "dev_inv n d \<longleftrightarrow> length (queues d) = n \<and> irq_mirror d"

lemma dev_inv_simps [simp]:
  "dev_inv n (d\<lparr>deviceFeatureSel := x\<rparr>) = dev_inv n d"
  "dev_inv n (d\<lparr>driverFeatureSel := x\<rparr>) = dev_inv n d"
  "dev_inv n (d\<lparr>queueSel := x\<rparr>) = dev_inv n d"
  "dev_inv n (d\<lparr>status := x\<rparr>) = dev_inv n d"
  "dev_inv n (d\<lparr>configGeneration := y\<rparr>) = dev_inv n d"
  "dev_inv n (set_driver_features v d) = dev_inv n d"
  "dev_inv n (on_selected f d) = dev_inv n d"
  "dev_inv n (upd_queue i f d) = dev_inv n d"
  by (simp_all add: dev_inv_def irq_mirror_def)

lemma dev_inv_reset [simp]: "length (queues d) = n \<Longrightarrow> dev_inv n (resetLocked d)"
  by (simp add: dev_inv_def resetLocked_def irq_mirror_def)

lemma dev_inv_length: "dev_inv n d \<Longrightarrow> length (queues d) = n"
  by (simp add: dev_inv_def)

lemma dev_inv_update:
  assumes "updateIRQLocked H (d, w) = (r, (d', w'))" and "length (queues d) = n"
  shows "dev_inv n d'"
  using updateIRQLocked_dev [OF assms(1)] updateIRQLocked_mirror [OF assms(1)] assms(2)
  by (simp add: dev_inv_def)

lemma dev_inv_irq:
  "raise_vring H (d, w) = (r, (d', w')) \<Longrightarrow> length (queues d) = n \<Longrightarrow> dev_inv n d'"
  "ack_interrupt H v (d, w) = (r, (d', w')) \<Longrightarrow> length (queues d) = n \<Longrightarrow> dev_inv n d'"
  by (auto simp: irq_ops dest!: dev_inv_update)

lemma dev_inv_restore [simp]: "dev_inv n (mmio_restore st d) = (length (queues d) = n)"
  by (simp add: dev_inv_def mmio_restore_def irq_mirror_def)

section \<open>The life of a device\<close>

text \<open>
  A device is created, then sees register writes with any address and value, restores of any
  snapshot, and arbitrary changes of the world (the guest running) in between.
\<close>

inductive mmio_reach ::
    "('d \<Rightarrow> bool) \<Rightarrow> (u64 \<Rightarrow> nat \<Rightarrow> u64 \<Rightarrow> ('d \<times> 'w, unit) op) \<Rightarrow> (MMIOState \<Rightarrow> 'd \<Rightarrow> 'd) \<Rightarrow> 'd \<Rightarrow> 'w \<Rightarrow> bool"
  for fresh :: "'d \<Rightarrow> bool"
    and write_reg :: "u64 \<Rightarrow> nat \<Rightarrow> u64 \<Rightarrow> ('d \<times> 'w, unit) op"
    and restore :: "MMIOState \<Rightarrow> 'd \<Rightarrow> 'd" where
  Create: "fresh d \<Longrightarrow> mmio_reach fresh write_reg restore d w"
| Write_reg: "mmio_reach fresh write_reg restore d w \<Longrightarrow> write_reg addr sz val (d, w) = (r, (d', w')) \<Longrightarrow>
    mmio_reach fresh write_reg restore d' w'"
| Restore: "mmio_reach fresh write_reg restore d w \<Longrightarrow> mmio_reach fresh write_reg restore (restore st d) w"
| World: "mmio_reach fresh write_reg restore d w \<Longrightarrow> mmio_reach fresh write_reg restore d w'"

locale mmio_device =
  fixes fresh :: "'d \<Rightarrow> bool"
    and write_reg :: "u64 \<Rightarrow> nat \<Rightarrow> u64 \<Rightarrow> ('d \<times> 'w, unit) op"
    and restore :: "MMIOState \<Rightarrow> 'd \<Rightarrow> 'd"
    and inv :: "'d \<Rightarrow> bool"
  assumes fresh_inv: "fresh d \<Longrightarrow> inv d"
    and write_inv: "inv d \<Longrightarrow> write_reg addr sz val (d, w) = (r, (d', w')) \<Longrightarrow> inv d'"
    and restore_inv: "inv d \<Longrightarrow> inv (restore st d)"
begin

lemma reach_inv: "mmio_reach fresh write_reg restore d w \<Longrightarrow> inv d"
  by (induction rule: mmio_reach.induct) (auto intro: fresh_inv write_inv restore_inv)

end

section \<open>The window of a device\<close>

text \<open>Offsets of accesses above the first eight bytes of the address space do not wrap.\<close>

lemma window_offset:
  fixes addr base :: u64
  assumes "base \<le> addr" and "8 \<le> base" and "sz \<le> 8"
  shows "unat (addr - base + of_nat sz) = unat (addr - base) + sz"
proof -
  have "unat (addr - base) = unat addr - unat base" "8 \<le> unat base" "unat base \<le> unat addr"
    using assms(1,2) by (simp_all add: unat_sub word_le_nat_alt)
  then show ?thesis
    using assms(3) unat_lt2p [of addr] by (simp add: unat_word_ariths unat_of_nat take_bit_eq_mod)
qed

text \<open>
  A device claims an access exactly when every byte of it lies in the device's
  window, as long as the access does not run past the end of the address space. An access that
  does run past the end is claimed by every device: the sum wraps to a small number.
\<close>

lemma Contains_window:
  assumes "unat (Base d) + unat (Size d) < 2 ^ 64"
  shows "(unat addr + sz < 2 ^ 64 \<longrightarrow>
      Contains d addr sz = (unat (Base d) \<le> unat addr \<and> unat addr + sz \<le> unat (Base d) + unat (Size d))) \<and>
    (unat addr + sz = 2 ^ 64 \<and> sz < 2 ^ 63 \<and> unat (Base d) < 2 ^ 63 \<longrightarrow> Contains d addr sz)"
proof -
  have e: "unat (Base d + Size d) = unat (Base d) + unat (Size d)"
    using assms by (simp add: unat_word_ariths)
  have "unat (addr + of_nat sz) = (unat addr + sz) mod 2 ^ 64"
    by (simp add: unat_word_ariths unat_of_nat take_bit_eq_mod mod_simps)
  with e show ?thesis by (auto simp: Contains_def word_le_nat_alt)
qed

definition demo_window :: virtio_dev where
  "demo_window = \<lparr>Base = 0xd0000000, Size = 512, IRQ = 5, LegacyMMIO = False, mem_attached = False,
     irq_attached = False, deviceFeatureSel = 0, driverFeatureSel = 0, driverFeatures = 0, queueSel = 0,
     status = 0, interruptStatus = 0, irqHigh = False, configGeneration = 0, queues = []\<rparr>"

lemma Contains_window_witness:
  "Contains demo_window 0xd00001fc 4 \<and> \<not> Contains demo_window 0xd00001fe 4 \<and>
   Contains demo_window 0xfffffffffffffffc 4"
  using Contains_window [of demo_window "0xd00001fc" 4] Contains_window [of demo_window "0xd00001fe" 4]
    Contains_window [of demo_window "0xfffffffffffffffc" 4]
  by (simp add: demo_window_def)

end
