(* ===== verification/KvmMemory.thy ===== *)
theory KvmMemory
  imports GuestMemory
begin

text \<open>
  The memory of a KVM virtual machine on amd64
  (\<^verbatim>\<open>internal/hv/kvm/vm_linux_amd64.go\<close>, sizes from \<^verbatim>\<open>internal/amd64vm/boot.go\<close>): the
  low window and the region list, the translation of a guest address to a place in a host
  mapping, copying across regions, and the interrupt lines. Its well-formedness, that the
  boot-time mapping establishes it, and that it provides the \<open>guest_ram\<close> interface.
\<close>

section \<open>State\<close>

text \<open>A Go byte slice: \<open>sl_len\<close> bytes from index \<open>sl_off\<close> of host mapping number \<open>sl_arr\<close>.\<close>

record gslice =
  sl_arr :: nat
  sl_off :: nat
  sl_len :: nat

record memoryMapping =
  guestPhysAddr :: u64
  mapping_mem :: gslice
  ownsMapping :: bool

text \<open>
  \<open>irq_ioctl\<close> is the answer of the kernel to \<^verbatim>\<open>KVM_IRQ_LINE\<close>, a parameter of the model;
  \<open>irq_lines\<close> is the level each line was last set to.
\<close>

record kvm_vm =
  vm_arrays :: "nat \<Rightarrow> bytes"
  vm_mem :: gslice
  lowMemLimit :: u64
  vm_regions :: "memoryMapping list"
  irq_ioctl :: "u32 \<Rightarrow> bool \<Rightarrow> error option"
  irq_lines :: "u32 \<Rightarrow> bool"

section \<open>Address translation and copies\<close>

fun findRegion :: "memoryMapping list \<Rightarrow> u64 \<Rightarrow> (gslice \<times> u64) option" where
  "findRegion [] addr = None"
| "findRegion (region # rs) addr =
     (let start = guestPhysAddr region;
          stop = start + of_nat (sl_len (mapping_mem region))
      in if start \<le> addr \<and> addr < stop then Some (mapping_mem region, addr - start)
         else findRegion rs addr)"

definition findMemoryRegion :: "kvm_vm \<Rightarrow> u64 \<Rightarrow> (gslice \<times> u64) option" where
  "findMemoryRegion v addr =
     (if addr < lowMemLimit v then Some (vm_mem v, addr) else findRegion (vm_regions v) addr)"

text \<open>
  The copy loops. Each round copies at least one byte where the region found has a byte at
  the offset, so as many rounds as bytes are enough (\<open>copyFromGuest_total\<close> below); an
  offset past the slice is the slice-bounds panic of \<^verbatim>\<open>region[off:]\<close>.
\<close>

fun copyFromGuest :: "nat \<Rightarrow> kvm_vm \<Rightarrow> u64 \<Rightarrow> nat \<Rightarrow> error + bytes" where
  "copyFromGuest 0 v addr len = (if len = 0 then Inr [] else Inl Diverges)"
| "copyFromGuest (Suc fuel) v addr len =
     (if len = 0 then Inr []
      else case findMemoryRegion v addr of
        None \<Rightarrow> Inl Unmapped
      | Some (region, off) \<Rightarrow>
          if sl_len region < unat off then Inl Panic
          else let n = min len (sl_len region - unat off);
                   i = sl_off region + unat off
               in (case copyFromGuest fuel v (addr + of_nat n) (len - n) of
                     Inl e \<Rightarrow> Inl e
                   | Inr rest \<Rightarrow> Inr (slice (vm_arrays v (sl_arr region)) i (i + n) @ rest)))"

definition store_bytes :: "gslice \<Rightarrow> nat \<Rightarrow> bytes \<Rightarrow> kvm_vm \<Rightarrow> kvm_vm" where
  "store_bytes region off data v = v\<lparr>vm_arrays := (vm_arrays v)
     (sl_arr region := splice (vm_arrays v (sl_arr region)) (sl_off region + off) data)\<rparr>"

fun copyToGuest :: "nat \<Rightarrow> u64 \<Rightarrow> bytes \<Rightarrow> (kvm_vm, unit) op" where
  "copyToGuest 0 addr data v = (if data = [] then (Inr (), v) else (Inl Diverges, v))"
| "copyToGuest (Suc fuel) addr data v =
     (if data = [] then (Inr (), v)
      else case findMemoryRegion v addr of
        None \<Rightarrow> (Inl Unmapped, v)
      | Some (region, off) \<Rightarrow>
          if sl_len region < unat off then (Inl Panic, v)
          else let n = min (length data) (sl_len region - unat off)
               in copyToGuest fuel (addr + of_nat n) (drop n data)
                    (store_bytes region (unat off) (take n data) v))"

definition kvm_ReadIPA :: "u64 \<Rightarrow> nat \<Rightarrow> kvm_vm \<Rightarrow> error + bytes" where
  "kvm_ReadIPA addr sz v = (if sz = 0 then Inr [] else copyFromGuest sz v addr sz)"

definition kvm_WriteIPA :: "u64 \<Rightarrow> bytes \<Rightarrow> (kvm_vm, unit) op" where
  "kvm_WriteIPA addr data v =
     (if data = [] then (Inr (), v) else copyToGuest (length data) addr data v)"

definition kvm_SliceIPA :: "u64 \<Rightarrow> nat \<Rightarrow> kvm_vm \<Rightarrow> error + gslice" where
  "kvm_SliceIPA addr sz v =
     (if sz = 0 then Inr \<lparr>sl_arr = 0, sl_off = 0, sl_len = 0\<rparr>
      else case findMemoryRegion v addr of
        None \<Rightarrow> Inl Unmapped
      | Some (region, off) \<Rightarrow>
          if of_nat (sl_len region) - off < (of_nat sz :: u64) then Inl Unmapped
          else Inr \<lparr>sl_arr = sl_arr region, sl_off = sl_off region + unat off, sl_len = sz\<rparr>)"

definition kvmNrInterrupts :: u32 where "kvmNrInterrupts = 256"

definition kvm_SetIRQ :: "u32 \<Rightarrow> bool \<Rightarrow> (kvm_vm, unit) op" where
  "kvm_SetIRQ line level v =
     (if kvmNrInterrupts \<le> line then (Inl IRQOutOfRange, v)
      else case irq_ioctl v line level of
        Some e \<Rightarrow> (Inl e, v)
      | None \<Rightarrow> (Inr (), v\<lparr>irq_lines := (irq_lines v)(line := level)\<rparr>))"

definition kvm_host :: "kvm_vm host" where
  "kvm_host = \<lparr>ReadIPA = kvm_ReadIPA, WriteIPA = kvm_WriteIPA, SetIRQ = kvm_SetIRQ\<rparr>"

section \<open>Mapping the memory at boot\<close>

definition DefaultMemorySize :: u64 where "DefaultMemorySize = 536870912"
definition LowMemorySize :: u64 where "LowMemorySize = 3221225472"
definition HighMemoryBase :: u64 where "HighMemoryBase = 4294967296"

definition MemorySizeBytes :: "u64 \<Rightarrow> u64" where
  "MemorySizeBytes memoryMB = (if memoryMB = 0 then DefaultMemorySize else push_bit 20 memoryMB)"

definition LowMemorySizeBytes :: "u64 \<Rightarrow> u64" where
  "LowMemorySizeBytes memoryMB =
     (if LowMemorySize < MemorySizeBytes memoryMB then LowMemorySize
      else MemorySizeBytes memoryMB)"

definition HighMemorySizeBytes :: "u64 \<Rightarrow> u64" where
  "HighMemorySizeBytes memoryMB =
     (if MemorySizeBytes memoryMB \<le> LowMemorySize then 0
      else MemorySizeBytes memoryMB - LowMemorySize)"

text \<open>\<open>set_region slot\<close> is the answer of the kernel to \<^verbatim>\<open>KVM_SET_USER_MEMORY_REGION\<close>.\<close>

definition mapAMD64GuestMemoryBytes ::
    "(u32 \<Rightarrow> error option) \<Rightarrow> u64 \<Rightarrow> gslice \<Rightarrow> (kvm_vm, unit) op" where
  "mapAMD64GuestMemoryBytes set_region memoryMB mem v =
     (let lowSize = LowMemorySizeBytes memoryMB;
          highSize = HighMemorySizeBytes memoryMB;
          totalSize = lowSize + highSize
      in if of_nat (sl_len mem) \<noteq> totalSize then (Inl InvalidSize, v)
         else case set_region 0 of
           Some e \<Rightarrow> (Inl e, v)
         | None \<Rightarrow>
             let v1 = v\<lparr>vm_mem := mem, lowMemLimit := lowSize\<rparr>
             in if highSize = 0 then (Inr (), v1)
                else (case set_region 1 of
                  Some e \<Rightarrow>
                    (Inl e, v1\<lparr>vm_mem := \<lparr>sl_arr = 0, sl_off = 0, sl_len = 0\<rparr>, lowMemLimit := 0\<rparr>)
                | None \<Rightarrow> (Inr (), v1\<lparr>vm_regions := vm_regions v1 @
                    [\<lparr>guestPhysAddr = HighMemoryBase,
                      mapping_mem = \<lparr>sl_arr = sl_arr mem, sl_off = sl_off mem + unat lowSize,
                                     sl_len = unat highSize\<rparr>,
                      ownsMapping = False\<rparr>]\<rparr>)))"

definition MapAnonymousMemorySlot ::
    "error option \<Rightarrow> (u32 \<Rightarrow> error option) \<Rightarrow> u32 \<Rightarrow> nat \<Rightarrow> u64 \<Rightarrow> nat \<Rightarrow> (kvm_vm, gslice) op" where
  "MapAnonymousMemorySlot mmap set_region slot sz gpa fresh v =
     (case mmap of
        Some e \<Rightarrow> (Inl e, v)
      | None \<Rightarrow>
          if sz = 0 then (Inl Panic, v)
          else (case set_region slot of
            Some e \<Rightarrow> (Inl e, v)
          | None \<Rightarrow>
              let mem = \<lparr>sl_arr = fresh, sl_off = 0, sl_len = sz\<rparr>;
                  v1 = v\<lparr>vm_arrays := (vm_arrays v)(fresh := replicate sz 0)\<rparr>
              in (Inr mem,
                  if slot = 0 then v1\<lparr>vm_mem := mem, lowMemLimit := of_nat sz\<rparr>
                  else v1\<lparr>vm_regions := vm_regions v1 @
                    [\<lparr>guestPhysAddr = gpa, mapping_mem = mem, ownsMapping = True\<rparr>]\<rparr>)))"

section \<open>Well-formed memories\<close>

text \<open>
  The windows of a machine: the guest addresses below \<open>lowMemLimit\<close>, then the regions, each
  with the slice of a host mapping behind it. In a well-formed machine every window lies in
  its mapping and below \<open>2 ^ 64\<close>, and two windows share neither guest addresses nor host bytes.
\<close>

definition windows :: "kvm_vm \<Rightarrow> (u64 \<times> gslice) list" where
  "windows v = (0, (vm_mem v)\<lparr>sl_len := unat (lowMemLimit v)\<rparr>) #
     map (\<lambda>r. (guestPhysAddr r, mapping_mem r)) (vm_regions v)"

definition win_ok :: "(nat \<Rightarrow> bytes) \<Rightarrow> u64 \<times> gslice \<Rightarrow> bool" where
  "win_ok A w = (case w of (g, s) \<Rightarrow>
     sl_off s + sl_len s \<le> length (A (sl_arr s)) \<and> unat g + sl_len s < 2 ^ 64)"

definition win_disj :: "u64 \<times> gslice \<Rightarrow> u64 \<times> gslice \<Rightarrow> bool" where
  "win_disj w u = (case w of (g, s) \<Rightarrow> case u of (h, t) \<Rightarrow>
     (unat g + sl_len s \<le> unat h \<or> unat h + sl_len t \<le> unat g) \<and>
     (sl_arr s \<noteq> sl_arr t \<or> sl_off s + sl_len s \<le> sl_off t \<or> sl_off t + sl_len t \<le> sl_off s))"

definition vm_ok :: "kvm_vm \<Rightarrow> bool" where
  "vm_ok v \<longleftrightarrow> unat (lowMemLimit v) \<le> sl_len (vm_mem v) \<and>
     sl_off (vm_mem v) + sl_len (vm_mem v) \<le> length (vm_arrays v (sl_arr (vm_mem v))) \<and>
     list_all (win_ok (vm_arrays v)) (windows v) \<and> sorted_wrt win_disj (windows v)"

definition in_win :: "u64 \<Rightarrow> u64 \<times> gslice \<Rightarrow> bool" where
  "in_win a w = (case w of (g, s) \<Rightarrow> unat g \<le> unat a \<and> unat a < unat g + sl_len s)"

text \<open>The contents of guest memory, and the ranges inside one window.\<close>

definition place :: "kvm_vm \<Rightarrow> u64 \<Rightarrow> (nat \<times> nat) option" where
  "place v a = map_option (\<lambda>(s, off). (sl_arr s, sl_off s + unat off)) (findMemoryRegion v a)"

definition vm_view :: "kvm_vm \<Rightarrow> u64 \<Rightarrow> u8 option" where
  "vm_view v a = map_option (\<lambda>(r, i). vm_arrays v r ! i) (place v a)"

definition vm_valid :: "kvm_vm \<Rightarrow> u64 \<Rightarrow> nat \<Rightarrow> bool" where
  "vm_valid v a n \<longleftrightarrow> n = 0 \<or>
     (\<exists>w \<in> set (windows v). unat (fst w) \<le> unat a \<and> unat a + n \<le> unat (fst w) + sl_len (snd w))"

subsection \<open>Translation finds the window\<close>

lemma win_disj_sym: "win_disj w u \<longleftrightarrow> win_disj u w"
  by (auto simp: win_disj_def split: prod.splits)

lemma in_win_disj: "in_win a w \<Longrightarrow> win_disj w u \<Longrightarrow> \<not> in_win a u"
  by (auto simp: in_win_def win_disj_def split: prod.splits)

lemma findRegion_window:
  assumes "sorted_wrt win_disj (map (\<lambda>r. (guestPhysAddr r, mapping_mem r)) rs)"
    and "list_all (win_ok A) (map (\<lambda>r. (guestPhysAddr r, mapping_mem r)) rs)"
    and "r \<in> set rs" and "in_win a (guestPhysAddr r, mapping_mem r)"
  shows "findRegion rs a = Some (mapping_mem r, a - guestPhysAddr r)"
  using assms
proof (induction rs)
  case (Cons x rs)
  let ?w = "\<lambda>r. (guestPhysAddr r, mapping_mem r)"
  have stop: "unat (guestPhysAddr x + of_nat (sl_len (mapping_mem x))) =
      unat (guestPhysAddr x) + sl_len (mapping_mem x)"
    using Cons.prems(2) by (simp add: win_ok_def unat_word_ariths unat_of_nat take_bit_eq_mod)
  have hit: "(guestPhysAddr x \<le> a \<and> a < guestPhysAddr x + of_nat (sl_len (mapping_mem x)))
      \<longleftrightarrow> in_win a (?w x)"
    using stop by (simp add: in_win_def word_le_nat_alt word_less_nat_alt)
  show ?case
  proof (cases "r = x")
    case True
    with Cons.prems(4) hit show ?thesis by (simp add: Let_def)
  next
    case False
    with Cons.prems(3) have r: "r \<in> set rs" by simp
    with Cons.prems(1) have "win_disj (?w x) (?w r)" by simp
    with Cons.prems(4) have "\<not> in_win a (?w x)" using in_win_disj win_disj_sym by blast
    with Cons r hit show ?thesis by (auto simp: Let_def)
  qed
qed simp

lemma findRegion_Some:
  assumes "findRegion rs a = Some (s, off)"
    and "list_all (win_ok A) (map (\<lambda>r. (guestPhysAddr r, mapping_mem r)) rs)"
  obtains r where "r \<in> set rs" "in_win a (guestPhysAddr r, mapping_mem r)" "s = mapping_mem r"
    "off = a - guestPhysAddr r"
  using assms
proof (induction rs arbitrary: thesis)
  case (Cons x rs)
  have stop: "unat (guestPhysAddr x + of_nat (sl_len (mapping_mem x))) =
      unat (guestPhysAddr x) + sl_len (mapping_mem x)"
    using Cons.prems(3) by (simp add: win_ok_def unat_word_ariths unat_of_nat take_bit_eq_mod)
  show ?case
  proof (cases "guestPhysAddr x \<le> a \<and> a < guestPhysAddr x + of_nat (sl_len (mapping_mem x))")
    case True
    with stop have "in_win a (guestPhysAddr x, mapping_mem x)"
      by (simp add: in_win_def word_le_nat_alt word_less_nat_alt)
    with True Cons.prems(2) show ?thesis by (intro Cons.prems(1) [of x]) (auto simp: Let_def)
  next
    case False
    then have "findRegion rs a = Some (s, off)" using Cons.prems(2) by (auto simp: Let_def)
    moreover have "list_all (win_ok A) (map (\<lambda>r. (guestPhysAddr r, mapping_mem r)) rs)"
      using Cons.prems(3) by simp
    ultimately show ?thesis using Cons.IH Cons.prems(1) by (metis list.set_intros(2))
  qed
qed simp

lemma findMemoryRegion_window:
  assumes ok: "vm_ok v" and w: "(g, s) \<in> set (windows v)" and a: "in_win a (g, s)"
  obtains s' where "findMemoryRegion v a = Some (s', a - g)" "sl_arr s' = sl_arr s"
    "sl_off s' = sl_off s" "sl_len s \<le> sl_len s'"
    "sl_off s' + sl_len s' \<le> length (vm_arrays v (sl_arr s'))"
proof -
  let ?low = "(0, (vm_mem v)\<lparr>sl_len := unat (lowMemLimit v)\<rparr>) :: u64 \<times> gslice"
  have lowhit: "a < lowMemLimit v \<longleftrightarrow> in_win a ?low"
    by (simp add: in_win_def word_less_nat_alt)
  consider (low) "(g, s) = ?low" | (reg) r where "r \<in> set (vm_regions v)"
      "g = guestPhysAddr r" "s = mapping_mem r"
    using w by (auto simp: windows_def)
  then show ?thesis
  proof cases
    case low
    with a lowhit have "a < lowMemLimit v" by simp
    with low ok show ?thesis by (intro that [of "vm_mem v"]) (auto simp: findMemoryRegion_def vm_ok_def)
  next
    case reg
    have "win_disj ?low (g, s)" using ok reg by (auto simp: vm_ok_def windows_def)
    then have "\<not> a < lowMemLimit v" using a lowhit in_win_disj by blast
    moreover have "findRegion (vm_regions v) a = Some (s, a - g)"
      using ok reg a findRegion_window [of "vm_regions v" "vm_arrays v" r a]
      by (auto simp: vm_ok_def windows_def)
    moreover have "win_ok (vm_arrays v) (g, s)"
      using ok reg by (auto simp: vm_ok_def windows_def list_all_iff)
    ultimately show ?thesis
      by (intro that [of s]) (auto simp: findMemoryRegion_def win_ok_def)
  qed
qed

lemma findMemoryRegion_Some:
  assumes ok: "vm_ok v" and "findMemoryRegion v a = Some (s', off)"
  obtains g s where "(g, s) \<in> set (windows v)" "in_win a (g, s)" "off = a - g"
    "sl_arr s' = sl_arr s" "sl_off s' = sl_off s" "sl_len s \<le> sl_len s'"
proof (cases "a < lowMemLimit v")
  case True
  let ?low = "(0, (vm_mem v)\<lparr>sl_len := unat (lowMemLimit v)\<rparr>) :: u64 \<times> gslice"
  have "in_win a ?low" using True by (simp add: in_win_def word_less_nat_alt)
  with True assms show ?thesis
    by (intro that [of 0 "snd ?low"]) (auto simp: findMemoryRegion_def windows_def vm_ok_def)
next
  case False
  with assms have "findRegion (vm_regions v) a = Some (s', off)" by (simp add: findMemoryRegion_def)
  then obtain r where "r \<in> set (vm_regions v)" "in_win a (guestPhysAddr r, mapping_mem r)"
      "s' = mapping_mem r" "off = a - guestPhysAddr r"
    using ok by (elim findRegion_Some [where A = "vm_arrays v"]) (auto simp: vm_ok_def windows_def)
  then show ?thesis by (intro that) (auto simp: windows_def)
qed

lemma in_win_off: "in_win a (g, s) \<Longrightarrow> unat (a - g) = unat a - unat g"
  by (simp add: in_win_def unat_sub word_le_nat_alt)

lemma place_window:
  assumes "vm_ok v" and "(g, s) \<in> set (windows v)" and "in_win a (g, s)"
  shows "place v a = Some (sl_arr s, sl_off s + (unat a - unat g))"
proof -
  obtain s' where "findMemoryRegion v a = Some (s', a - g)" "sl_arr s' = sl_arr s"
      "sl_off s' = sl_off s"
    using findMemoryRegion_window [OF assms] by blast
  with in_win_off [OF assms(3)] show ?thesis by (simp add: place_def)
qed

lemma placeE:
  assumes "vm_ok v" and "place v a = Some (r, i)"
  obtains g s where "(g, s) \<in> set (windows v)" "in_win a (g, s)"
    "r = sl_arr s" "i = sl_off s + (unat a - unat g)"
proof -
  obtain s' off where f: "findMemoryRegion v a = Some (s', off)" "r = sl_arr s'"
      "i = sl_off s' + unat off"
    using assms(2) by (auto simp: place_def)
  from findMemoryRegion_Some [OF assms(1) f(1)] obtain g s where
      "(g, s) \<in> set (windows v)" "in_win a (g, s)" "off = a - g"
      "sl_arr s' = sl_arr s" "sl_off s' = sl_off s" by metis
  with f show ?thesis by (intro that [of g s]) (auto simp: in_win_off)
qed

lemma windows_disj:
  assumes "vm_ok v" and "w \<in> set (windows v)" and "u \<in> set (windows v)" and "w \<noteq> u"
  shows "win_disj w u"
  using assms by (auto simp: vm_ok_def sorted_wrt_iff_nth_less in_set_conv_nth)
    (metis linorder_neqE_nat win_disj_sym)

text \<open>Two guest addresses never share a host byte.\<close>

lemma place_inj:
  assumes "vm_ok v" and "place v a = Some p" and "place v b = Some p"
  shows "a = b"
proof -
  obtain r i where p: "p = (r, i)" by (cases p)
  obtain g s where a: "(g, s) \<in> set (windows v)" "in_win a (g, s)"
      "r = sl_arr s" "i = sl_off s + (unat a - unat g)"
    using placeE [OF assms(1)] assms(2) p by metis
  obtain h t where b: "(h, t) \<in> set (windows v)" "in_win b (h, t)"
      "r = sl_arr t" "i = sl_off t + (unat b - unat h)"
    using placeE [OF assms(1)] assms(3) p by metis
  have "(g, s) = (h, t)"
  proof (rule ccontr)
    assume "(g, s) \<noteq> (h, t)"
    with a(1) b(1) have "win_disj (g, s) (h, t)" using windows_disj [OF assms(1)] by blast
    with a b show False by (auto simp: win_disj_def in_win_def)
  qed
  with a b have "unat a = unat b" by (auto simp: in_win_def)
  then show ?thesis by (simp add: word_unat_eq_iff)
qed

subsection \<open>Copies inside one window\<close>

lemma windows_ok: "vm_ok v \<Longrightarrow> w \<in> set (windows v) \<Longrightarrow> win_ok (vm_arrays v) w"
  by (auto simp: vm_ok_def list_all_iff)

lemma vm_validE:
  assumes "vm_ok v" and "vm_valid v a n" and "0 < n"
  obtains g s where "(g, s) \<in> set (windows v)"
    "\<And>i. i < n \<Longrightarrow> unat (a + of_nat i) = unat a + i"
    "\<And>i. i < n \<Longrightarrow> in_win (a + of_nat i) (g, s)"
    "unat g \<le> unat a" "unat a + n \<le> unat g + sl_len s"
proof -
  obtain g s where w: "(g, s) \<in> set (windows v)" "unat g \<le> unat a"
      "unat a + n \<le> unat g + sl_len s"
    using assms(2,3) by (fastforce simp: vm_valid_def)
  have "unat g + sl_len s < 2 ^ 64" using windows_ok [OF assms(1) w(1)] by (simp add: win_ok_def)
  with w have u: "unat (a + of_nat i) = unat a + i" if "i < n" for i
    using that by (simp add: unat_word_ariths unat_of_nat take_bit_eq_mod)
  with w have "in_win (a + of_nat i) (g, s)" if "i < n" for i
    using that by (simp add: in_win_def)
  with u w show ?thesis by (intro that)
qed

lemma vm_valid_bound:
  assumes "vm_ok v" and "vm_valid v a n"
  shows "n \<le> 2 ^ 64"
proof (cases "n = 0")
  case False
  then have "0 < n" by simp
  obtain g s where gs: "(g, s) \<in> set (windows v)" "unat a + n \<le> unat g + sl_len s"
    using vm_validE [OF assms \<open>0 < n\<close>] by metis
  then show ?thesis using windows_ok [OF assms(1) gs(1)] by (simp add: win_ok_def)
qed simp

lemma valid_place:
  assumes "vm_ok v" and "vm_valid v a n" and "0 < n"
  obtains r base region where "findMemoryRegion v a = Some (region, of_nat (base - sl_off region))"
    "sl_arr region = r" "sl_off region \<le> base" "n \<le> sl_len region - (base - sl_off region)"
    "unat (of_nat (base - sl_off region) :: u64) = base - sl_off region"
    "base + n \<le> length (vm_arrays v r)"
    "\<And>i. i < n \<Longrightarrow> place v (a + of_nat i) = Some (r, base + i)"
proof -
  obtain g s where gs: "(g, s) \<in> set (windows v)"
    "\<And>i. i < n \<Longrightarrow> unat (a + of_nat i) = unat a + i"
    "\<And>i. i < n \<Longrightarrow> in_win (a + of_nat i) (g, s)"
    "unat g \<le> unat a" "unat a + n \<le> unat g + sl_len s"
    using vm_validE [OF assms] by metis
  have a: "in_win a (g, s)" using gs(3) [of 0] assms(3) by simp
  obtain s' where s': "findMemoryRegion v a = Some (s', a - g)" "sl_arr s' = sl_arr s"
    "sl_off s' = sl_off s" "sl_len s \<le> sl_len s'"
    using findMemoryRegion_window [OF assms(1) gs(1) a] by metis
  let ?base = "sl_off s + (unat a - unat g)"
  have off: "unat (a - g) = unat a - unat g" by (rule in_win_off [OF a])
  then have "?base - sl_off s' = unat (a - g)" using s'(3) by simp
  then have eq: "of_nat (?base - sl_off s') = a - g" by (simp only: of_nat_unat) simp
  have bound: "?base + n \<le> length (vm_arrays v (sl_arr s))"
    using windows_ok [OF assms(1) gs(1)] gs(4,5) unfolding win_ok_def by simp linarith
  have pl: "place v (a + of_nat i) = Some (sl_arr s, ?base + i)" if "i < n" for i
    using place_window [OF assms(1) gs(1) gs(3) [OF that]] gs(2) [OF that] gs(4) by simp
  show ?thesis
    by (rule that [of s' ?base "sl_arr s"]) (use s' eq off bound pl gs(4,5) in auto)
qed

lemma copyFromGuest_zero [simp]: "copyFromGuest fuel v a 0 = Inr []"
  by (cases fuel) auto

lemma copyToGuest_Nil [simp]: "copyToGuest fuel a [] v = (Inr (), v)"
  by (cases fuel) auto

lemma kvm_read_valid:
  assumes "vm_ok v" and "vm_valid v a n"
  shows "kvm_ReadIPA a n v = Inr (get_view (vm_view v) a n)"
proof (cases n)
  case 0
  then show ?thesis by (simp add: kvm_ReadIPA_def get_view_def)
next
  case (Suc m)
  obtain r base region where p: "findMemoryRegion v a = Some (region, of_nat (base - sl_off region))"
    "sl_arr region = r" "sl_off region \<le> base" "n \<le> sl_len region - (base - sl_off region)"
    "unat (of_nat (base - sl_off region) :: u64) = base - sl_off region"
    "base + n \<le> length (vm_arrays v r)"
    "\<And>i. i < n \<Longrightarrow> place v (a + of_nat i) = Some (r, base + i)"
    using valid_place [OF assms] Suc by (metis zero_less_Suc)
  have "slice (vm_arrays v r) base (base + n) = get_view (vm_view v) a n"
    using p(6,7) by (intro nth_equalityI) (auto simp: slice_nth vm_view_def)
  with p Suc show ?thesis by (simp add: kvm_ReadIPA_def min_def Let_def)
qed

lemma windows_store [simp]:
  "windows (store_bytes s off data v) = windows v"
  "findMemoryRegion (store_bytes s off data v) a = findMemoryRegion v a"
  "place (store_bytes s off data v) a = place v a"
  by (simp_all add: store_bytes_def windows_def findMemoryRegion_def place_def)

lemma store_bytes_ok:
  assumes "vm_ok v"
    and "sl_off s + off + length data \<le> length (vm_arrays v (sl_arr s))"
  shows "vm_ok (store_bytes s off data v)"
proof -
  have len: "length (vm_arrays (store_bytes s off data v) r) = length (vm_arrays v r)" for r
    using assms(2) by (simp add: store_bytes_def)
  have "win_ok (vm_arrays (store_bytes s off data v)) = win_ok (vm_arrays v)"
    by (rule ext) (simp add: win_ok_def len split: prod.splits)
  moreover have "vm_mem (store_bytes s off data v) = vm_mem v"
    "lowMemLimit (store_bytes s off data v) = lowMemLimit v"
    by (simp_all add: store_bytes_def)
  ultimately show ?thesis using assms(1) by (simp add: vm_ok_def len)
qed

lemma place_bound:
  assumes "vm_ok v" and "place v a = Some (r, i)"
  shows "i < length (vm_arrays v r)"
proof -
  obtain g s where "(g, s) \<in> set (windows v)" "in_win a (g, s)"
      "r = sl_arr s" "i = sl_off s + (unat a - unat g)"
    using placeE [OF assms] by metis
  with windows_ok [OF assms(1)] show ?thesis by (fastforce simp: win_ok_def in_win_def)
qed

lemma store_view:
  assumes ok: "vm_ok v" and bound: "base + length data \<le> length (vm_arrays v r)"
    and len: "length data \<le> 2 ^ 64"
    and reg: "sl_arr region = r" "sl_off region + off = base"
    and pl: "\<And>i. i < length data \<Longrightarrow> place v (a + of_nat i) = Some (r, base + i)"
  shows "vm_view (store_bytes region off data v) = put_view (vm_view v) a data"
proof (rule ext)
  fix x
  let ?v = "store_bytes region off data v"
  have arr: "vm_arrays ?v r' = (if r' = r then splice (vm_arrays v r) base data else vm_arrays v r')"
    for r' using reg by (simp add: store_bytes_def)
  show "vm_view ?v x = put_view (vm_view v) a data x"
  proof (cases "unat (x - a) < length data")
    case True
    have "x = a + of_nat (unat (x - a))" by simp
    then have "place v x = Some (r, base + unat (x - a))" using pl [OF True] by simp
    with True bound show ?thesis by (simp add: vm_view_def put_view_def arr nth_splice)
  next
    case False
    have "vm_view ?v x = vm_view v x"
    proof (cases "place v x")
      case None
      then show ?thesis by (simp add: vm_view_def)
    next
      case (Some p)
      obtain r' i where p: "p = (r', i)" by (cases p)
      have "\<not> (r' = r \<and> base \<le> i \<and> i < base + length data)"
      proof
        assume h: "r' = r \<and> base \<le> i \<and> i < base + length data"
        then obtain k where k: "i = base + k" "k < length data" by (metis add_less_cancel_left le_Suc_ex)
        then have "place v (a + of_nat k) = Some p" using pl [of k] p h by simp
        with Some have "x = a + of_nat k" using place_inj [OF ok] by blast
        then have "unat (x - a) = k" using k len by (simp add: unat_of_nat take_bit_eq_mod)
        with False k show False by simp
      qed
      with Some p bound place_bound [OF ok] show ?thesis
        by (auto simp: vm_view_def arr nth_splice)
    qed
    with False show ?thesis by (simp add: put_view_def)
  qed
qed

lemma kvm_write_valid:
  assumes "vm_ok v" and "vm_valid v a (length data)"
  shows "\<exists>v'. kvm_WriteIPA a data v = (Inr (), v') \<and> vm_view v' = put_view (vm_view v) a data"
proof (cases "data = []")
  case True
  then show ?thesis by (simp add: kvm_WriteIPA_def)
next
  case False
  then obtain m where m: "length data = Suc m" by (cases data) auto
  obtain r base region where p: "findMemoryRegion v a = Some (region, of_nat (base - sl_off region))"
    "sl_arr region = r" "sl_off region \<le> base" "length data \<le> sl_len region - (base - sl_off region)"
    "unat (of_nat (base - sl_off region) :: u64) = base - sl_off region"
    "base + length data \<le> length (vm_arrays v r)"
    "\<And>i. i < length data \<Longrightarrow> place v (a + of_nat i) = Some (r, base + i)"
    using valid_place [OF assms] False by (metis length_greater_0_conv)
  let ?v = "store_bytes region (base - sl_off region) data v"
  have "kvm_WriteIPA a data v = copyToGuest (Suc m) a data v"
    using False m by (simp add: kvm_WriteIPA_def)
  also have "\<dots> = (Inr (), ?v)"
    using p False m by (simp add: min_def Let_def)
  finally have w: "kvm_WriteIPA a data v = (Inr (), ?v)" .
  have "length data \<le> 2 ^ 64" using vm_valid_bound [OF assms] .
  then have "vm_view ?v = put_view (vm_view v) a data"
    using p by (intro store_view [OF assms(1), of base data r region]) auto
  with w show ?thesis by blast
qed

text \<open>Any copy, valid or not: it returns, keeps the machine well formed and the windows.\<close>

lemma region_found_bounds:
  assumes "vm_ok v" and "findMemoryRegion v a = Some (s, off)"
  shows "unat off < sl_len s" and "sl_off s + sl_len s \<le> length (vm_arrays v (sl_arr s))"
proof -
  obtain g t where gt: "(g, t) \<in> set (windows v)" "in_win a (g, t)" "off = a - g"
    "sl_arr s = sl_arr t" "sl_off s = sl_off t" "sl_len t \<le> sl_len s"
    using findMemoryRegion_Some [OF assms] by metis
  then show "unat off < sl_len s" using in_win_off [of a g t] by (auto simp: in_win_def)
  obtain s' where "findMemoryRegion v a = Some (s', a - g)"
    "sl_off s' + sl_len s' \<le> length (vm_arrays v (sl_arr s'))"
    using findMemoryRegion_window [OF assms(1) gt(1,2)] by metis
  with assms(2) show "sl_off s + sl_len s \<le> length (vm_arrays v (sl_arr s))" by simp
qed

lemma copyFromGuest_total:
  assumes "vm_ok v" and "len \<le> fuel"
  shows "(\<exists>bs. copyFromGuest fuel v a len = Inr bs \<and> length bs = len) \<or>
    copyFromGuest fuel v a len = Inl Unmapped"
  using assms(2)
proof (induction fuel arbitrary: a len)
  case (Suc fuel)
  show ?case
  proof (cases "len = 0 \<or> findMemoryRegion v a = None")
    case True
    then show ?thesis by auto
  next
    case False
    then obtain s off where f: "findMemoryRegion v a = Some (s, off)" and "0 < len" by auto
    note b = region_found_bounds [OF assms(1) f]
    define n where "n = min len (sl_len s - unat off)"
    have n: "0 < n" "n \<le> len" using b \<open>0 < len\<close> by (auto simp: n_def)
    then have "len - n \<le> fuel" using Suc.prems by simp
    then have rest: "(\<exists>bs. copyFromGuest fuel v (a + of_nat n) (len - n) = Inr bs \<and> length bs = len - n) \<or>
        copyFromGuest fuel v (a + of_nat n) (len - n) = Inl Unmapped"
      by (rule Suc.IH)
    have "copyFromGuest (Suc fuel) v a len =
      (case copyFromGuest fuel v (a + of_nat n) (len - n) of Inl e \<Rightarrow> Inl e
       | Inr rest \<Rightarrow> Inr (slice (vm_arrays v (sl_arr s)) (sl_off s + unat off)
           (sl_off s + unat off + n) @ rest))"
      using f b \<open>0 < len\<close> by (simp add: Let_def n_def cong: sum.case_cong)
    moreover have "n \<le> length (vm_arrays v (sl_arr s)) - (sl_off s + unat off)"
      using b by (simp add: n_def)
    ultimately show ?thesis using rest n by auto
  qed
qed simp

lemma copyToGuest_keeps:
  assumes "vm_ok v" and "length data \<le> fuel" and "copyToGuest fuel a data v = (r, v')"
  shows "vm_ok v' \<and> windows v' = windows v \<and> (r = Inr () \<or> r = Inl Unmapped)"
  using assms
proof (induction fuel arbitrary: a data v)
  case (Suc fuel)
  show ?case
  proof (cases "data = [] \<or> findMemoryRegion v a = None")
    case True
    then show ?thesis using Suc.prems by (auto split: if_splits)
  next
    case False
    then obtain s off where f: "findMemoryRegion v a = Some (s, off)" and "data \<noteq> []" by auto
    note b = region_found_bounds [OF Suc.prems(1) f]
    define n where "n = min (length data) (sl_len s - unat off)"
    have n: "0 < n" "n \<le> length data" using b \<open>data \<noteq> []\<close> by (auto simp: n_def)
    let ?v = "store_bytes s (unat off) (take n data) v"
    have "vm_ok ?v" using b n Suc.prems(1)
      by (intro store_bytes_ok) (auto simp: n_def)
    moreover have "copyToGuest fuel (a + of_nat n) (drop n data) ?v = (r, v')"
      using Suc.prems(3) f b \<open>data \<noteq> []\<close> by (simp add: Let_def n_def)
    moreover have "length (drop n data) \<le> fuel" using n Suc.prems(2) by simp
    ultimately show ?thesis using Suc.IH by fastforce
  qed
qed (auto split: if_splits)

section \<open>The interface is implemented\<close>

lemma kvm_host_sel [simp]:
  "ReadIPA kvm_host = kvm_ReadIPA" "WriteIPA kvm_host = kvm_WriteIPA" "SetIRQ kvm_host = kvm_SetIRQ"
  by (simp_all add: kvm_host_def)

lemma irq_lines_update_keeps [simp]:
  "windows (v\<lparr>irq_lines := x\<rparr>) = windows v"
  "findMemoryRegion (v\<lparr>irq_lines := x\<rparr>) = findMemoryRegion v"
  by (simp_all add: windows_def findMemoryRegion_def fun_eq_iff)

lemma kvm_SetIRQ_result:
  "snd (kvm_SetIRQ l b v) = v \<or> snd (kvm_SetIRQ l b v) = v\<lparr>irq_lines := (irq_lines v)(l := b)\<rparr>"
  by (simp add: kvm_SetIRQ_def split: option.split)

lemma irq_lines_update_memory [simp]:
  "vm_ok (v\<lparr>irq_lines := x\<rparr>) = vm_ok v" "vm_view (v\<lparr>irq_lines := x\<rparr>) = vm_view v"
  "vm_valid (v\<lparr>irq_lines := x\<rparr>) = vm_valid v"
  by (simp_all add: vm_ok_def vm_view_def place_def vm_valid_def fun_eq_iff)

lemma kvm_SetIRQ_keeps:
  assumes "kvm_SetIRQ l b v = (r, v')"
  shows "vm_ok v' = vm_ok v" "vm_view v' = vm_view v" "vm_valid v' = vm_valid v"
proof -
  have "v' = v \<or> v' = v\<lparr>irq_lines := (irq_lines v)(l := b)\<rparr>"
    using kvm_SetIRQ_result [of l b v] by (simp add: assms)
  then show "vm_ok v' = vm_ok v" "vm_view v' = vm_view v" "vm_valid v' = vm_valid v"
    by (elim disjE; hypsubst; simp)+
qed

lemma kvm_WriteIPA_keeps:
  assumes "vm_ok v" and "kvm_WriteIPA a data v = (r, v')"
  shows "vm_ok v'" "vm_valid v' = vm_valid v"
proof -
  have "vm_ok v' \<and> windows v' = windows v"
  proof (cases "data = []")
    case True
    with assms show ?thesis by (simp add: kvm_WriteIPA_def)
  next
    case False
    with assms(2) have "copyToGuest (length data) a data v = (r, v')" by (simp add: kvm_WriteIPA_def)
    with copyToGuest_keeps [OF assms(1) order_refl] show ?thesis by blast
  qed
  then show "vm_ok v'" "vm_valid v' = vm_valid v" by (simp_all add: vm_valid_def fun_eq_iff)
qed

lemma vm_valid_sub:
  assumes "vm_ok v" and "vm_valid v a n" and "i + m \<le> n"
  shows "vm_valid v (a + of_nat i) m"
proof (cases "m = 0")
  case False
  with assms(3) have "0 < n" and i: "i < n" by auto
  obtain g s where gs: "(g, s) \<in> set (windows v)"
    "\<And>i. i < n \<Longrightarrow> unat (a + of_nat i) = unat a + i"
    "unat g \<le> unat a" "unat a + n \<le> unat g + sl_len s"
    using vm_validE [OF assms(1,2) \<open>0 < n\<close>] by metis
  with assms(3) gs(2) [OF i] show ?thesis
    unfolding vm_valid_def by (intro disjI2 bexI [OF _ gs(1)]) auto
qed (simp add: vm_valid_def)

interpretation kvm: guest_ram kvm_host vm_ok vm_view vm_valid
proof (unfold_locales, goal_cases)
  case (1 w a n bs)
  then show ?case
    using copyFromGuest_total [of w n n a] by (auto simp: kvm_ReadIPA_def split: if_splits)
next
  case (2 w a n)
  then show ?case by (simp add: kvm_read_valid)
next
  case (3 w a bs)
  then show ?case by (simp add: kvm_write_valid)
next
  case (4 w a bs r w')
  then show ?case using kvm_WriteIPA_keeps(1) [of w a bs r w'] by simp
next
  case (5 w a bs r w')
  then show ?case using kvm_WriteIPA_keeps(2) [of w a bs r w'] by simp
next
  case (6 w l b r w')
  then show ?case using kvm_SetIRQ_keeps(1) [of l b w r w'] by simp
next
  case (7 l b w r w')
  then show ?case using kvm_SetIRQ_keeps(2) [of l b w r w'] by simp
next
  case (8 l b w r w')
  then show ?case using kvm_SetIRQ_keeps(3) [of l b w r w'] by simp
next
  case (9 w a n i m)
  then show ?case by (rule vm_valid_sub)
next
  case (10 w a n)
  then show ?case by (rule vm_valid_bound)
qed

section \<open>The boot-time mapping\<close>

lemma memory_split:
  "LowMemorySizeBytes mb \<le> LowMemorySize"
  "LowMemorySizeBytes mb + HighMemorySizeBytes mb = MemorySizeBytes mb"
  "unat (LowMemorySizeBytes mb) + unat (HighMemorySizeBytes mb) = unat (MemorySizeBytes mb)"
  "HighMemorySizeBytes mb \<noteq> 0 \<Longrightarrow> LowMemorySizeBytes mb = LowMemorySize"
  by (auto simp: LowMemorySizeBytes_def HighMemorySizeBytes_def unat_sub word_less_nat_alt
      word_le_nat_alt)

lemma mapped_size:
  assumes "sl_len mem < 2 ^ 63"
    and "of_nat (sl_len mem) = LowMemorySizeBytes mb + HighMemorySizeBytes mb"
  shows "sl_len mem = unat (LowMemorySizeBytes mb) + unat (HighMemorySizeBytes mb)"
proof -
  have "unat (of_nat (sl_len mem) :: u64) = sl_len mem"
    using assms(1) by (simp add: unat_of_nat take_bit_eq_mod)
  then show ?thesis using assms(2) memory_split(2,3) by metis
qed

text \<open>
  C20 (invariant). Mapping the guest memory of an amd64 machine at boot keeps the machine well
  formed, whether or not the kernel accepts the regions: every window lies inside the host
  mapping, and no two windows share a guest address or a host byte. The mapping given is a Go
  slice, so shorter than \<open>2 ^ 63\<close> bytes.
\<close>

theorem mapAMD64GuestMemoryBytes_ok:
  assumes "vm_ok v" and "vm_regions v = []"
    and "sl_off mem + sl_len mem \<le> length (vm_arrays v (sl_arr mem))" and "sl_len mem < 2 ^ 63"
    and "mapAMD64GuestMemoryBytes set_region mb mem v = (r, v')"
  shows "vm_ok v'"
proof -
  let ?low = "LowMemorySizeBytes mb" and ?high = "HighMemorySizeBytes mb"
  have low: "unat ?low \<le> 3221225472"
    using memory_split(1) [of mb] by (simp add: word_le_nat_alt LowMemorySize_def)
  have size: "sl_len mem = unat ?low + unat ?high"
    if "of_nat (sl_len mem) = ?low + ?high" using mapped_size [OF assms(4) that] .
  show ?thesis using assms size low
    by (auto simp: mapAMD64GuestMemoryBytes_def Let_def vm_ok_def windows_def win_ok_def
        win_disj_def HighMemoryBase_def split: if_splits option.splits)
qed

theorem mapAMD64GuestMemoryBytes_ok_witness:
  "vm_ok (snd (mapAMD64GuestMemoryBytes (\<lambda>_. None) 1 \<lparr>sl_arr = 0, sl_off = 0, sl_len = 1048576\<rparr>
     \<lparr>vm_arrays = (\<lambda>_. replicate 1048576 0), vm_mem = \<lparr>sl_arr = 0, sl_off = 0, sl_len = 0\<rparr>,
      lowMemLimit = 0, vm_regions = [], irq_ioctl = (\<lambda>_ _. None), irq_lines = (\<lambda>_. False)\<rparr>))"
proof (rule mapAMD64GuestMemoryBytes_ok)
  show "vm_ok \<lparr>vm_arrays = (\<lambda>_. replicate 1048576 0), vm_mem = \<lparr>sl_arr = 0, sl_off = 0, sl_len = 0\<rparr>,
      lowMemLimit = 0, vm_regions = [], irq_ioctl = (\<lambda>_ _. None), irq_lines = (\<lambda>_. False)\<rparr>"
    by (simp add: vm_ok_def windows_def win_ok_def)
qed (auto intro: prod_eqI)

text \<open>
  C22 (safety). The range check of a device access stops at the end of the host mapping, not
  at the end of the low window: on a machine with memory above 4 GiB, a two byte read at the
  last address of the low window succeeds although the second address is mapped to nothing,
  and returns the first byte of the memory at 4 GiB for it.
\<close>

theorem read_across_low_limit:
  assumes "mapAMD64GuestMemoryBytes set_region mb mem v = (Inr (), v')" and "vm_regions v = []"
    and "sl_off mem + sl_len mem \<le> length (vm_arrays v (sl_arr mem))" and "sl_len mem < 2 ^ 63"
    and "HighMemorySizeBytes mb \<noteq> 0"
  shows "vm_view v' (lowMemLimit v') = None \<and>
    kvm_ReadIPA (lowMemLimit v' - 1) 2 v' =
      Inr [the (vm_view v' (lowMemLimit v' - 1)), the (vm_view v' HighMemoryBase)]"
proof -
  let ?low = "LowMemorySizeBytes mb" and ?high = "HighMemorySizeBytes mb"
  have low: "?low = LowMemorySize" by (rule memory_split(4) [OF assms(5)])
  have v': "v' = v\<lparr>vm_mem := mem, lowMemLimit := ?low,
      vm_regions := [\<lparr>guestPhysAddr = HighMemoryBase,
        mapping_mem = \<lparr>sl_arr = sl_arr mem, sl_off = sl_off mem + unat ?low, sl_len = unat ?high\<rparr>,
        ownsMapping = False\<rparr>]\<rparr>" and eq: "of_nat (sl_len mem) = ?low + ?high"
    using assms(1,2,5) by (auto simp: mapAMD64GuestMemoryBytes_def Let_def split: if_splits option.splits)
  have len: "sl_len mem = 3221225472 + unat ?high"
    using mapped_size [OF assms(4) eq] low by (simp add: LowMemorySize_def)
  have high: "0 < unat ?high" "unat ?high < 2 ^ 63" using assms(4,5) len by (auto simp: unat_gt_0)
  have stop: "unat (4294967296 + ?high) = 4294967296 + unat ?high"
    using high by (simp add: unat_word_ariths)
  then have hit: "(4294967296 :: u64) < 4294967296 + ?high" using high by (simp add: word_less_nat_alt)
  have none: "vm_view v' (lowMemLimit v') = None"
    by (simp add: v' vm_view_def place_def findMemoryRegion_def low LowMemorySize_def
        HighMemoryBase_def Let_def)
  let ?A = "vm_arrays v (sl_arr mem)" and ?i = "sl_off mem + 3221225471"
  have f: "findMemoryRegion v' 3221225471 = Some (mem, 3221225471)"
    by (simp add: v' findMemoryRegion_def low LowMemorySize_def)
  have n: "min 2 (sl_len mem - 3221225471) = 2" "\<not> sl_len mem < 3221225471" using len high by simp_all
  have "copyFromGuest (Suc (Suc 0)) v' 3221225471 2 = Inr (slice ?A ?i (?i + 2))"
    by (simp add: f n Let_def) (simp add: v')
  moreover have "slice ?A ?i (?i + 2) = [?A ! ?i, ?A ! (?i + 1)]"
    using assms(3) len high by (intro nth_equalityI) (auto simp: slice_nth less_2_cases_iff nth_Cons')
  ultimately have "kvm_ReadIPA (lowMemLimit v' - 1) 2 v' = Inr [?A ! ?i, ?A ! (?i + 1)]"
    by (simp add: kvm_ReadIPA_def v' low LowMemorySize_def numeral_2_eq_2)
  then show ?thesis using none hit
    by (simp add: v' vm_view_def place_def findMemoryRegion_def low LowMemorySize_def
        HighMemoryBase_def Let_def word_less_nat_alt add.commute [of _ "sl_off mem"])
qed

theorem read_across_low_limit_witness:
  "\<exists>v'. mapAMD64GuestMemoryBytes (\<lambda>_. None) 4096 \<lparr>sl_arr = 0, sl_off = 0, sl_len = 4294967296\<rparr>
     \<lparr>vm_arrays = (\<lambda>_. replicate 4294967296 7), vm_mem = \<lparr>sl_arr = 0, sl_off = 0, sl_len = 0\<rparr>,
      lowMemLimit = 0, vm_regions = [], irq_ioctl = (\<lambda>_ _. None), irq_lines = (\<lambda>_. False)\<rparr> =
     (Inr (), v') \<and> vm_view v' (lowMemLimit v') = None \<and>
     kvm_ReadIPA (lowMemLimit v' - 1) 2 v' =
       Inr [the (vm_view v' (lowMemLimit v' - 1)), the (vm_view v' HighMemoryBase)]"
proof -
  let ?v = "\<lparr>vm_arrays = (\<lambda>_. replicate 4294967296 7), vm_mem = \<lparr>sl_arr = 0, sl_off = 0, sl_len = 0\<rparr>,
      lowMemLimit = 0, vm_regions = [], irq_ioctl = (\<lambda>_ _. None), irq_lines = (\<lambda>_. False)\<rparr>"
    and ?mem = "\<lparr>sl_arr = 0, sl_off = 0, sl_len = 4294967296\<rparr>"
  have high: "HighMemorySizeBytes 4096 = 1073741824" "LowMemorySizeBytes 4096 = 3221225472"
    by (simp_all add: HighMemorySizeBytes_def LowMemorySizeBytes_def MemorySizeBytes_def LowMemorySize_def)
  obtain v' where v': "mapAMD64GuestMemoryBytes (\<lambda>_. None) 4096 ?mem ?v = (Inr (), v')"
    by (simp add: mapAMD64GuestMemoryBytes_def high Let_def)
  have "vm_view v' (lowMemLimit v') = None \<and> kvm_ReadIPA (lowMemLimit v' - 1) 2 v' =
       Inr [the (vm_view v' (lowMemLimit v' - 1)), the (vm_view v' HighMemoryBase)]"
    by (rule read_across_low_limit [OF v']) (simp_all add: high)
  with v' show ?thesis by blast
qed

section \<open>Small machines\<close>

text \<open>
  A machine whose memory is the given bytes from address 0, with a kernel that accepts every
  interrupt change: the concrete machines of the examples.
\<close>

definition flat_vm :: "bytes \<Rightarrow> kvm_vm" where
  "flat_vm bs = \<lparr>vm_arrays = (\<lambda>_. bs), vm_mem = \<lparr>sl_arr = 0, sl_off = 0, sl_len = length bs\<rparr>,
     lowMemLimit = of_nat (length bs), vm_regions = [], irq_ioctl = (\<lambda>_ _. None), irq_lines = (\<lambda>_. False)\<rparr>"

lemma flat_vm_ok: "length bs < 2 ^ 63 \<Longrightarrow> vm_ok (flat_vm bs)"
  by (simp add: flat_vm_def vm_ok_def windows_def win_ok_def unat_of_nat take_bit_eq_mod)

lemma flat_vm_view:
  "length bs < 2 ^ 63 \<Longrightarrow> unat a < length bs \<Longrightarrow> vm_view (flat_vm bs) a = Some (bs ! unat a)"
  by (simp add: flat_vm_def vm_view_def place_def findMemoryRegion_def word_less_nat_alt
      unat_of_nat take_bit_eq_mod)

lemma flat_vm_valid:
  "length bs < 2 ^ 63 \<Longrightarrow> vm_valid (flat_vm bs) a n \<longleftrightarrow> n = 0 \<or> unat a + n \<le> length bs"
  by (simp add: flat_vm_def vm_valid_def windows_def unat_of_nat take_bit_eq_mod)

lemma flat_vm_get_view:
  assumes "length bs < 2 ^ 63" and "unat a + n \<le> length bs"
  shows "get_view (vm_view (flat_vm bs)) a n = slice bs (unat a) (unat a + n)"
proof (rule nth_equalityI)
  fix i assume "i < length (get_view (vm_view (flat_vm bs)) a n)"
  then have i: "i < n" by simp
  then have "unat (a + of_nat i) = unat a + i"
    using assms by (simp add: unat_word_ariths unat_of_nat take_bit_eq_mod)
  with i assms show "get_view (vm_view (flat_vm bs)) a n ! i = slice bs (unat a) (unat a + n) ! i"
    by (simp add: flat_vm_view slice_nth)
qed (use assms in simp)

lemma flat_vm_irq [simp]: "irq_ioctl (flat_vm bs) = (\<lambda>_ _. None)" "irq_lines (flat_vm bs) = (\<lambda>_. False)"
  by (simp_all add: flat_vm_def)

text \<open>The machine beside another part of the world.\<close>

interpretation kvmx: guest_ram "fst_host kvm_host" "\<lambda>w. vm_ok (fst w)" "\<lambda>w. vm_view (fst w)"
  "\<lambda>w. vm_valid (fst w)"
  by (rule fst_host_ram) (rule kvm.guest_ram_axioms)

end
