(* ===== verification/Console.thy ===== *)
theory Console
  imports VirtioMmio KvmMemory
begin

text \<open>
  The virtio console (\<^verbatim>\<open>internal/virtio/console.go\<close>). The output writer \<open>Out\<close> is an
  \<^verbatim>\<open>io.Writer\<close> of the embedding program: it is an argument of the handlers, \<open>None\<close> where the
  field is nil. Its effect is a computation on the world.
\<close>

type_synonym 'w writer = "bytes \<Rightarrow> ('w, unit) op"

definition mmioDeviceIDConsole :: u64 where "mmioDeviceIDConsole = 3"
definition queueTx :: nat where "queueTx = 1"

definition NewConsole :: "u64 \<Rightarrow> u64 \<Rightarrow> u32 \<Rightarrow> virtio_dev" where
  "NewConsole base sz irq = resetLocked \<lparr>Base = base, Size = sz, IRQ = irq, LegacyMMIO = False,
     mem_attached = False, irq_attached = False, deviceFeatureSel = 0, driverFeatureSel = 0,
     driverFeatures = 0, queueSel = 0, status = 0, interruptStatus = 0, irqHigh = False,
     configGeneration = 0, queues = [zero_queue, zero_queue]\<rparr>"

section \<open>Reading registers\<close>

definition Console_configBytesLocked :: bytes where
  "Console_configBytesLocked = put_le16 80 @ put_le16 25 @ put_le32 1 @ put_le32 0"

definition Console_Read :: "u64 \<Rightarrow> nat \<Rightarrow> virtio_dev \<Rightarrow> error + u64" where
  "Console_Read addr sz c =
     (let offset = addr - Base c; selected = queueSel c < of_nat (length (queues c));
          q = queues c ! unat (queueSel c)
      in if offset = regMagicValue then Inr (truncateValue mmioMagicValue sz)
         else if offset = regVersion then Inr (truncateValue (ucast mmioVersion) sz)
         else if offset = regDeviceID then Inr (truncateValue mmioDeviceIDConsole sz)
         else if offset = regVendorID then Inr (truncateValue mmioVendorID sz)
         else if offset = regDeviceFeatures then
           (if deviceFeatureSel c = 0 then Inr (truncateValue featureSize sz)
            else if deviceFeatureSel c = 1 then Inr (truncateValue 1 sz)
            else Inr 0)
         else if offset = regQueueNumMax then (if selected then Inr (truncateValue 256 sz) else Inr 0)
         else if offset = regQueueNum then
           (if selected then Inr (truncateValue (ucast (q_size q)) sz) else Inr 0)
         else if offset = regQueueReady then
           (if selected \<and> q_ready q then Inr (truncateValue 1 sz) else Inr 0)
         else if offset = regInterruptStatus then Inr (truncateValue (ucast (interruptStatus c)) sz)
         else if offset = regStatus then Inr (truncateValue (ucast (status c)) sz)
         else if offset = regConfigGen then Inr (truncateValue (ucast (configGeneration c)) sz)
         else if regConfig \<le> offset \<and> offset + of_nat sz \<le> regConfig + 12 then
           (case readConfigValue (drop (unat (offset - regConfig)) Console_configBytesLocked) sz of
              Inl e \<Rightarrow> Inl e
            | Inr v \<Rightarrow> Inr (truncateValue v sz))
         else Inr 0)"

section \<open>The transmit queue\<close>

definition Console_readDescriptorLocked :: "'w host \<Rightarrow> queue \<Rightarrow> u16 \<Rightarrow> 'w \<Rightarrow> error + descriptor" where
  "Console_readDescriptorLocked H q index w =
     (if q_size q \<le> index then Inl DescIndexOutOfRange
      else case ReadIPA H (descAddr q + ucast index * 16) 16 w of
        Inl e \<Rightarrow> Inl e
      | Inr buf \<Rightarrow> Inr (decode_descriptor buf))"

text \<open>The loop of \<^verbatim>\<open>readChainLocked\<close>: the first argument is \<^verbatim>\<open>q.size - i\<close>.\<close>

fun Console_readChain_loop :: "nat \<Rightarrow> 'w host \<Rightarrow> queue \<Rightarrow> bytes \<Rightarrow> u16 \<Rightarrow> 'w \<Rightarrow> error + bytes" where
  "Console_readChain_loop 0 H q out index w = Inl DescChainLoop"
| "Console_readChain_loop (Suc n) H q out index w =
     (case Console_readDescriptorLocked H q index w of
        Inl e \<Rightarrow> Inl e
      | Inr desc \<Rightarrow>
          (case (if d_flags desc AND descFWrite = 0 \<and> 0 < d_length desc
                 then ReadIPA H (d_addr desc) (unat (d_length desc)) w else Inr []) of
             Inl e \<Rightarrow> Inl e
           | Inr chunk \<Rightarrow>
               if d_flags desc AND descFNext = 0 then Inr (out @ chunk)
               else Console_readChain_loop n H q (out @ chunk) (d_next desc) w))"

definition Console_readChainLocked :: "'w host \<Rightarrow> queue \<Rightarrow> u16 \<Rightarrow> 'w \<Rightarrow> error + bytes" where
  "Console_readChainLocked H q head w = Console_readChain_loop (unat (q_size q)) H q [] head w"

definition Console_writeUsedLocked :: "'w host \<Rightarrow> u16 \<Rightarrow> u32 \<Rightarrow> (queue \<times> 'w, unit) op" where
  "Console_writeUsedLocked = writeQueueUsed"

fun Console_serve :: "'w host \<Rightarrow> 'w writer option \<Rightarrow> u16 \<Rightarrow> (virtio_dev \<times> 'w, u32) op" where
  "Console_serve H Out head (c, w) =
     (case Console_readChainLocked H (queues c ! queueTx) head w of
          Inl e \<Rightarrow> (Inl e, (c, w))
        | Inr data \<Rightarrow>
            (case (if data = [] then (Inr (), w) else case Out of None \<Rightarrow> (Inr (), w) | Some out \<Rightarrow> out data w) of
               (Inl e, w1) \<Rightarrow> (Inl e, (c, w1))
             | (Inr _, w1) \<Rightarrow> (Inr (of_nat (length data)), (c, w1))))"

text \<open>The loop of \<^verbatim>\<open>processTXLocked\<close> over the available ring.\<close>

abbreviation txLoop :: "nat \<Rightarrow> 'w host \<Rightarrow> 'w writer option \<Rightarrow> u16 \<Rightarrow> (virtio_dev \<times> 'w, unit) op" where
  "txLoop n H Out \<equiv> drain n H (\<lambda>c. queues c ! queueTx) (\<lambda>q. upd_queue queueTx (\<lambda>_. q)) (Console_serve H Out)"

fun Console_processTXLocked :: "'w host \<Rightarrow> 'w writer option \<Rightarrow> (virtio_dev \<times> 'w, unit) op" where
  "Console_processTXLocked H Out (c, w) =
     (let q = queues c ! queueTx
        in if \<not> q_ready q \<or> q_size q = 0 \<or> \<not> mem_attached c then (Inr (), (c, w))
           else case ReadIPA H (availAddr q) 4 w of
             Inl e \<Rightarrow> (Inl e, (c, w))
           | Inr header \<Rightarrow>
               let availIdx = le16 (slice header 2 4)
               in bindE (txLoop (pending q availIdx) H Out availIdx)
                    (\<lambda>_. raise_vring H) (c, w))"

section \<open>Writing registers\<close>

fun Console_Write ::
    "'w host \<Rightarrow> 'w writer option \<Rightarrow> u64 \<Rightarrow> nat \<Rightarrow> u64 \<Rightarrow> (virtio_dev \<times> 'w, unit) op" where
  "Console_Write H Out addr sz val (c, w) =
     (let offset = addr - Base c
        in if offset = regDeviceFeatSel then (Inr (), (c\<lparr>deviceFeatureSel := ucast val\<rparr>, w))
           else if offset = regDriverFeatSel then (Inr (), (c\<lparr>driverFeatureSel := ucast val\<rparr>, w))
           else if offset = regDriverFeatures then (Inr (), (set_driver_features val c, w))
           else if offset = regQueueSel then (Inr (), (c\<lparr>queueSel := ucast val\<rparr>, w))
           else if offset = regQueueNum then (Inr (), (on_selected (\<lambda>q. q\<lparr>q_size := ucast val\<rparr>) c, w))
           else if offset = regQueueReady then (Inr (), (on_selected (set_ready val) c, w))
           else if offset = regQueueDescLow then
             (Inr (), (on_selected (\<lambda>q. q\<lparr>descAddr := addr_half (descAddr q) (ucast val) True\<rparr>) c, w))
           else if offset = regQueueDescHigh then
             (Inr (), (on_selected (\<lambda>q. q\<lparr>descAddr := addr_half (descAddr q) (ucast val) False\<rparr>) c, w))
           else if offset = regQueueAvailLow then
             (Inr (), (on_selected (\<lambda>q. q\<lparr>availAddr := addr_half (availAddr q) (ucast val) True\<rparr>) c, w))
           else if offset = regQueueAvailHigh then
             (Inr (), (on_selected (\<lambda>q. q\<lparr>availAddr := addr_half (availAddr q) (ucast val) False\<rparr>) c, w))
           else if offset = regQueueUsedLow then
             (Inr (), (on_selected (\<lambda>q. q\<lparr>usedAddr := addr_half (usedAddr q) (ucast val) True\<rparr>) c, w))
           else if offset = regQueueUsedHigh then
             (Inr (), (on_selected (\<lambda>q. q\<lparr>usedAddr := addr_half (usedAddr q) (ucast val) False\<rparr>) c, w))
           else if offset = regInterruptAck then ack_interrupt H val (c, w)
           else if offset = regStatus then
             let c1 = c\<lparr>status := ucast val\<rparr>
             in (Inr (), (if status c1 = 0 then resetLocked c1 else c1, w))
           else if offset = regQueueNotify then
             (if val = of_nat queueTx then Console_processTXLocked H Out (c, w) else (Inr (), (c, w)))
           else (Inr (), (c, w)))"

definition Console_SnapshotState :: "virtio_dev \<Rightarrow> MMIOState" where
  "Console_SnapshotState c = mmio_snapshot c"

definition Console_RestoreState :: "MMIOState \<Rightarrow> virtio_dev \<Rightarrow> virtio_dev" where
  "Console_RestoreState st c = mmio_restore st c"

declare Console_serve.simps [simp del] Console_processTXLocked.simps [simp del] Console_Write.simps [simp del]

section \<open>The bytes of a chain\<close>

lemma Console_readDescriptorLocked_eq:
  "Console_readDescriptorLocked H q i w = readQueueDescriptor H q i w"
  by (simp add: Console_readDescriptorLocked_def readQueueDescriptor_def)

context guest_ram
begin

lemma Console_readChain_loop_bytes:
  assumes "ok w" and "chain_from (desc_table H q w) index ds" and "length ds \<le> n"
    and "bufs_valid (valid w) (readable_bufs ds)"
  shows "Console_readChain_loop n H q out index w = Inr (out @ chain_bytes (view w) ds)"
  using assms(2-)
proof (induction ds arbitrary: n index out)
  case (Cons d ds)
  then obtain k where n: "n = Suc k" by (cases n) auto
  have D: "readQueueDescriptor H q index w = Inr d"
    using Cons.prems(1) by (auto simp: desc_table_def split: sum.splits)
  define chunk where "chunk = (if d_flags d AND descFWrite = 0
    then get_view (view w) (d_addr d) (unat (d_length d)) else [])"
  have chunk: "(if d_flags d AND descFWrite = 0 \<and> 0 < d_length d
      then ReadIPA H (d_addr d) (unat (d_length d)) w else Inr []) = Inr chunk"
    using Cons.prems(3) read_valid [OF assms(1)]
    by (auto simp: chunk_def word_less_nat_alt get_view_def)
  have bytes: "chain_bytes (view w) (d # ds) = chunk @ chain_bytes (view w) ds"
    by (simp add: chunk_def chain_bytes_def)
  have valid: "bufs_valid (valid w) (readable_bufs ds)"
    using Cons.prems(3) by (auto split: if_splits)
  show ?case
  proof (cases "d_flags d AND descFNext = 0")
    case True
    then have "ds = []" using Cons.prems(1) by simp
    moreover have "chain_bytes (view w) [] = []" by (simp add: chain_bytes_def)
    ultimately show ?thesis
      using True chunk bytes by (simp add: n Console_readDescriptorLocked_eq D)
  next
    case False
    then have "chain_from (desc_table H q w) (d_next d) ds" using Cons.prems(1) by simp
    with Cons.IH [of "d_next d" k "out @ chunk"] False valid Cons.prems(2)
    show ?thesis using chunk by (simp add: n Console_readDescriptorLocked_eq D bytes)
  qed
qed simp

lemma Console_readChainLocked_bytes:
  assumes "ok w" and "table_ok (valid w) q" and "chain_ok (valid w) (view w) q head ds"
  shows "Console_readChainLocked H q head w = Inr (chain_bytes (view w) ds)"
proof -
  have c: "chain_from (desc_table H q w) head ds"
    using assms(2,3) desc_table_mem [OF assms(1)] by (simp add: chain_ok_def table_ok_def)
  then show ?thesis
    using Console_readChain_loop_bytes [OF assms(1) c chain_length_le [OF c], of "[]"] assms(3)
      bufs_valid_ok [of "valid w" q "readable_bufs ds"]
    by (simp add: Console_readChainLocked_def chain_ok_def)
qed

end

section \<open>Output\<close>

text \<open>
  A world with an output stream: the writer appends what it is given and touches nothing
  else, and memory and interrupt lines do not write to the stream.
\<close>

locale logged_host = guest_ram H ok view valid
  for H :: "'w host"
    and ok :: "'w \<Rightarrow> bool"
    and view :: "'w \<Rightarrow> u64 \<Rightarrow> u8 option"
    and valid :: "'w \<Rightarrow> u64 \<Rightarrow> nat \<Rightarrow> bool" +
  fixes out :: "'w writer"
    and log :: "'w \<Rightarrow> bytes"
  assumes out_appends: "ok w \<Longrightarrow> \<exists>w'. out data w = (Inr (), w') \<and> log w' = log w @ data \<and>
      ok w' \<and> view w' = view w \<and> valid w' = valid w"
    and write_log: "WriteIPA H a bs w = (r, w') \<Longrightarrow> log w' = log w"
    and irq_log: "SetIRQ H l b w = (r, w') \<Longrightarrow> log w' = log w"
begin

lemma serve_world:
  assumes "ok w" and "Console_serve H (Some out) head (c, w) = (r, (c1, w1))"
  shows "c1 = c \<and> ok w1 \<and> view w1 = view w \<and> valid w1 = valid w"
proof (cases "Console_readChainLocked H (queues c ! queueTx) head w")
  case (Inl e)
  with assms show ?thesis by (simp add: Console_serve.simps)
next
  case (Inr data)
  obtain w2 where "out data w = (Inr (), w2)" "ok w2" "view w2 = view w" "valid w2 = valid w"
    using out_appends [OF assms(1), of data] by blast
  with Inr assms show ?thesis by (auto simp: Console_serve.simps split: if_splits)
qed

lemma serve_chain:
  assumes "ok w" and "table_ok (valid w) (queues c ! queueTx)"
    and "chain_ok (valid w) (view w) (queues c ! queueTx) head ds"
  obtains w1 where "Console_serve H (Some out) head (c, w) =
      (Inr (of_nat (length (chain_bytes (view w) ds))), (c, w1))"
    and "log w1 = log w @ chain_bytes (view w) ds"
proof (cases "chain_bytes (view w) ds = []")
  case True
  with that Console_readChainLocked_bytes [OF assms] show ?thesis
    by (simp add: Console_serve.simps)
next
  case False
  obtain w1 where "out (chain_bytes (view w) ds) w = (Inr (), w1)" "log w1 = log w @ chain_bytes (view w) ds"
    using out_appends [OF assms(1)] by blast
  with that False Console_readChainLocked_bytes [OF assms] show ?thesis
    by (simp add: Console_serve.simps)
qed

lemma writeQueueUsed_log:
  "writeQueueUsed H head n (q, w) = (r, (q', w')) \<Longrightarrow> log w' = log w"
  by (auto simp: writeQueueUsed_def Let_def dest!: write_log split: if_splits prod.splits sum.splits)

end

sublocale logged_host \<subseteq> tx: queue_reader H ok view valid "\<lambda>c. queueTx < length (queues c)"
  "\<lambda>c. queues c ! queueTx" "\<lambda>q. upd_queue queueTx (\<lambda>_. q)" "Console_serve H (Some out)"
proof (unfold_locales, goal_cases)
  case (3 d head w r d1 w1)
  then show ?case
    by (auto simp: Console_serve.simps split: sum.splits if_splits prod.splits)
next
  case (4 d head w r d1 w1)
  then show ?case
    by (auto simp: Console_serve.simps split: sum.splits if_splits prod.splits)
next
  case (5 d w head r d1 w1)
  then show ?case using serve_world by blast
qed simp_all

context logged_host
begin

lemma drain_output:
  assumes "ok w" and "queueTx < length (queues c)" and "q = queues c ! queueTx"
    and "rings_ok (valid w) q" and "table_ok (valid w) q" and "pending q a = length Cs"
    and "\<And>i. i < length Cs \<Longrightarrow>
      chain_ok (valid w) (view w) q (avail_head (view w) q (lastAvailIdx q + of_nat i)) (Cs ! i)"
  shows "\<exists>w'. txLoop (length Cs) H (Some out) a (c, w) =
        (Inr (), (upd_queue queueTx (\<lambda>_. q\<lparr>lastAvailIdx := a, usedIdx := usedIdx q + (a - lastAvailIdx q)\<rparr>) c, w')) \<and>
    log w' = log w @ concat (map (chain_bytes (view w)) Cs) \<and> ok w' \<and> valid w' = valid w \<and>
    used_only q (view w) (view w')"
  using assms
proof (induction Cs arbitrary: c w q)
  case Nil
  then have "a - lastAvailIdx q = 0" by (simp add: pending_def word_unat_eq_iff)
  then have a: "lastAvailIdx q = a" by simp
  have "q\<lparr>lastAvailIdx := lastAvailIdx q\<rparr> = q" for q :: queue by simp
  then have "upd_queue queueTx (\<lambda>_. q\<lparr>lastAvailIdx := a, usedIdx := usedIdx q + (a - lastAvailIdx q)\<rparr>) c = c"
    unfolding a [symmetric] Nil.prems(3) upd_queue_def by simp
  moreover have "txLoop 0 H (Some out) a (c, w) = (Inr (), (c, w))"
    by (rule tx.drain_done) (use a Nil.prems(3) in simp)
  ultimately show ?case using Nil.prems(1) by simp
next
  case (Cons ds Cs)
  let ?q' = "q\<lparr>usedIdx := usedIdx q + 1, lastAvailIdx := lastAvailIdx q + 1\<rparr>"
  let ?h = "avail_head (view w) q (lastAvailIdx q)"
  have c0: "chain_ok (valid w) (view w) (queues c ! queueTx) ?h ds"
    using Cons.prems(7) [of 0] Cons.prems(3) by simp
  have t0: "table_ok (valid w) (queues c ! queueTx)" using Cons.prems(3,5) by simp
  obtain w1 where w1: "Console_serve H (Some out) ?h (c, w) =
      (Inr (of_nat (length (chain_bytes (view w) ds))), (c, w1))" "log w1 = log w @ chain_bytes (view w) ds"
    using serve_chain [OF Cons.prems(1) t0 c0] by blast
  have ne: "lastAvailIdx q \<noteq> a" using Cons.prems(6) by (auto simp: pending_def)
  obtain w2 where w2: "txLoop (Suc (length Cs)) H (Some out) a (c, w) = txLoop (length Cs) H (Some out) a (upd_queue queueTx (\<lambda>_. ?q') c, w2)"
      "writeQueueUsed H ?h (of_nat (length (chain_bytes (view w) ds))) (q, w1) =
        (Inr (), (q\<lparr>usedIdx := usedIdx q + 1\<rparr>, w2))" "ok w2" "valid w2 = valid w"
      "view w2 = put_view (put_view (view w) (used_slot q (usedIdx q))
        (used_elem ?h (of_nat (length (chain_bytes (view w) ds))))) (usedAddr q + 2) (put_le16 (usedIdx q + 1))"
    by (rule tx.drain_round [of w c a _ c w1 ?q' "length Cs"])
      (use Cons.prems ne w1(1) in auto)
  have size: "q_size q \<noteq> 0" using Cons.prems(4) by (simp add: rings_ok_def)
  have only: "used_only q (view w) (view w2)" unfolding w2(5) by (rule used_only_stores [OF size])
  have same: "chain_ok v m ?q' = chain_ok v m q" "table_ok v ?q' = table_ok v q"
      "rings_ok v ?q' = rings_ok v q" "avail_head m ?q' i = avail_head m q i" "used_only ?q' m = used_only q m" for v m i
    by (rule chain_queue_cong ring_addr_cong; simp)+
  have heads: "avail_head (view w2) q i = avail_head (view w) q i" for i
    by (rule used_stores_avail [OF Cons.prems(4) w2(5)])
  have chains: "chain_ok (valid w2) (view w2) ?q'
      (avail_head (view w2) ?q' (lastAvailIdx ?q' + of_nat i)) (Cs ! i)" if "i < length Cs" for i
    using Cons.prems(7) [of "Suc i"] that
    unfolding same heads chain_ok_used_only [OF only Cons.prems(5)] w2(4) by (simp add: add.assoc)
  have IH: "\<exists>w'. txLoop (length Cs) H (Some out) a (upd_queue queueTx (\<lambda>_. ?q') c, w2) =
        (Inr (), (upd_queue queueTx (\<lambda>_. ?q'\<lparr>lastAvailIdx := a, usedIdx := usedIdx ?q' + (a - lastAvailIdx ?q')\<rparr>)
          (upd_queue queueTx (\<lambda>_. ?q') c), w')) \<and>
      log w' = log w2 @ concat (map (chain_bytes (view w2)) Cs) \<and> ok w' \<and> valid w' = valid w2 \<and>
      used_only ?q' (view w2) (view w')"
  proof (rule Cons.IH)
    show "pending ?q' a = length Cs" using pending_pred [OF ne, of "usedIdx q + 1"] Cons.prems(6) by simp
  qed (use Cons.prems(2,4,5) w2(3,4) chains in \<open>simp_all add: same\<close>)
  have log: "log w2 = log w @ chain_bytes (view w) ds"
    using writeQueueUsed_log [OF w2(2)] w1(2) by simp
  have bytes: "map (chain_bytes (view w2)) Cs = map (chain_bytes (view w)) Cs"
  proof (rule nth_equalityI)
    fix i assume "i < length (map (chain_bytes (view w2)) Cs)"
    then show "map (chain_bytes (view w2)) Cs ! i = map (chain_bytes (view w)) Cs ! i"
      using Cons.prems(7) [of "Suc i"] chain_bytes_used_only [OF only] by simp
  qed simp
  have twice: "upd_queue queueTx (\<lambda>_. ?q'\<lparr>lastAvailIdx := a, usedIdx := usedIdx ?q' + (a - lastAvailIdx ?q')\<rparr>)
      (upd_queue queueTx (\<lambda>_. ?q') c) =
      upd_queue queueTx (\<lambda>_. q\<lparr>lastAvailIdx := a, usedIdx := usedIdx q + (a - lastAvailIdx q)\<rparr>) c"
    by (simp add: upd_queue_def)
  from IH obtain w' where w': "txLoop (length Cs) H (Some out) a (upd_queue queueTx (\<lambda>_. ?q') c, w2) =
        (Inr (), (upd_queue queueTx (\<lambda>_. q\<lparr>lastAvailIdx := a, usedIdx := usedIdx q + (a - lastAvailIdx q)\<rparr>) c, w'))"
      "log w' = log w2 @ concat (map (chain_bytes (view w2)) Cs)" "ok w'" "valid w' = valid w2"
      "used_only q (view w2) (view w')"
    unfolding twice same by blast
  show ?case
    by (rule exI [of _ w'])
      (simp only: length_Cons w2(1,4) w' log bytes list.map concat.simps append_assoc
        used_only_trans [OF only w'(5)] simp_thms)
qed

lemma raise_vring_result:
  assumes "raise_vring H (c, w) = (r, (c', w'))" and "ok w"
  shows "queues c' = queues c" "interruptStatus c' = interruptStatus c OR intVring" "irq_mirror c'"
    "log w' = log w" "view w' = view w"
proof -
  have u: "updateIRQLocked H (c\<lparr>interruptStatus := interruptStatus c OR intVring\<rparr>, w) = (r, (c', w'))"
    using assms(1) by (simp add: raise_vring_def)
  show "queues c' = queues c" "interruptStatus c' = interruptStatus c OR intVring"
    using updateIRQLocked_dev [OF u] by simp_all
  show "irq_mirror c'" by (rule updateIRQLocked_mirror [OF u])
  show "log w' = log w" "view w' = view w"
    using updateIRQLocked_world [OF u] irq_log irq_view by auto
qed

lemma processTX_output:
  assumes "ok w" and "queueTx < length (queues c)" and "q = queues c ! queueTx"
    and "mem_attached c" and "q_ready q"
    and "rings_ok (valid w) q" and "table_ok (valid w) q"
    and "a = le16 (get_view (view w) (availAddr q + 2) 2)" and "pending q a = length Cs"
    and "length Cs \<le> unat (q_size q)"
    and "\<And>i. i < length Cs \<Longrightarrow>
      chain_ok (valid w) (view w) q (avail_head (view w) q (lastAvailIdx q + of_nat i)) (Cs ! i)"
  shows "\<exists>r c' w'. Console_processTXLocked H (Some out) (c, w) = (r, (c', w')) \<and>
    log w' = log w @ concat (map (chain_bytes (view w)) Cs) \<and>
    completed (view w) (view w') q (length Cs) \<and>
    queues c' ! queueTx = q\<lparr>lastAvailIdx := a, usedIdx := usedIdx q + of_nat (length Cs)\<rparr> \<and>
    interruptStatus c' = interruptStatus c OR intVring \<and> irq_mirror c'"
proof -
  have size: "q_size q \<noteq> 0" and v: "valid w (availAddr q) 4"
    using assms(6) valid_sub [OF assms(1), of "availAddr q" "avail_bytes q" 0 4]
    by (auto simp: rings_ok_def avail_bytes_def)
  let ?q' = "q\<lparr>lastAvailIdx := a, usedIdx := usedIdx q + (a - lastAvailIdx q)\<rparr>"
  obtain w1 where w1: "txLoop (length Cs) H (Some out) a (c, w) = (Inr (), (upd_queue queueTx (\<lambda>_. ?q') c, w1))"
      "log w1 = log w @ concat (map (chain_bytes (view w)) Cs)" "ok w1"
    using drain_output [OF assms(1-3,6,7,9,11)] by blast
  have idx: "usedIdx q + (a - lastAvailIdx q) = usedIdx q + of_nat (length Cs)"
    by (simp add: pending_def flip: assms(9))
  have done_ring: "completed (view w) (view w1) q (length Cs)"
    using tx.drain_completes [OF assms(1,2) _ _ w1(1)] assms(3,6,9,10) by simp
  have a: "le16 (slice (get_view (view w) (availAddr q) 4) 2 4) = a"
    by (simp add: slice_get_view assms(8))
  obtain r c' w' where rv: "raise_vring H (upd_queue queueTx (\<lambda>_. ?q') c, w1) = (r, (c', w'))"
    by (rule prod_cases3)
  have run: "Console_processTXLocked H (Some out) (c, w) = (r, (c', w'))"
    using assms(4,5) size
    by (simp add: Console_processTXLocked.simps assms(3) [symmetric] read_valid [OF assms(1) v] a
        assms(9) bindE_def w1(1) rv)
  note res = raise_vring_result [OF rv w1(3)]
  have "queues c' ! queueTx = q\<lparr>lastAvailIdx := a, usedIdx := usedIdx q + of_nat (length Cs)\<rparr>"
    using assms(2) by (simp add: res(1) idx)
  with run res w1(2) done_ring show ?thesis by (intro exI [of _ r] exI [of _ c'] exI [of _ w']) simp
qed

end

section \<open>The console on a KVM machine\<close>

text \<open>The writer that records what it is given beside the machine.\<close>

definition record_out :: "(kvm_vm \<times> bytes) writer" where
  "record_out data w = (Inr (), (fst w, snd w @ data))"

interpretation rec: logged_host "fst_host kvm_host" "\<lambda>w. vm_ok (fst w)" "\<lambda>w. vm_view (fst w)"
  "\<lambda>w. vm_valid (fst w)" record_out snd
  by unfold_locales (auto simp: record_out_def split: prod.splits)


text \<open>
  A machine of 66 bytes whose driver published one chain of one descriptor: the table at 0,
  the available ring at 16, the used ring at 32 and the buffer, holding two bytes, at 64.
\<close>

definition demo_mem :: bytes where
  "demo_mem = [64, 0, 0, 0, 0, 0, 0, 0, 2, 0, 0, 0, 0, 0, 0, 0] @ [0, 0, 1, 0, 0, 0] @
     replicate 42 0 @ [104, 105]"

definition demo_queue :: queue where
  "demo_queue = zero_queue\<lparr>q_size := 1, q_ready := True, descAddr := 0, availAddr := 16, usedAddr := 32\<rparr>"

definition demo_console :: virtio_dev where
  "demo_console = Attach ((NewConsole 4096 512 5)\<lparr>queues := [zero_queue, demo_queue]\<rparr>)"

definition demo_chain :: "descriptor list" where
  "demo_chain = [\<lparr>d_addr = 64, d_length = 2, d_flags = 0, d_next = 0\<rparr>]"

lemma demo_len [simp]: "length demo_mem = 66"
  by (simp add: demo_mem_def)

lemma demo_view:
  "unat a + n \<le> 66 \<Longrightarrow> get_view (vm_view (flat_vm demo_mem)) a n = slice demo_mem (unat a) (unat a + n)"
  by (rule flat_vm_get_view) simp_all

lemma demo_queue_sel [simp]:
  "q_size demo_queue = 1" "q_ready demo_queue" "descAddr demo_queue = 0" "availAddr demo_queue = 16"
  "usedAddr demo_queue = 32" "lastAvailIdx demo_queue = 0" "usedIdx demo_queue = 0"
  by (simp_all add: demo_queue_def zero_queue_def)

lemma demo_console_sel [simp]:
  "queues demo_console = [zero_queue, demo_queue]" "mem_attached demo_console" "Base demo_console = 4096"
  "interruptStatus demo_console = 0"
  by (simp_all add: demo_console_def Attach_def NewConsole_def resetLocked_def)

lemma demo_rings:
  "rings_ok (vm_valid (flat_vm demo_mem)) demo_queue" "table_ok (vm_valid (flat_vm demo_mem)) demo_queue"
proof -
  have "apart 32 12 16 6" by (subst apart_sym) (rule apart_no_wrap; simp)
  then show "rings_ok (vm_valid (flat_vm demo_mem)) demo_queue"
    by (simp add: rings_ok_def flat_vm_valid used_bytes_def avail_bytes_def)
  have "apart 32 12 0 16" by (subst apart_sym) (rule apart_no_wrap; simp)
  then show "table_ok (vm_valid (flat_vm demo_mem)) demo_queue"
    by (simp add: table_ok_def flat_vm_valid used_bytes_def)
qed

lemma demo_chain_ok: "chain_ok (vm_valid (flat_vm demo_mem)) (vm_view (flat_vm demo_mem)) demo_queue 0 demo_chain"
proof -
  have "get_view (vm_view (flat_vm demo_mem)) 0 16 = [64, 0, 0, 0, 0, 0, 0, 0, 2, 0, 0, 0, 0, 0, 0, 0]"
    by (simp add: demo_view) (simp add: demo_mem_def slice_def numeral_eq_Suc)
  then have "mem_desc (vm_view (flat_vm demo_mem)) demo_queue 0 = Some (hd demo_chain)"
    by (simp add: mem_desc_def demo_chain_def slice_def decode_descriptor_def le64_def le32_def le16_def)
  moreover have "apart 32 12 64 2" by (rule apart_no_wrap) simp_all
  ultimately show ?thesis
    by (simp add: chain_ok_def demo_chain_def buf_ok_def flat_vm_valid used_bytes_def)
qed

lemma demo_bytes: "chain_bytes (vm_view (flat_vm demo_mem)) demo_chain = [104, 105]"
  by (simp add: chain_bytes_def demo_chain_def demo_view)
    (simp add: demo_mem_def slice_def numeral_eq_Suc)


section \<open>Every console a guest can reach\<close>

lemma Console_serve_dev: "Console_serve H Out head (c, w) = (r, (c', w')) \<Longrightarrow> c' = c"
  by (auto simp: Console_serve.simps split: sum.splits if_splits prod.splits option.splits)

lemma Console_processTX_inv:
  assumes "dev_inv n c" and "Console_processTXLocked H Out (c, w) = (r, (c', w'))"
  shows "dev_inv n c'"
proof -
  have loop: "dev_inv n c'" if "bindE (txLoop k H Out a) (\<lambda>_. raise_vring H) (c, w) = (r, (c', w'))" for k a
    by (rule drain_then_invariant [where P = "dev_inv n", OF _ _ _ assms(1) that])
      (auto dest: Console_serve_dev intro: dev_inv_irq(1) dev_inv_length)
  show ?thesis
    using assms loop by (auto simp: Console_processTXLocked.simps Let_def split: if_splits sum.splits)
qed

lemma Console_Write_inv:
  assumes "dev_inv n c" and "Console_Write H Out addr sz val (c, w) = (r, (c', w'))"
  shows "dev_inv n c'"
proof -
  consider (ack) "addr - Base c = regInterruptAck" | (notify) "addr - Base c = regQueueNotify"
    | (other) "addr - Base c \<noteq> regInterruptAck" "addr - Base c \<noteq> regQueueNotify" by blast
  then show ?thesis
  proof cases
    case ack
    with assms(2) have "ack_interrupt H val (c, w) = (r, (c', w'))"
      by (simp add: Console_Write.simps reg_defs)
    then show ?thesis by (rule dev_inv_irq) (rule dev_inv_length [OF assms(1)])
  next
    case notify
    with assms Console_processTX_inv show ?thesis
      by (auto simp: Console_Write.simps reg_defs split: if_splits)
  next
    case other
    with assms show ?thesis
      by (auto simp: Console_Write.simps Let_def dev_inv_length split: if_splits)
  qed
qed

definition fresh_console :: "virtio_dev \<Rightarrow> bool" where
  "fresh_console c \<longleftrightarrow> (\<exists>base sz irq. c = Attach (NewConsole base sz irq))"

interpretation console: mmio_device fresh_console "Console_Write H Out" Console_RestoreState "dev_inv 2"
  for H :: "'w host" and Out :: "'w writer option"
proof (unfold_locales, goal_cases)
  case (1 d)
  then show ?case
    by (auto simp: fresh_console_def dev_inv_def Attach_def NewConsole_def resetLocked_def irq_mirror_def)
next
  case (2 d addr sz val w r d' w')
  then show ?case by (rule Console_Write_inv)
next
  case (3 d st)
  then show ?case by (simp add: Console_RestoreState_def dev_inv_length)
qed

definition demo_console' :: virtio_dev where
  "demo_console' = (Attach (NewConsole 4096 512 5))\<lparr>queueSel := 1\<rparr>"

text \<open>
  C11 (invariant). Whatever the guest writes, whatever memory it presents and whichever
  snapshots are restored, the console keeps its two queues, so that no register access
  indexes outside them, and its record of the interrupt line agrees with the interrupt
  status.
\<close>

theorem Console_reach_inv:
  assumes "mmio_reach fresh_console (Console_Write H Out) Console_RestoreState c w"
  shows "length (queues c) = 2 \<and> irq_mirror c"
  using console.reach_inv [OF assms] by (simp add: dev_inv_def)

theorem Console_reach_inv_witness:
  "mmio_reach fresh_console (Console_Write (fst_host kvm_host) (Some record_out)) Console_RestoreState
     demo_console' (flat_vm [], []) \<and> length (queues demo_console') = 2 \<and> irq_mirror demo_console'"
proof -
  have fresh: "fresh_console (Attach (NewConsole 4096 512 5))"
    by (auto simp: fresh_console_def)
  have "mmio_reach fresh_console (Console_Write (fst_host kvm_host) (Some record_out)) Console_RestoreState
      (Attach (NewConsole 4096 512 5)) (flat_vm [], [])"
    by (rule mmio_reach.Create) (rule fresh)
  then have r: "mmio_reach fresh_console (Console_Write (fst_host kvm_host) (Some record_out))
      Console_RestoreState demo_console' (flat_vm [], [])"
    by (rule mmio_reach.Write_reg [where addr = "4096 + regQueueSel" and sz = 4 and val = 1])
      (simp add: Console_Write.simps reg_defs Attach_def NewConsole_def resetLocked_def demo_console'_def)
  with Console_reach_inv [OF r] show ?thesis by simp
qed

text \<open>
  C33 (roundtrip). A console restored from the snapshot of another one answers every register
  read as the other did, except the interrupt status, which is cleared. Its queues are those
  of the other one without their memory caches; a queue no driver has set up starts at
  position 0.
\<close>

theorem Console_snapshot_restore:
  assumes "length (queues c0) = length (queues c)" and "Base c0 = Base c" and "mem_attached c0"
  shows "(\<forall>addr sz. addr - Base c \<noteq> regInterruptStatus \<longrightarrow>
      Console_Read addr sz (Console_RestoreState (Console_SnapshotState c) c0) = Console_Read addr sz c) \<and>
    queues (Console_RestoreState (Console_SnapshotState c) c0) = map (settled True) (queues c)"
proof -
  note restored = Console_RestoreState_def Console_SnapshotState_def mmio_restore_snapshot [OF assms(1)]
  have nth: "map (settled True) (queues c) ! unat (queueSel c) = settled True (queues c ! unat (queueSel c))"
    if "queueSel c < of_nat (length (queues c))"
  proof -
    have "unat (queueSel c) < unat (of_nat (length (queues c)) :: u32)"
      using that by (simp add: word_less_nat_alt)
    also have "\<dots> \<le> length (queues c)" by (simp add: unat_of_nat take_bit_eq_mod)
    finally show ?thesis by simp
  qed
  have same: "q_size (settled True q) = q_size q" "q_ready (settled True q) = q_ready q" for q
    by (simp_all add: settled_def clearCache_def)
  show ?thesis
    using assms nth same
    by (auto simp: restored Console_Read_def Let_def settled_def servable_def)
qed

theorem Console_snapshot_restore_witness:
  "Console_Read (4096 + regQueueNum) 4 (Console_RestoreState (Console_SnapshotState
     (demo_console\<lparr>queueSel := 1\<rparr>)) (Attach (NewConsole 4096 512 5))) =
   Console_Read (4096 + regQueueNum) 4 (demo_console\<lparr>queueSel := 1\<rparr>)"
proof -
  have "length (queues (Attach (NewConsole 4096 512 5))) = length (queues (demo_console\<lparr>queueSel := 1\<rparr>))"
    "Base (Attach (NewConsole 4096 512 5)) = Base (demo_console\<lparr>queueSel := 1\<rparr>)"
    "mem_attached (Attach (NewConsole 4096 512 5))"
    by (simp_all add: Attach_def NewConsole_def resetLocked_def)
  from Console_snapshot_restore [OF this] show ?thesis by (simp add: reg_defs)
qed

text \<open>
  C34 (safety). A guest that resets the console while its interrupt is pending leaves the
  interrupt line of the machine high: the reset clears the device's record of the line and
  never calls the interrupt controller, and the next acknowledgement does not lower the line
  either, because the record already says it is low.
\<close>

theorem Console_reset_leaves_line:
  assumes "irq_lines v (IRQ c)" and "irq_attached c"
    and "Console_Write (fst_host kvm_host) Out (Base c + regStatus) 4 0 (c, (v, l)) = (r, (c1, w1))"
    and "Console_Write (fst_host kvm_host) Out (Base c + regInterruptAck) 4 ack (c1, w1) = (r2, (c2, w2))"
  shows "r = Inr () \<and> r2 = Inr () \<and> \<not> irqHigh c2 \<and> interruptStatus c2 = 0 \<and> irq_lines (fst w2) (IRQ c)"
proof -
  have 1: "r = Inr ()" "c1 = resetLocked (c\<lparr>status := 0\<rparr>)" "w1 = (v, l)"
    using assms(3) by (simp_all add: Console_Write.simps reg_defs)
  have "ack_interrupt (fst_host kvm_host) ack (c1, w1) = (r2, (c2, w2))"
    using assms(4) by (simp add: Console_Write.simps reg_defs 1 resetLocked_def)
  moreover have "ack_interrupt (fst_host kvm_host) ack (c1, w1) = (Inr (), (c1, w1))"
    by (simp add: ack_interrupt_def updateIRQLocked_def 1 resetLocked_def)
  ultimately have "r2 = Inr ()" "c2 = c1" "w2 = w1" by simp_all
  with 1 assms(1) show ?thesis by (simp add: resetLocked_def)
qed

theorem Console_reset_leaves_line_witness:
  "\<exists>c v. irq_attached c \<and> irqHigh c \<and> irq_lines v (IRQ c) \<and>
     (\<exists>r c1 w1 r2 c2 w2.
        Console_Write (fst_host kvm_host) None (Base c + regStatus) 4 0 (c, (v, ())) = (r, (c1, w1)) \<and>
        Console_Write (fst_host kvm_host) None (Base c + regInterruptAck) 4 1 (c1, w1) = (r2, (c2, w2)) \<and>
        \<not> irqHigh c2 \<and> irq_lines (fst w2) (IRQ c))"
proof -
  let ?c = "demo_console\<lparr>interruptStatus := 1, irqHigh := True\<rparr>"
  let ?v = "(flat_vm [])\<lparr>irq_lines := \<lambda>_. True\<rparr>"
  obtain r c1 w1 where 1: "Console_Write (fst_host kvm_host) None (Base ?c + regStatus) 4 0 (?c, (?v, ())) = (r, (c1, w1))"
    by (rule prod_cases3)
  obtain r2 c2 w2 where 2: "Console_Write (fst_host kvm_host) None (Base ?c + regInterruptAck) 4 1 (c1, w1) = (r2, (c2, w2))"
    by (rule prod_cases3)
  have "irq_attached ?c" "irqHigh ?c" "irq_lines ?v (IRQ ?c)"
    by (simp_all add: demo_console_def Attach_def)
  then show ?thesis using 1 2 Console_reset_leaves_line [OF _ _ 1 2] by blast
qed

end
