(* ===== verification/Vsock.thy ===== *)
theory Vsock
  imports Console
begin

text \<open>
  The virtio socket device (\<^verbatim>\<open>internal/virtio/vsock.go\<close>, \<^verbatim>\<open>vsock_protocol.go\<close>): streams between
  ports of the guest and ports of a host backend, with the flow control of the protocol.

  The device extends the transport record. A backend connection is a handle; what the device
  does with it is the record \<open>vsock_backend\<close> of operations on the world, and
  \<^verbatim>\<open>SimpleVsockBackend\<close>, with its channels, is one such record. Each handler runs with the
  device locked. A call that would block for ever while it holds the lock is an outcome of its
  own. The goroutine \<^verbatim>\<open>readFromBackend\<close> is the record \<open>backend_reader\<close>, kept in the device, that takes
  one turn per critical section.
\<close>

section \<open>Headers\<close>

definition vsockHeaderSize :: nat where "vsockHeaderSize = 44"
definition vsockTypeStream :: u16 where "vsockTypeStream = 1"
definition vsockOpRequest :: u16 where "vsockOpRequest = 1"
definition vsockOpResponse :: u16 where "vsockOpResponse = 2"
definition vsockOpRST :: u16 where "vsockOpRST = 3"
definition vsockOpShutdown :: u16 where "vsockOpShutdown = 4"
definition vsockOpRW :: u16 where "vsockOpRW = 5"
definition vsockOpCreditUpdate :: u16 where "vsockOpCreditUpdate = 6"
definition vsockOpCreditRequest :: u16 where "vsockOpCreditRequest = 7"
definition vsockShutdownRecv :: u32 where "vsockShutdownRecv = 1"
definition vsockShutdownSend :: u32 where "vsockShutdownSend = 2"
definition VSockCIDHost :: u64 where "VSockCIDHost = 2"

lemmas vsock_ops = vsockOpRequest_def vsockOpResponse_def vsockOpRST_def vsockOpShutdown_def vsockOpRW_def
  vsockOpCreditUpdate_def vsockOpCreditRequest_def

record vsockHeader =
  SrcCID :: u64
  DstCID :: u64
  SrcPort :: u32
  DstPort :: u32
  Len :: u32
  Type :: u16
  Op :: u16
  Flags :: u32
  BufAlloc :: u32
  FwdCnt :: u32

definition parseVsockHeader :: "bytes \<Rightarrow> error + vsockHeader" where
  "parseVsockHeader data =
     (if length data < vsockHeaderSize then Inl ShortHeader
      else Inr \<lparr>SrcCID = le64 (slice data 0 8), DstCID = le64 (slice data 8 16), SrcPort = le32 (slice data 16 20),
        DstPort = le32 (slice data 20 24), Len = le32 (slice data 24 28), Type = le16 (slice data 28 30),
        Op = le16 (slice data 30 32), Flags = le32 (slice data 32 36), BufAlloc = le32 (slice data 36 40),
        FwdCnt = le32 (slice data 40 44)\<rparr>)"

definition encodeVsockHeader :: "vsockHeader \<Rightarrow> bytes" where
  "encodeVsockHeader hdr =
     (let buf = replicate vsockHeaderSize 0;
          b1 = splice (splice buf 0 (put_le64 (SrcCID hdr))) 8 (put_le64 (DstCID hdr));
          b2 = splice (splice b1 16 (put_le32 (SrcPort hdr))) 20 (put_le32 (DstPort hdr));
          b3 = splice (splice b2 24 (put_le32 (Len hdr))) 28 (put_le16 (Type hdr));
          b4 = splice (splice b3 30 (put_le16 (Op hdr))) 32 (put_le32 (Flags hdr))
      in splice (splice b4 36 (put_le32 (BufAlloc hdr))) 40 (put_le32 (FwdCnt hdr)))"

section \<open>The device\<close>

definition mmioDeviceIDVsock :: u64 where "mmioDeviceIDVsock = 19"
definition vsockQueueRX :: nat where "vsockQueueRX = 0"
definition vsockQueueTX :: nat where "vsockQueueTX = 1"
definition vsockQueueEvent :: nat where "vsockQueueEvent = 2"
definition vsockQueueSize :: u64 where "vsockQueueSize = 128"
definition vsockInterruptVring :: u32 where "vsockInterruptVring = 1"
definition vsockDefaultBufSize :: u32 where "vsockDefaultBufSize = 64 * 1024"

record vsockConnKey =
  localPort :: u32
  remotePort :: u32

datatype vsockConnState = vsockConnStateIdle | vsockConnStateConnecting | vsockConnStateConnected | vsockConnStateClosing

text \<open>The backend of a connection is set in every connection the code makes.\<close>

record vsockConnection =
  vc_key :: vsockConnKey
  vc_state :: vsockConnState
  peerAlloc :: u32
  peerCnt :: u32
  txCnt :: u32
  rxCnt :: u32
  creditRequestPending :: bool
  vc_backend :: nat

text \<open>A running \<^verbatim>\<open>readFromBackend\<close>: the bytes it has read and not sent yet.\<close>

record backend_reader =
  rd_conn :: nat
  rd_key :: vsockConnKey
  rd_buf :: bytes
  rd_done :: bool

record vsock = virtio_dev +
  GuestCID :: u64
  backend_set :: bool
  connections :: "vsockConnKey \<rightharpoonup> vsockConnection"
  pendingRx :: "bytes list"
  vs_closed :: bool
  readers :: "backend_reader list"
  mmioReads :: u64
  mmioWrites :: u64
  txNotifies :: u64
  rxNotifies :: u64
  connectRequests :: u64
  queuedRxPackets :: u64
  irqTransitions :: u64

datatype connect_result = ConnectOk nat | ConnectRefused | ConnectBlocks
datatype write_outcome = BackendWrote | BackendFailed | BackendBlocks
datatype read_outcome = BackendData bytes | BackendError | BackendWaits

record 'w vsock_backend =
  vb_connect :: "u32 \<Rightarrow> 'w \<Rightarrow> connect_result \<times> 'w"
  vb_write :: "nat \<Rightarrow> bytes \<Rightarrow> 'w \<Rightarrow> write_outcome \<times> 'w"
  vb_read :: "nat \<Rightarrow> nat \<Rightarrow> 'w \<Rightarrow> read_outcome \<times> 'w"
  vb_close :: "nat \<Rightarrow> 'w \<Rightarrow> 'w"

definition Vsock_resetLocked :: "vsock \<Rightarrow> vsock" where
  "Vsock_resetLocked v = (resetLocked v)\<lparr>connections := Map.empty, pendingRx := []\<rparr>"

definition NewVsock :: "u64 \<Rightarrow> u64 \<Rightarrow> u32 \<Rightarrow> u64 \<Rightarrow> bool \<Rightarrow> vsock" where
  "NewVsock base sz irq guestCID backend = Vsock_resetLocked \<lparr>Base = base, Size = sz, IRQ = irq, LegacyMMIO = False,
     mem_attached = False, irq_attached = False, deviceFeatureSel = 0, driverFeatureSel = 0,
     driverFeatures = 0, queueSel = 0, status = 0, interruptStatus = 0, irqHigh = False,
     configGeneration = 0, queues = [zero_queue, zero_queue, zero_queue], GuestCID = guestCID, backend_set = backend,
     connections = Map.empty, pendingRx = [], vs_closed = False, readers = [], mmioReads = 0, mmioWrites = 0,
     txNotifies = 0, rxNotifies = 0, connectRequests = 0, queuedRxPackets = 0, irqTransitions = 0\<rparr>"

text \<open>An asserted line is asserted again.\<close>

fun Vsock_updateIRQLocked :: "'w host \<Rightarrow> (vsock \<times> 'w, unit) op" where
  "Vsock_updateIRQLocked H (v, w) =
     (if \<not> irq_attached v then (Inr (), (v, w))
      else let level = (interruptStatus v \<noteq> 0)
           in if irqHigh v = level then
                (if level then (case SetIRQ H (IRQ v) True w of (r, w1) \<Rightarrow> (r, (v, w1))) else (Inr (), (v, w)))
              else (case SetIRQ H (IRQ v) level w of
                      (r, w1) \<Rightarrow> (r, (v\<lparr>irqHigh := level, irqTransitions := irqTransitions v + 1\<rparr>, w1))))"

section \<open>Packets for the guest\<close>

definition queueRxPacketLocked :: "bytes \<Rightarrow> vsock \<Rightarrow> vsock" where
  "queueRxPacketLocked packet v = v\<lparr>pendingRx := pendingRx v @ [packet], queuedRxPackets := queuedRxPackets v + 1\<rparr>"

definition sendResponseLocked :: "vsockHeader \<Rightarrow> vsock \<Rightarrow> vsock" where
  "sendResponseLocked hdr v = queueRxPacketLocked (encodeVsockHeader
     \<lparr>SrcCID = VSockCIDHost, DstCID = GuestCID v, SrcPort = DstPort hdr, DstPort = SrcPort hdr, Len = 0,
      Type = vsockTypeStream, Op = vsockOpResponse, Flags = 0, BufAlloc = vsockDefaultBufSize, FwdCnt = 0\<rparr>) v"

definition sendResetLocked :: "vsockHeader \<Rightarrow> vsock \<Rightarrow> vsock" where
  "sendResetLocked hdr v = queueRxPacketLocked (encodeVsockHeader
     \<lparr>SrcCID = VSockCIDHost, DstCID = GuestCID v, SrcPort = DstPort hdr, DstPort = SrcPort hdr, Len = 0,
      Type = vsockTypeStream, Op = vsockOpRST, Flags = 0, BufAlloc = 0, FwdCnt = 0\<rparr>) v"

text \<open>The header of a packet of a connection.\<close>

definition conn_header :: "vsock \<Rightarrow> vsockConnection \<Rightarrow> u16 \<Rightarrow> u32 \<Rightarrow> vsockHeader" where
  "conn_header v conn op len = \<lparr>SrcCID = VSockCIDHost, DstCID = GuestCID v, SrcPort = localPort (vc_key conn),
     DstPort = remotePort (vc_key conn), Len = len, Type = vsockTypeStream, Op = op, Flags = 0,
     BufAlloc = vsockDefaultBufSize, FwdCnt = rxCnt conn\<rparr>"

definition sendCreditUpdateLocked :: "vsockConnection \<Rightarrow> vsock \<Rightarrow> vsock" where
  "sendCreditUpdateLocked conn v = queueRxPacketLocked (encodeVsockHeader (conn_header v conn vsockOpCreditUpdate 0)) v"

text \<open>The functions below update a connection through its pointer: they store it under its key.\<close>

definition put_conn :: "vsockConnection \<Rightarrow> vsock \<Rightarrow> vsock" where
  "put_conn conn v = v\<lparr>connections := (connections v)(vc_key conn \<mapsto> conn)\<rparr>"

definition sendCreditRequestLocked :: "vsockConnection \<Rightarrow> vsock \<Rightarrow> vsock" where
  "sendCreditRequestLocked conn v =
     (if creditRequestPending conn then v
      else let c1 = conn\<lparr>creditRequestPending := True\<rparr>
           in queueRxPacketLocked (encodeVsockHeader (conn_header v c1 vsockOpCreditRequest 0)) (put_conn c1 v))"

definition sendDataLocked :: "vsockConnection \<Rightarrow> bytes \<Rightarrow> vsock \<Rightarrow> vsock" where
  "sendDataLocked conn data v =
     (let c1 = conn\<lparr>txCnt := txCnt conn + of_nat (length data)\<rparr>
      in queueRxPacketLocked (encodeVsockHeader (conn_header v c1 vsockOpRW (of_nat (length data))) @ data) (put_conn c1 v))"

definition vsockPeerCredit :: "vsockConnection \<Rightarrow> u32" where
  "vsockPeerCredit conn =
     (if peerAlloc conn = 0 then 0
      else let used = txCnt conn - peerCnt conn in if peerAlloc conn \<le> used then 0 else peerAlloc conn - used)"

section \<open>The receive queue\<close>

definition Vsock_readDescriptorLocked :: "'w host \<Rightarrow> queue \<Rightarrow> u16 \<Rightarrow> 'w \<Rightarrow> error + descriptor" where
  "Vsock_readDescriptorLocked H q index w =
     (if q_size q \<le> index then Inl DescIndexOutOfRange
      else case ReadIPA H (descAddr q + ucast index * 16) 16 w of
        Inl e \<Rightarrow> Inl e
      | Inr buf \<Rightarrow> Inr (decode_descriptor buf))"

definition Vsock_writeUsedLocked :: "'w host \<Rightarrow> u16 \<Rightarrow> u32 \<Rightarrow> (queue \<times> 'w, unit) op" where
  "Vsock_writeUsedLocked = writeQueueUsed"

text \<open>The loop of \<^verbatim>\<open>fillChainLocked\<close>: the first argument is \<^verbatim>\<open>q.size - i\<close>.\<close>

fun fillChain_loop :: "nat \<Rightarrow> 'w host \<Rightarrow> queue \<Rightarrow> bytes \<Rightarrow> nat \<Rightarrow> u16 \<Rightarrow> ('w, u32) op" where
  "fillChain_loop 0 H q packet offset index w = (Inl DescChainLoop, w)"
| "fillChain_loop (Suc n) H q packet offset index w =
     (case Vsock_readDescriptorLocked H q index w of
        Inl e \<Rightarrow> (Inl e, w)
      | Inr desc \<Rightarrow>
          let chunk = (if d_flags desc AND descFWrite \<noteq> 0 \<and> 0 < d_length desc \<and> offset < length packet
                       then take (unat (d_length desc)) (drop offset packet) else [])
          in (case (if chunk = [] then (Inr (), w) else WriteIPA H (d_addr desc) chunk w) of
                (Inl e, w1) \<Rightarrow> (Inl e, w1)
              | (Inr _, w1) \<Rightarrow>
                  let offset1 = offset + length chunk
                  in if d_flags desc AND descFNext = 0 then
                       (if offset1 < length packet then (Inl RxChainTooSmall, w1) else (Inr (of_nat offset1), w1))
                     else fillChain_loop n H q packet offset1 (d_next desc) w1))"

definition fillChainLocked :: "'w host \<Rightarrow> queue \<Rightarrow> u16 \<Rightarrow> bytes \<Rightarrow> ('w, u32) op" where
  "fillChainLocked H q head packet = fillChain_loop (unat (q_size q)) H q packet 0 head"

text \<open>The loop of \<^verbatim>\<open>processRXLocked\<close>, with its flag \<^verbatim>\<open>processed\<close>.\<close>

fun rxLoop :: "nat \<Rightarrow> 'w host \<Rightarrow> u16 \<Rightarrow> bool \<Rightarrow> (vsock \<times> 'w, bool) op" where
  "rxLoop 0 H availIdx processed (v, w) =
     (if lastAvailIdx (queues v ! vsockQueueRX) = availIdx \<or> pendingRx v = [] then (Inr processed, (v, w))
      else (Inl Diverges, (v, w)))"
| "rxLoop (Suc n) H availIdx processed (v, w) =
     (let q = queues v ! vsockQueueRX
      in if lastAvailIdx q = availIdx \<or> pendingRx v = [] then (Inr processed, (v, w))
         else case readAvailableHead H q (lastAvailIdx q) w of
           Inl e \<Rightarrow> (Inl e, (v, w))
         | Inr head \<Rightarrow>
             (case fillChainLocked H q head (hd (pendingRx v)) w of
                (Inl e, w1) \<Rightarrow> (Inl e, (v, w1))
              | (Inr written, w1) \<Rightarrow>
                  (case Vsock_writeUsedLocked H head written (q, w1) of
                     (Inl e, (q2, w2)) \<Rightarrow> (Inl e, (upd_queue vsockQueueRX (\<lambda>_. q2) v, w2))
                   | (Inr _, (q2, w2)) \<Rightarrow>
                       rxLoop n H availIdx True
                         ((upd_queue vsockQueueRX (\<lambda>_. q2\<lparr>lastAvailIdx := lastAvailIdx q2 + 1\<rparr>) v)\<lparr>pendingRx := tl (pendingRx v)\<rparr>, w2))))"

fun processRXLocked :: "'w host \<Rightarrow> (vsock \<times> 'w, unit) op" where
  "processRXLocked H (v, w) =
     (let q = queues v ! vsockQueueRX
      in if \<not> q_ready q \<or> q_size q = 0 \<or> \<not> mem_attached v \<or> pendingRx v = [] then (Inr (), (v, w))
         else case ReadIPA H (availAddr q) 4 w of
           Inl e \<Rightarrow> (Inl e, (v, w))
         | Inr header \<Rightarrow>
             let availIdx = le16 (slice header 2 4)
             in (case rxLoop (pending q availIdx) H availIdx False (v, w) of
                   (Inl e, s) \<Rightarrow> (Inl e, s)
                 | (Inr processed, (v1, w1)) \<Rightarrow>
                     if processed then Vsock_updateIRQLocked H (v1\<lparr>interruptStatus := interruptStatus v1 OR vsockInterruptVring\<rparr>, w1)
                     else (Inr (), (v1, w1))))"

section \<open>Packets of the guest\<close>

definition packet_key :: "vsockHeader \<Rightarrow> vsockConnKey" where
  "packet_key hdr = \<lparr>localPort = DstPort hdr, remotePort = SrcPort hdr\<rparr>"

definition drop_conn :: "vsockConnKey \<Rightarrow> vsock \<Rightarrow> vsock" where
  "drop_conn key v = v\<lparr>connections := (connections v)(key := None)\<rparr>"

text \<open>The handlers. \<open>Diverges\<close> stands for a backend call that blocks.\<close>

fun handleConnectLocked :: "'w vsock_backend \<Rightarrow> vsockHeader \<Rightarrow> (vsock \<times> 'w, unit) op" where
  "handleConnectLocked B hdr (v, w) =
     (let v1 = v\<lparr>connectRequests := connectRequests v + 1\<rparr>; key = packet_key hdr
      in if \<not> backend_set v1 then (Inr (), (sendResetLocked hdr v1, w))
         else case vb_connect B (DstPort hdr) w of
           (ConnectRefused, w1) \<Rightarrow> (Inr (), (sendResetLocked hdr v1, w1))
         | (ConnectBlocks, w1) \<Rightarrow> (Inl Diverges, (v1, w1))
         | (ConnectOk conn, w1) \<Rightarrow>
             let v2 = put_conn \<lparr>vc_key = key, vc_state = vsockConnStateConnected, peerAlloc = BufAlloc hdr,
                   peerCnt = FwdCnt hdr, txCnt = 0, rxCnt = 0, creditRequestPending = False, vc_backend = conn\<rparr> v1;
                 v3 = sendResponseLocked hdr v2
             in (Inr (), (v3\<lparr>readers := readers v3 @ [\<lparr>rd_conn = conn, rd_key = key, rd_buf = [], rd_done = False\<rparr>]\<rparr>, w1)))"

definition handleResponseLocked :: "vsockHeader \<Rightarrow> vsock \<Rightarrow> vsock" where
  "handleResponseLocked hdr v =
     (case connections v (packet_key hdr) of
        None \<Rightarrow> sendResetLocked hdr v
      | Some conn \<Rightarrow>
          if vc_state conn \<noteq> vsockConnStateConnecting then sendResetLocked hdr v
          else put_conn (conn\<lparr>vc_state := vsockConnStateConnected, peerAlloc := BufAlloc hdr, peerCnt := FwdCnt hdr\<rparr>) v)"

fun handleResetLocked :: "'w vsock_backend \<Rightarrow> vsockHeader \<Rightarrow> vsock \<times> 'w \<Rightarrow> vsock \<times> 'w" where
  "handleResetLocked B hdr (v, w) =
     (case connections v (packet_key hdr) of
        None \<Rightarrow> (v, w)
      | Some conn \<Rightarrow> (drop_conn (packet_key hdr) v, vb_close B (vc_backend conn) w))"

fun handleShutdownLocked :: "'w vsock_backend \<Rightarrow> vsockHeader \<Rightarrow> vsock \<times> 'w \<Rightarrow> vsock \<times> 'w" where
  "handleShutdownLocked B hdr (v, w) =
     (case connections v (packet_key hdr) of
        None \<Rightarrow> (v, w)
      | Some conn \<Rightarrow> (drop_conn (packet_key hdr) (sendResetLocked hdr v), vb_close B (vc_backend conn) w))"

fun handleDataLocked :: "'w vsock_backend \<Rightarrow> vsockHeader \<Rightarrow> bytes \<Rightarrow> (vsock \<times> 'w, unit) op" where
  "handleDataLocked B hdr payload (v, w) =
     (case connections v (packet_key hdr) of
        None \<Rightarrow> (Inr (), (sendResetLocked hdr v, w))
      | Some conn \<Rightarrow>
          if vc_state conn \<noteq> vsockConnStateConnected then (Inr (), (sendResetLocked hdr v, w))
          else
            let c1 = conn\<lparr>peerAlloc := BufAlloc hdr, peerCnt := FwdCnt hdr\<rparr>
            in if payload = [] then (Inr (), (sendCreditUpdateLocked c1 (put_conn c1 v), w))
               else
                 let c2 = c1\<lparr>rxCnt := rxCnt c1 + of_nat (length payload)\<rparr>; v1 = put_conn c2 v
                 in (case vb_write B (vc_backend conn) payload w of
                       (BackendWrote, w1) \<Rightarrow> (Inr (), (sendCreditUpdateLocked c2 v1, w1))
                     | (BackendFailed, w1) \<Rightarrow>
                         (Inr (), (drop_conn (packet_key hdr) (sendResetLocked hdr v1), vb_close B (vc_backend conn) w1))
                     | (BackendBlocks, w1) \<Rightarrow> (Inl Diverges, (v1, w1))))"

definition handleCreditUpdateLocked :: "vsockHeader \<Rightarrow> vsock \<Rightarrow> vsock" where
  "handleCreditUpdateLocked hdr v =
     (case connections v (packet_key hdr) of
        None \<Rightarrow> v
      | Some conn \<Rightarrow> put_conn (conn\<lparr>peerAlloc := BufAlloc hdr, peerCnt := FwdCnt hdr, creditRequestPending := False\<rparr>) v)"

definition handleCreditRequestLocked :: "vsockHeader \<Rightarrow> vsock \<Rightarrow> vsock" where
  "handleCreditRequestLocked hdr v =
     (case connections v (packet_key hdr) of None \<Rightarrow> v | Some conn \<Rightarrow> sendCreditUpdateLocked conn v)"

text \<open>The part of \<^verbatim>\<open>handleTXPacketLocked\<close> after the chain is read.\<close>

fun guest_packet :: "'w vsock_backend \<Rightarrow> bytes \<Rightarrow> (vsock \<times> 'w, unit) op" where
  "guest_packet B data (v, w) =
     (if length data < vsockHeaderSize then (Inr (), (v, w))
      else case parseVsockHeader data of
        Inl e \<Rightarrow> (Inl e, (v, w))
      | Inr hdr \<Rightarrow>
          let payload = drop vsockHeaderSize data
          in if (of_nat (length payload) :: u32) < Len hdr then (Inl PayloadTruncated, (v, w))
             else
               let payload1 = take (unat (Len hdr)) payload
               in if Op hdr = vsockOpRequest then handleConnectLocked B hdr (v, w)
                  else if Op hdr = vsockOpResponse then (Inr (), (handleResponseLocked hdr v, w))
                  else if Op hdr = vsockOpRST then (Inr (), handleResetLocked B hdr (v, w))
                  else if Op hdr = vsockOpShutdown then (Inr (), handleShutdownLocked B hdr (v, w))
                  else if Op hdr = vsockOpRW then handleDataLocked B hdr payload1 (v, w)
                  else if Op hdr = vsockOpCreditUpdate then (Inr (), (handleCreditUpdateLocked hdr v, w))
                  else if Op hdr = vsockOpCreditRequest then (Inr (), (handleCreditRequestLocked hdr v, w))
                  else (Inr (), (v, w)))"

section \<open>The transmit queue\<close>

fun Vsock_readChain_loop :: "nat \<Rightarrow> 'w host \<Rightarrow> queue \<Rightarrow> bytes \<Rightarrow> u16 \<Rightarrow> 'w \<Rightarrow> error + bytes" where
  "Vsock_readChain_loop 0 H q out index w = Inl DescChainLoop"
| "Vsock_readChain_loop (Suc n) H q out index w =
     (case Vsock_readDescriptorLocked H q index w of
        Inl e \<Rightarrow> Inl e
      | Inr desc \<Rightarrow>
          (case (if d_flags desc AND descFWrite = 0 \<and> 0 < d_length desc
                 then ReadIPA H (d_addr desc) (unat (d_length desc)) w else Inr []) of
             Inl e \<Rightarrow> Inl e
           | Inr chunk \<Rightarrow>
               if d_flags desc AND descFNext = 0 then Inr (out @ chunk)
               else Vsock_readChain_loop n H q (out @ chunk) (d_next desc) w))"

definition Vsock_readChainLocked :: "'w host \<Rightarrow> queue \<Rightarrow> u16 \<Rightarrow> 'w \<Rightarrow> error + bytes" where
  "Vsock_readChainLocked H q head w = Vsock_readChain_loop (unat (q_size q)) H q [] head w"

fun handleTXPacketLocked :: "'w host \<Rightarrow> 'w vsock_backend \<Rightarrow> u16 \<Rightarrow> (vsock \<times> 'w, u32) op" where
  "handleTXPacketLocked H B head (v, w) =
     (case Vsock_readChainLocked H (queues v ! vsockQueueTX) head w of
        Inl e \<Rightarrow> (Inl e, (v, w))
      | Inr data \<Rightarrow>
          (case guest_packet B data (v, w) of
             (Inl e, s1) \<Rightarrow> (Inl e, s1)
           | (Inr _, s1) \<Rightarrow> (Inr (of_nat (length data)), s1)))"

abbreviation vsockTxLoop :: "nat \<Rightarrow> 'w host \<Rightarrow> 'w vsock_backend \<Rightarrow> u16 \<Rightarrow> (vsock \<times> 'w, unit) op" where
  "vsockTxLoop n H B \<equiv>
     drain n H (\<lambda>v. queues v ! vsockQueueTX) (\<lambda>q. upd_queue vsockQueueTX (\<lambda>_. q)) (handleTXPacketLocked H B)"

fun Vsock_raise :: "'w host \<Rightarrow> (vsock \<times> 'w, unit) op" where
  "Vsock_raise H (v, w) = Vsock_updateIRQLocked H (v\<lparr>interruptStatus := interruptStatus v OR vsockInterruptVring\<rparr>, w)"

fun Vsock_processTXLocked :: "'w host \<Rightarrow> 'w vsock_backend \<Rightarrow> (vsock \<times> 'w, unit) op" where
  "Vsock_processTXLocked H B (v, w) =
     (let q = queues v ! vsockQueueTX
      in if \<not> q_ready q \<or> q_size q = 0 \<or> \<not> mem_attached v then (Inr (), (v, w))
         else case ReadIPA H (availAddr q) 4 w of
           Inl e \<Rightarrow> (Inl e, (v, w))
         | Inr header \<Rightarrow>
             let availIdx = le16 (slice header 2 4)
             in bindE (vsockTxLoop (pending q availIdx) H B availIdx)
                  (\<lambda>_. bindE (processRXLocked H) (\<lambda>_. Vsock_raise H)) (v, w))"

section \<open>Registers\<close>

definition Vsock_configBytesLocked :: "vsock \<Rightarrow> bytes" where
  "Vsock_configBytesLocked v = put_le64 (GuestCID v)"

definition Vsock_Read :: "u64 \<Rightarrow> nat \<Rightarrow> vsock \<Rightarrow> (error + u64) \<times> vsock" where
  "Vsock_Read addr sz v0 =
     (let v = v0\<lparr>mmioReads := mmioReads v0 + 1\<rparr>; offset = addr - Base v; selected = queueSel v < of_nat (length (queues v));
          q = queues v ! unat (queueSel v)
      in (if offset = regMagicValue then Inr (truncateValue mmioMagicValue sz)
          else if offset = regVersion then Inr (truncateValue (ucast mmioVersion) sz)
          else if offset = regDeviceID then Inr (truncateValue mmioDeviceIDVsock sz)
          else if offset = regVendorID then Inr (truncateValue mmioVendorID sz)
          else if offset = regDeviceFeatures then (if deviceFeatureSel v = 1 then Inr (truncateValue 1 sz) else Inr 0)
          else if offset = regQueueNumMax then (if selected then Inr (truncateValue vsockQueueSize sz) else Inr 0)
          else if offset = regQueueNum then (if selected then Inr (truncateValue (ucast (q_size q)) sz) else Inr 0)
          else if offset = regQueueReady then (if selected \<and> q_ready q then Inr (truncateValue 1 sz) else Inr 0)
          else if offset = regInterruptStatus then Inr (truncateValue (ucast (interruptStatus v)) sz)
          else if offset = regStatus then Inr (truncateValue (ucast (status v)) sz)
          else if offset = regConfigGen then Inr (truncateValue (ucast (configGeneration v)) sz)
          else if regConfig \<le> offset \<and> offset + of_nat sz \<le> regConfig + 8 then
            (case readConfigValue (drop (unat (offset - regConfig)) (Vsock_configBytesLocked v)) sz of
               Inl e \<Rightarrow> Inl e
             | Inr val \<Rightarrow> Inr (truncateValue val sz))
          else Inr 0, v))"

fun Vsock_Write :: "'w host \<Rightarrow> 'w vsock_backend \<Rightarrow> u64 \<Rightarrow> nat \<Rightarrow> u64 \<Rightarrow> (vsock \<times> 'w, unit) op" where
  "Vsock_Write H B addr sz val (v0, w) =
     (let v = v0\<lparr>mmioWrites := mmioWrites v0 + 1\<rparr>; offset = addr - Base v
      in if offset = regDeviceFeatSel then (Inr (), (v\<lparr>deviceFeatureSel := ucast val\<rparr>, w))
         else if offset = regDriverFeatSel then (Inr (), (v\<lparr>driverFeatureSel := ucast val\<rparr>, w))
         else if offset = regDriverFeatures then (Inr (), (set_driver_features val v, w))
         else if offset = regQueueSel then (Inr (), (v\<lparr>queueSel := ucast val\<rparr>, w))
         else if offset = regQueueNum then (Inr (), (on_selected (\<lambda>q. q\<lparr>q_size := ucast val\<rparr>) v, w))
         else if offset = regQueueReady then (Inr (), (on_selected (set_ready val) v, w))
         else if offset = regQueueDescLow then
           (Inr (), (on_selected (\<lambda>q. q\<lparr>descAddr := addr_half (descAddr q) (ucast val) True\<rparr>) v, w))
         else if offset = regQueueDescHigh then
           (Inr (), (on_selected (\<lambda>q. q\<lparr>descAddr := addr_half (descAddr q) (ucast val) False\<rparr>) v, w))
         else if offset = regQueueAvailLow then
           (Inr (), (on_selected (\<lambda>q. q\<lparr>availAddr := addr_half (availAddr q) (ucast val) True\<rparr>) v, w))
         else if offset = regQueueAvailHigh then
           (Inr (), (on_selected (\<lambda>q. q\<lparr>availAddr := addr_half (availAddr q) (ucast val) False\<rparr>) v, w))
         else if offset = regQueueUsedLow then
           (Inr (), (on_selected (\<lambda>q. q\<lparr>usedAddr := addr_half (usedAddr q) (ucast val) True\<rparr>) v, w))
         else if offset = regQueueUsedHigh then
           (Inr (), (on_selected (\<lambda>q. q\<lparr>usedAddr := addr_half (usedAddr q) (ucast val) False\<rparr>) v, w))
         else if offset = regInterruptAck then
           Vsock_updateIRQLocked H (v\<lparr>interruptStatus := interruptStatus v AND NOT (ucast val)\<rparr>, w)
         else if offset = regStatus then
           let v1 = v\<lparr>status := ucast val\<rparr>
           in (Inr (), (if status v1 = 0 then Vsock_resetLocked v1 else v1, w))
         else if offset = regQueueNotify then
           (if val = of_nat vsockQueueTX then Vsock_processTXLocked H B (v\<lparr>txNotifies := txNotifies v + 1\<rparr>, w)
            else if val = of_nat vsockQueueRX then processRXLocked H (v\<lparr>rxNotifies := rxNotifies v + 1\<rparr>, w)
            else (Inr (), (v, w)))
         else (Inr (), (v, w)))"

definition Vsock_SnapshotState :: "vsock \<Rightarrow> MMIOState" where
  "Vsock_SnapshotState v = mmio_snapshot v"

definition Vsock_RestoreState :: "MMIOState \<Rightarrow> vsock \<Rightarrow> vsock" where
  "Vsock_RestoreState st v = (mmio_restore st v)\<lparr>connections := Map.empty, pendingRx := []\<rparr>"

section \<open>Calls of the host\<close>

text \<open>
  \<^verbatim>\<open>Close\<close> closes the backend of every connection in the table, in an unspecified order: the
  argument lists the keys. It then waits for the readers, which is not part of this model.
\<close>

fun Vsock_Close :: "'w vsock_backend \<Rightarrow> vsockConnKey list \<Rightarrow> vsock \<times> 'w \<Rightarrow> vsock \<times> 'w" where
  "Vsock_Close B keys (v, w) =
     (if vs_closed v then (v, w)
      else (v\<lparr>vs_closed := True, connections := Map.empty\<rparr>,
            fold (\<lambda>key. case connections v key of None \<Rightarrow> id | Some conn \<Rightarrow> vb_close B (vc_backend conn)) keys w))"

fun Vsock_Poke :: "'w host \<Rightarrow> (vsock \<times> 'w, unit) op" where
  "Vsock_Poke H (v, w) =
     (case processRXLocked H (v, w) of
        (Inl e, s) \<Rightarrow> (Inl e, s)
      | (Inr _, (v1, w1)) \<Rightarrow>
          if \<not> irq_attached v1 then (Inr (), (v1, w1))
          else
            let v2 = v1\<lparr>interruptStatus := interruptStatus v1 OR vsockInterruptVring\<rparr>
            in if irqHigh v2 then
                 (case SetIRQ H (IRQ v2) False w1 of
                    (Inl e, w2) \<Rightarrow> (Inl e, (v2, w2))
                  | (Inr _, w2) \<Rightarrow> Vsock_updateIRQLocked H (v2\<lparr>irqHigh := False, irqTransitions := irqTransitions v2 + 1\<rparr>, w2))
               else Vsock_updateIRQLocked H (v2, w1))"

definition Vsock_Kick :: "'w host \<Rightarrow> (vsock \<times> 'w, unit) op" where
  "Vsock_Kick H = Vsock_raise H"

definition IRQAsserted :: "vsock \<Rightarrow> bool" where
  "IRQAsserted v \<longleftrightarrow> interruptStatus v \<noteq> 0 \<or> irqHigh v"

section \<open>The readers\<close>

definition set_reader :: "nat \<Rightarrow> backend_reader \<Rightarrow> vsock \<Rightarrow> vsock" where
  "set_reader i rd v = v\<lparr>readers := (readers v)[i := rd]\<rparr>"

text \<open>
  One turn of \<^verbatim>\<open>readFromBackend\<close>: a read of the backend when nothing is left to send, else one
  round of the inner loop. The flag says that the critical section goes on with
  \<^verbatim>\<open>processRXLocked\<close>, whose result is dropped (\<open>reader_step\<close>). A turn without credit leaves the
  reader waiting; it may wake at any time.
\<close>

fun reader_turn :: "'w vsock_backend \<Rightarrow> nat \<Rightarrow> vsock \<times> 'w \<Rightarrow> bool \<times> vsock \<times> 'w" where
  "reader_turn B i (v, w) =
     (let rd = readers v ! i; stop = set_reader i (rd\<lparr>rd_done := True\<rparr>)
      in if length (readers v) \<le> i \<or> rd_done rd then (False, (v, w))
         else if rd_buf rd = [] then
           if vs_closed v then (False, (stop v, w))
           else (case vb_read B (rd_conn rd) 3072 w of
                   (BackendWaits, w1) \<Rightarrow> (False, (v, w1))
                 | (BackendData data, w1) \<Rightarrow> (False, (set_reader i (rd\<lparr>rd_buf := data\<rparr>) v, w1))
                 | (BackendError, w1) \<Rightarrow>
                     (case connections v (rd_key rd) of
                        None \<Rightarrow> (False, (stop v, w1))
                      | Some conn \<Rightarrow>
                          if vc_state conn \<noteq> vsockConnStateConnected then (False, (stop v, w1))
                          else (True, (stop (put_conn (conn\<lparr>vc_state := vsockConnStateClosing\<rparr>) (queueRxPacketLocked (encodeVsockHeader
                            \<lparr>SrcCID = VSockCIDHost, DstCID = GuestCID v, SrcPort = localPort (rd_key rd),
                             DstPort = remotePort (rd_key rd), Len = 0, Type = vsockTypeStream, Op = vsockOpShutdown,
                             Flags = vsockShutdownRecv OR vsockShutdownSend, BufAlloc = 0, FwdCnt = 0\<rparr>) v)), w1))))
         else
           (case connections v (rd_key rd) of
              None \<Rightarrow> (False, (stop v, w))
            | Some conn \<Rightarrow>
                if vc_state conn \<noteq> vsockConnStateConnected then (False, (stop v, w))
                else
                  let credit = vsockPeerCredit conn
                  in if credit = 0 then (True, (sendCreditRequestLocked conn v, w))
                     else
                       let chunk = (if credit < of_nat (length (rd_buf rd)) then unat credit else length (rd_buf rd))
                       in (True, (set_reader i (rd\<lparr>rd_buf := drop chunk (rd_buf rd)\<rparr>) (sendDataLocked conn (take chunk (rd_buf rd)) v), w))))"

definition reader_step :: "'w host \<Rightarrow> 'w vsock_backend \<Rightarrow> nat \<Rightarrow> vsock \<times> 'w \<Rightarrow> vsock \<times> 'w" where
  "reader_step H B i s = (case reader_turn B i s of (rx, s1) \<Rightarrow> if rx then snd (processRXLocked H s1) else s1)"

section \<open>The backend of the source\<close>

text \<open>
  \<^verbatim>\<open>SimpleVsockBackend\<close>: connections are pairs of ends, each with a channel of at most 64 chunks
  that the other end writes to. An end is an index into the store of ends. Where several cases
  of a \<^verbatim>\<open>select\<close> are ready the runtime chooses; the argument \<open>pick\<close> is the choice of the channel.
\<close>

record simple_conn =
  sc_localPort :: u32
  sc_remotePort :: u32
  sc_peer :: nat
  sc_readCh :: "bytes list"
  sc_closed :: bool
  sc_readBuf :: bytes

record simple_listener =
  sl_port :: u32
  sl_conns :: "nat list"
  sl_closed :: bool

record simple_backend =
  sb_listeners :: "u32 \<rightharpoonup> simple_listener"
  sb_ends :: "simple_conn list"

definition NewSimpleVsockBackend :: simple_backend where
  "NewSimpleVsockBackend = \<lparr>sb_listeners = Map.empty, sb_ends = []\<rparr>"

definition simple_Listen :: "u32 \<Rightarrow> simple_backend \<Rightarrow> bool \<times> simple_backend" where
  "simple_Listen port b =
     (if sb_listeners b port \<noteq> None then (False, b)
      else (True, b\<lparr>sb_listeners := (sb_listeners b)(port \<mapsto> \<lparr>sl_port = port, sl_conns = [], sl_closed = False\<rparr>)\<rparr>))"

definition simple_Connect :: "bool \<Rightarrow> u32 \<Rightarrow> simple_backend \<Rightarrow> connect_result \<times> simple_backend" where
  "simple_Connect pick port b =
     (case sb_listeners b port of
        None \<Rightarrow> (ConnectRefused, b)
      | Some l \<Rightarrow>
          let c = length (sb_ends b); s = Suc c;
              clientSide = \<lparr>sc_localPort = 0, sc_remotePort = port, sc_peer = s, sc_readCh = [], sc_closed = False, sc_readBuf = []\<rparr>;
              serverSide = \<lparr>sc_localPort = port, sc_remotePort = 0, sc_peer = c, sc_readCh = [], sc_closed = False, sc_readBuf = []\<rparr>
          in if length (sl_conns l) < 16 \<and> (pick \<or> \<not> sl_closed l) then
               (ConnectOk c, b\<lparr>sb_listeners := (sb_listeners b)(port \<mapsto> l\<lparr>sl_conns := sl_conns l @ [s]\<rparr>),
                  sb_ends := sb_ends b @ [clientSide, serverSide]\<rparr>)
             else if sl_closed l then (ConnectRefused, b) else (ConnectBlocks, b))"

text \<open>The outcome of \<^verbatim>\<open>Accept\<close>: an end, an error (\<open>Some None\<close>), or that it waits.\<close>

definition simple_Accept :: "bool \<Rightarrow> u32 \<Rightarrow> simple_backend \<Rightarrow> nat option option \<times> simple_backend" where
  "simple_Accept pick port b =
     (case sb_listeners b port of
        None \<Rightarrow> (None, b)
      | Some l \<Rightarrow>
          if sl_conns l \<noteq> [] \<and> (pick \<or> \<not> sl_closed l) then
            let i = hd (sl_conns l)
            in (Some (Some i), b\<lparr>sb_listeners := (sb_listeners b)(port \<mapsto> l\<lparr>sl_conns := tl (sl_conns l)\<rparr>),
                  sb_ends := (sb_ends b)[i := (sb_ends b ! i)\<lparr>sc_readBuf := []\<rparr>]\<rparr>)
          else if sl_closed l then (Some None, b) else (None, b))"

definition simple_Listener_Close :: "u32 \<Rightarrow> simple_backend \<Rightarrow> simple_backend" where
  "simple_Listener_Close port b =
     (case sb_listeners b port of
        None \<Rightarrow> b | Some l \<Rightarrow> b\<lparr>sb_listeners := (sb_listeners b)(port \<mapsto> l\<lparr>sl_closed := True\<rparr>)\<rparr>)"

definition simple_Read :: "bool \<Rightarrow> nat \<Rightarrow> nat \<Rightarrow> simple_backend \<Rightarrow> read_outcome \<times> simple_backend" where
  "simple_Read pick i n b =
     (let c = sb_ends b ! i
      in if sc_readBuf c \<noteq> [] then
           (BackendData (take n (sc_readBuf c)), b\<lparr>sb_ends := (sb_ends b)[i := c\<lparr>sc_readBuf := drop n (sc_readBuf c)\<rparr>]\<rparr>)
         else case sc_readCh c of
           data # rest \<Rightarrow>
             if pick \<or> \<not> sc_closed c then
               (BackendData (take n data), b\<lparr>sb_ends := (sb_ends b)[i := c\<lparr>sc_readCh := rest, sc_readBuf := drop n data\<rparr>]\<rparr>)
             else (BackendError, b)
         | [] \<Rightarrow> if sc_closed c then (BackendError, b) else (BackendWaits, b))"

definition simple_Write :: "bool \<Rightarrow> nat \<Rightarrow> bytes \<Rightarrow> simple_backend \<Rightarrow> write_outcome \<times> simple_backend" where
  "simple_Write pick i data b =
     (let c = sb_ends b ! i; j = sc_peer c; p = sb_ends b ! j; gone = (sc_closed p \<or> sc_closed c)
      in if length (sc_readCh p) < 64 \<and> (pick \<or> \<not> gone) then
           (BackendWrote, b\<lparr>sb_ends := (sb_ends b)[j := p\<lparr>sc_readCh := sc_readCh p @ [data]\<rparr>]\<rparr>)
         else if gone then (BackendFailed, b) else (BackendBlocks, b))"

definition simple_Close :: "nat \<Rightarrow> simple_backend \<Rightarrow> simple_backend" where
  "simple_Close i b = b\<lparr>sb_ends := (sb_ends b)[i := (sb_ends b ! i)\<lparr>sc_closed := True\<rparr>]\<rparr>"

definition simple_vsock :: "bool \<Rightarrow> ('a \<times> simple_backend) vsock_backend" where
  "simple_vsock pick =
     \<lparr>vb_connect = (\<lambda>port (m, b). case simple_Connect pick port b of (r, b1) \<Rightarrow> (r, (m, b1))),
      vb_write = (\<lambda>i data (m, b). case simple_Write pick i data b of (r, b1) \<Rightarrow> (r, (m, b1))),
      vb_read = (\<lambda>i n (m, b). case simple_Read pick i n b of (r, b1) \<Rightarrow> (r, (m, b1))),
      vb_close = (\<lambda>i (m, b). (m, simple_Close i b))\<rparr>"

lemmas vsock_fun_defs [simp del] = Vsock_updateIRQLocked.simps fillChain_loop.simps rxLoop.simps processRXLocked.simps
  handleConnectLocked.simps handleResetLocked.simps handleShutdownLocked.simps handleDataLocked.simps guest_packet.simps
  Vsock_readChain_loop.simps handleTXPacketLocked.simps Vsock_raise.simps Vsock_processTXLocked.simps Vsock_Write.simps
  Vsock_Close.simps Vsock_Poke.simps reader_turn.simps

section \<open>Headers round trip\<close>

text \<open>A buffer written from the front, the rest still zero.\<close>

definition zero_fill :: "nat \<Rightarrow> bytes \<Rightarrow> bytes" where
  "zero_fill n xs = xs @ replicate (n - length xs) 0"

lemma splice_zero_fill:
  "i = length xs \<Longrightarrow> length xs + length d \<le> n \<Longrightarrow> splice (zero_fill n xs) i d = zero_fill n (xs @ d)"
  by (simp add: zero_fill_def splice_def)

lemma encodeVsockHeader_eq:
  "encodeVsockHeader hdr = put_le64 (SrcCID hdr) @ put_le64 (DstCID hdr) @ put_le32 (SrcPort hdr) @ put_le32 (DstPort hdr) @
     put_le32 (Len hdr) @ put_le16 (Type hdr) @ put_le16 (Op hdr) @ put_le32 (Flags hdr) @ put_le32 (BufAlloc hdr) @
     put_le32 (FwdCnt hdr)"
proof -
  have "replicate vsockHeaderSize 0 = zero_fill 44 []" by (simp add: zero_fill_def vsockHeaderSize_def)
  then have "encodeVsockHeader hdr = zero_fill 44 (put_le64 (SrcCID hdr) @ put_le64 (DstCID hdr) @ put_le32 (SrcPort hdr) @
      put_le32 (DstPort hdr) @ put_le32 (Len hdr) @ put_le16 (Type hdr) @ put_le16 (Op hdr) @ put_le32 (Flags hdr) @
      put_le32 (BufAlloc hdr) @ put_le32 (FwdCnt hdr))"
    by (simp add: encodeVsockHeader_def Let_def splice_zero_fill)
  then show ?thesis by (simp add: zero_fill_def)
qed

lemma length_encodeVsockHeader [simp]: "length (encodeVsockHeader hdr) = vsockHeaderSize"
  by (simp add: encodeVsockHeader_eq vsockHeaderSize_def)

lemma slice_skip: "length xs \<le> i \<Longrightarrow> slice (xs @ ys) i j = slice ys (i - length xs) (j - length xs)"
  by (simp add: slice_def)

lemma slice_front: "j = length xs \<Longrightarrow> slice (xs @ ys) 0 j = xs"
  by (simp add: slice_def)

lemma parse_encodeVsockHeader [simp]: "parseVsockHeader (encodeVsockHeader hdr @ payload) = Inr hdr"
  by (simp add: parseVsockHeader_def, simp add: encodeVsockHeader_eq slice_skip slice_front vsockHeaderSize_def)

end
