(* ===== verification/VsockStream.thy ===== *)
theory VsockStream
  imports Vsock
begin

text \<open>
  The streams of the socket device. From the host to the guest: over any interleaving of guest
  packets, turns of the readers and deliveries to the receive queue, the data packets queued for a
  connection carry a prefix of what its reader read, within the credit the guest gave. The
  other direction, from the transmit queue to the backend, is in \<open>VsockTransmit\<close>.
\<close>

section \<open>What the parts of the device leave alone\<close>

definition rx_frame :: "vsock \<Rightarrow> vsock \<Rightarrow> bool" where
  "rx_frame v v1 \<longleftrightarrow> connections v1 = connections v \<and> readers v1 = readers v \<and> GuestCID v1 = GuestCID v \<and>
     (\<exists>k. pendingRx v1 = drop k (pendingRx v))"

lemma rx_frame_trans: "rx_frame v v1 \<Longrightarrow> rx_frame v1 v2 \<Longrightarrow> rx_frame v v2"
  by (auto simp: rx_frame_def)

lemma rx_frame_same:
  "connections v1 = connections v \<Longrightarrow> readers v1 = readers v \<Longrightarrow> GuestCID v1 = GuestCID v \<Longrightarrow> pendingRx v1 = pendingRx v \<Longrightarrow>
     rx_frame v v1"
  by (auto simp: rx_frame_def intro: exI [of _ 0])

lemma upd_queue_vsock [simp]:
  "connections (upd_queue i f v) = connections v" "readers (upd_queue i f v) = readers v" "GuestCID (upd_queue i f v) = GuestCID v"
  "pendingRx (upd_queue i f v) = pendingRx v"
  by (simp_all add: upd_queue_def)

lemma updateIRQ_frame: "rx_frame v (fst (snd (Vsock_updateIRQLocked H (v, w))))"
  by (rule rx_frame_same) (simp_all add: Vsock_updateIRQLocked.simps Let_def split: prod.split)

lemma rxLoop_frame: "rx_frame v (fst (snd (rxLoop n H a processed (v, w))))"
proof (induction n arbitrary: processed v w)
  case 0
  show ?case by (simp add: rxLoop.simps rx_frame_same)
next
  case (Suc n)
  have "rx_frame v ((upd_queue j f v)\<lparr>pendingRx := tl (pendingRx v)\<rparr>)" for j f
    by (auto simp: rx_frame_def drop_Suc intro: exI [of _ 1])
  then have "rx_frame v (fst (snd (rxLoop n H a p ((upd_queue j f v)\<lparr>pendingRx := tl (pendingRx v)\<rparr>, w1))))" for p j f w1
    by (rule rx_frame_trans [OF _ Suc.IH])
  moreover have "rx_frame v (upd_queue j f v)" for j f by (rule rx_frame_same) simp_all
  ultimately show ?case by (simp add: rxLoop.simps Let_def rx_frame_same split: sum.split prod.split)
qed

lemma processRX_frame: "rx_frame v (fst (snd (processRXLocked H (v, w))))"
proof -
  have loop: "rx_frame v (fst (snd (case rxLoop n H a False (v, w) of
        (Inl e, s) \<Rightarrow> (Inl e, s)
      | (Inr processed, (v1, w1)) \<Rightarrow>
          if processed then Vsock_updateIRQLocked H (v1\<lparr>interruptStatus := interruptStatus v1 OR vsockInterruptVring\<rparr>, w1)
          else (Inr (), (v1, w1)))))" for n a
  proof -
    obtain r v1 w1 where l: "rxLoop n H a False (v, w) = (r, (v1, w1))" by (rule prod_cases3)
    have f: "rx_frame v v1" using rxLoop_frame [of v n H a False w] l by simp
    have "rx_frame v (v1\<lparr>interruptStatus := s\<rparr>)" for s by (rule rx_frame_trans [OF f], rule rx_frame_same) simp_all
    then have "rx_frame v (fst (snd (Vsock_updateIRQLocked H (v1\<lparr>interruptStatus := s\<rparr>, w1))))" for s
      by (rule rx_frame_trans [OF _ updateIRQ_frame])
    with f show ?thesis by (cases r) (simp_all add: l)
  qed
  show ?thesis unfolding processRXLocked.simps Let_def
    using loop by (simp add: rx_frame_same split: sum.split)
qed

text \<open>The pending chains are enough rounds for the receive loop: more fuel changes nothing.\<close>

lemma rxLoop_fuel:
  "vsockQueueRX < length (queues v) \<Longrightarrow> pending (queues v ! vsockQueueRX) a \<le> n \<Longrightarrow>
   rxLoop (n + k) H a p (v, w) = rxLoop n H a p (v, w)"
proof (induction n arbitrary: v w p)
  case 0
  then have "a - lastAvailIdx (queues v ! vsockQueueRX) = 0" by (simp add: pending_def word_unat_eq_iff)
  then show ?case by (cases k) (simp_all add: rxLoop.simps)
next
  case (Suc n)
  let ?q = "queues v ! vsockQueueRX"
  let ?v = "\<lambda>q2. (upd_queue vsockQueueRX (\<lambda>_. q2\<lparr>lastAvailIdx := lastAvailIdx q2 + 1\<rparr>) v)\<lparr>pendingRx := tl (pendingRx v)\<rparr>"
  have next_round: "rxLoop (n + k) H a True (?v q2, w2) = rxLoop n H a True (?v q2, w2)"
    if "lastAvailIdx ?q \<noteq> a" "Vsock_writeUsedLocked H head used (?q, w1) = (Inr u, (q2, w2))" for head used w1 u q2 w2
  proof (rule Suc.IH)
    have q2: "q2 = ?q\<lparr>usedIdx := usedIdx ?q + 1\<rparr>"
      using that(2) unfolding Vsock_writeUsedLocked_def by (rule writeQueueUsed_regs)
    show "pending (queues (?v q2) ! vsockQueueRX) a \<le> n"
      using pending_pred [OF that(1), of "usedIdx ?q + 1"] Suc.prems unfolding q2 by (simp add: upd_queue_def)
  qed (use Suc.prems(1) in simp)
  show ?case by (auto simp: rxLoop.simps Let_def next_round split: sum.split prod.split)
qed

section \<open>Streams to the guest\<close>

text \<open>The payload a packet carries for a connection, and the stream a list of packets carries.\<close>

definition data_for :: "vsockConnKey \<Rightarrow> bytes \<Rightarrow> bytes" where
  "data_for key packet =
     (case parseVsockHeader packet of
        Inl _ \<Rightarrow> []
      | Inr hdr \<Rightarrow>
          if Op hdr = vsockOpRW \<and> SrcPort hdr = localPort key \<and> DstPort hdr = remotePort key
          then take (unat (Len hdr)) (drop vsockHeaderSize packet) else [])"

definition stream_to :: "vsockConnKey \<Rightarrow> bytes list \<Rightarrow> bytes" where
  "stream_to key packets = concat (map (data_for key) packets)"

lemma data_for_packet:
  "data_for key (encodeVsockHeader hdr @ payload) =
     (if Op hdr = vsockOpRW \<and> SrcPort hdr = localPort key \<and> DstPort hdr = remotePort key then take (unat (Len hdr)) payload else [])"
  by (simp add: data_for_def)

lemma data_for_header [simp]: "data_for key (encodeVsockHeader hdr) = []"
  using data_for_packet [of key hdr "[]"] by simp

lemma stream_to_Nil [simp]: "stream_to key [] = []"
  by (simp add: stream_to_def)

lemma stream_to_append: "stream_to key (ps @ qs) = stream_to key ps @ stream_to key qs"
  by (simp add: stream_to_def)

definition keyed :: "vsock \<Rightarrow> bool" where
  "keyed v \<longleftrightarrow> (\<forall>key conn. connections v key = Some conn \<longrightarrow> vc_key conn = key)"

text \<open>A guest packet that asks for a connection with this key.\<close>

definition requests :: "vsockConnKey \<Rightarrow> bytes \<Rightarrow> bool" where
  "requests key data \<longleftrightarrow>
     (case parseVsockHeader data of Inl _ \<Rightarrow> False | Inr hdr \<Rightarrow> Op hdr = vsockOpRequest \<and> packet_key hdr = key)"

text \<open>
  What a step does as seen from one connection: it queues packets without data for it, keeps its
  sent count while it lives, and starts no reader for it.
\<close>

definition quiet_for :: "vsockConnKey \<Rightarrow> vsock \<Rightarrow> vsock \<Rightarrow> bool" where
  "quiet_for key v v1 \<longleftrightarrow>
     (\<exists>ps. pendingRx v1 = pendingRx v @ ps \<and> stream_to key ps = []) \<and>
     (\<exists>rs. readers v1 = readers v @ rs \<and> (\<forall>rd\<in>set rs. rd_key rd \<noteq> key)) \<and>
     (keyed v \<longrightarrow> keyed v1) \<and>
     (\<forall>c1. connections v1 key = Some c1 \<longrightarrow> (\<exists>c. connections v key = Some c \<and> txCnt c1 = txCnt c))"

lemma quiet_for_refl [simp]: "quiet_for key v v"
  by (auto simp: quiet_for_def stream_to_def)

lemma queueRxPacket_sel [simp]:
  "pendingRx (queueRxPacketLocked p v) = pendingRx v @ [p]" "readers (queueRxPacketLocked p v) = readers v"
  "connections (queueRxPacketLocked p v) = connections v" "GuestCID (queueRxPacketLocked p v) = GuestCID v"
  "keyed (queueRxPacketLocked p v) = keyed v"
  by (simp_all add: queueRxPacketLocked_def keyed_def)

lemma quiet_for_queue:
  assumes "quiet_for key v v1" and "data_for key p = []"
  shows "quiet_for key v (queueRxPacketLocked p v1)"
proof -
  obtain ps where ps: "pendingRx v1 = pendingRx v @ ps" "stream_to key ps = []" using assms(1) unfolding quiet_for_def by blast
  have "stream_to key (ps @ [p]) = []" using ps(2) assms(2) by (simp add: stream_to_def)
  then have "\<exists>qs. (pendingRx v @ ps) @ [p] = pendingRx v @ qs \<and> stream_to key qs = []" by (metis append_assoc)
  then show ?thesis using assms(1) unfolding quiet_for_def queueRxPacket_sel ps(1) by blast
qed

lemma quiet_for_put:
  assumes "connections v key0 = Some c" and "vc_key c1 = vc_key c" and "txCnt c1 = txCnt c" and "keyed v"
  shows "quiet_for key v (put_conn c1 v)"
proof -
  have "vc_key c1 = key0" using assms by (simp add: keyed_def)
  then show ?thesis using assms by (auto simp: quiet_for_def put_conn_def keyed_def stream_to_def)
qed

lemma drop_conn_sel [simp]:
  "pendingRx (drop_conn k v) = pendingRx v" "readers (drop_conn k v) = readers v" "GuestCID (drop_conn k v) = GuestCID v"
  "connections (drop_conn k v) = (connections v)(k := None)"
  by (simp_all add: drop_conn_def)

lemma quiet_for_drop:
  assumes "quiet_for key v v1"
  shows "quiet_for key v (drop_conn k v1)"
proof -
  have "keyed v1 \<Longrightarrow> keyed (drop_conn k v1)" by (simp add: keyed_def)
  moreover have "connections (drop_conn k v1) key = Some c \<Longrightarrow> connections v1 key = Some c" for c by (simp split: if_splits)
  ultimately show ?thesis using assms unfolding quiet_for_def drop_conn_sel(1,2) by blast
qed

lemma put_conn_sel [simp]:
  "pendingRx (put_conn c v) = pendingRx v" "readers (put_conn c v) = readers v" "GuestCID (put_conn c v) = GuestCID v"
  "connections (put_conn c v) = (connections v)(vc_key c \<mapsto> c)"
  by (simp_all add: put_conn_def)

lemmas vsock_sends = sendResetLocked_def sendResponseLocked_def sendCreditUpdateLocked_def

lemma sends_quiet:
  "quiet_for key v v1 \<Longrightarrow> quiet_for key v (sendResetLocked hdr v1)"
  "quiet_for key v v1 \<Longrightarrow> quiet_for key v (sendResponseLocked hdr v1)"
  "quiet_for key v v1 \<Longrightarrow> quiet_for key v (sendCreditUpdateLocked c v1)"
  by (simp_all add: vsock_sends quiet_for_queue)

lemma handleConnect_quiet:
  assumes "keyed v" and "packet_key hdr \<noteq> key"
  shows "quiet_for key v (fst (snd (handleConnectLocked B hdr (v, w))))"
proof -
  let ?v1 = "v\<lparr>connectRequests := connectRequests v + 1\<rparr>"
  have q1: "quiet_for key v ?v1" using quiet_for_refl [of key v] by (simp add: quiet_for_def keyed_def)
  have "quiet_for key v (put_conn c ?v1)" if "vc_key c = packet_key hdr" for c
    using assms that by (auto simp: quiet_for_def keyed_def stream_to_def)
  then have q2: "quiet_for key v (sendResponseLocked hdr (put_conn c ?v1))" if "vc_key c = packet_key hdr" for c
    using that sends_quiet(2) by blast
  have "quiet_for key v (v2\<lparr>readers := readers v2 @ [rd]\<rparr>)" if q: "quiet_for key v v2" "rd_key rd = packet_key hdr" for v2 rd
  proof -
    obtain rs where rs: "readers v2 = readers v @ rs" "\<forall>rd\<in>set rs. rd_key rd \<noteq> key" using q(1) unfolding quiet_for_def by blast
    have "\<exists>rs1. (readers v @ rs) @ [rd] = readers v @ rs1 \<and> (\<forall>rd\<in>set rs1. rd_key rd \<noteq> key)"
      using rs(2) q(2) assms(2) by (intro exI [of _ "rs @ [rd]"]) auto
    moreover have "keyed (v2\<lparr>readers := readers v2 @ [rd]\<rparr>) = keyed v2" by (simp add: keyed_def)
    ultimately show ?thesis using q(1) rs(1) by (simp add: quiet_for_def)
  qed
  then show ?thesis using q1 q2 sends_quiet(1) [OF q1]
    by (simp add: handleConnectLocked.simps Let_def split: prod.split connect_result.split)
qed

lemma handleData_quiet:
  assumes "keyed v"
  shows "quiet_for key v (fst (snd (handleDataLocked B hdr payload (v, w))))"
proof (cases "connections v (packet_key hdr)")
  case None
  then show ?thesis by (simp add: handleDataLocked.simps sends_quiet)
next
  case (Some conn)
  note put = quiet_for_put [OF Some _ _ assms, of _ key]
  show ?thesis
    by (simp add: handleDataLocked.simps Some Let_def sends_quiet quiet_for_drop put split: prod.split write_outcome.split)
qed

lemma guest_packet_quiet:
  assumes "keyed v" and "\<not> requests key data"
  shows "quiet_for key v (fst (snd (guest_packet B data (v, w))))"
proof (cases "parseVsockHeader data")
  case (Inl e)
  then show ?thesis by (simp add: guest_packet.simps)
next
  case (Inr hdr)
  have "Op hdr = vsockOpRequest \<Longrightarrow> packet_key hdr \<noteq> key" using assms(2) Inr by (simp add: requests_def)
  then have "Op hdr = vsockOpRequest \<Longrightarrow> quiet_for key v (fst (snd (handleConnectLocked B hdr (v, w))))"
    by (intro handleConnect_quiet [OF assms(1)]) simp
  moreover note put = quiet_for_put [OF _ _ _ assms(1), of "packet_key hdr" _ _ key]
  have "quiet_for key v (handleResponseLocked hdr v)" "quiet_for key v (handleCreditUpdateLocked hdr v)"
      "quiet_for key v (handleCreditRequestLocked hdr v)"
    by (auto simp: handleResponseLocked_def handleCreditUpdateLocked_def handleCreditRequestLocked_def sends_quiet
        intro!: put split: option.split)
  moreover have "quiet_for key v (fst (handleResetLocked B hdr (v, w)))" "quiet_for key v (fst (handleShutdownLocked B hdr (v, w)))"
    by (simp_all add: handleResetLocked.simps handleShutdownLocked.simps quiet_for_drop sends_quiet split: option.split)
  ultimately show ?thesis by (simp add: guest_packet.simps Inr Let_def handleData_quiet [OF assms(1)])
qed

section \<open>Runs\<close>

text \<open>
  Events under the device's lock, in any order: a packet of the guest, a turn of a reader, a
  delivery to the receive queue. The run keeps the packets delivered so far and what each
  reader read.
\<close>

datatype vsock_event = GuestPacket bytes | ReaderTurn nat | DeliverRX

record 'w vsock_run =
  vr_dev :: vsock
  vr_world :: 'w
  vr_delivered :: "bytes list"
  vr_read :: "nat \<Rightarrow> bytes"

definition history :: "'w vsock_run \<Rightarrow> bytes list" where
  "history r = vr_delivered r @ pendingRx (vr_dev r)"

text \<open>The bytes a turn adds to the reader's buffer.\<close>

definition just_read :: "nat \<Rightarrow> vsock \<Rightarrow> vsock \<Rightarrow> bytes" where
  "just_read i v v1 = (if i < length (readers v) \<and> rd_buf (readers v ! i) = [] then rd_buf (readers v1 ! i) else [])"

fun vsock_step :: "'w host \<Rightarrow> 'w vsock_backend \<Rightarrow> vsock_event \<Rightarrow> 'w vsock_run \<Rightarrow> 'w vsock_run" where
  "vsock_step H B (GuestPacket data) r =
     (case guest_packet B data (vr_dev r, vr_world r) of (_, (v1, w1)) \<Rightarrow> r\<lparr>vr_dev := v1, vr_world := w1\<rparr>)"
| "vsock_step H B (ReaderTurn i) r =
     (case reader_turn B i (vr_dev r, vr_world r) of
        (_, (v1, w1)) \<Rightarrow> r\<lparr>vr_dev := v1, vr_world := w1, vr_read := (vr_read r)(i := vr_read r i @ just_read i (vr_dev r) v1)\<rparr>)"
| "vsock_step H B DeliverRX r =
     (case processRXLocked H (vr_dev r, vr_world r) of
        (_, (v1, w1)) \<Rightarrow> r\<lparr>vr_dev := v1, vr_world := w1,
          vr_delivered := vr_delivered r @ take (length (pendingRx (vr_dev r)) - length (pendingRx v1)) (pendingRx (vr_dev r))\<rparr>)"

inductive vsock_runs :: "'w host \<Rightarrow> 'w vsock_backend \<Rightarrow> vsockConnKey \<Rightarrow> 'w vsock_run \<Rightarrow> 'w vsock_run \<Rightarrow> bool"
  for H B key r0 where
  vs_start: "vsock_runs H B key r0 r0"
| vs_next: "vsock_runs H B key r0 r \<Longrightarrow> (\<And>data. ev = GuestPacket data \<Longrightarrow> \<not> requests key data) \<Longrightarrow>
    vsock_runs H B key r0 (vsock_step H B ev r)"

text \<open>A read returns at most the number of bytes asked for, as \<^verbatim>\<open>io.Reader\<close> demands.\<close>

definition reads_fit :: "'w vsock_backend \<Rightarrow> bool" where
  "reads_fit B \<longleftrightarrow> (\<forall>c n w data w1. vb_read B c n w = (BackendData data, w1) \<longrightarrow> length data \<le> n)"

text \<open>The invariant of the connection \<open>key\<close> that reader \<open>i\<close> serves.\<close>

definition reader_inv :: "vsockConnKey \<Rightarrow> nat \<Rightarrow> 'w vsock_run \<Rightarrow> bool" where
  "reader_inv key i r \<longleftrightarrow>
     (let v = vr_dev r
      in keyed v \<and> i < length (readers v) \<and> rd_key (readers v ! i) = key \<and>
         (\<forall>j<length (readers v). j \<noteq> i \<longrightarrow> rd_key (readers v ! j) = key \<longrightarrow> rd_done (readers v ! j)) \<and>
         (\<exists>rest. vr_read r i = stream_to key (history r) @ rest \<and> (\<not> rd_done (readers v ! i) \<longrightarrow> rest = rd_buf (readers v ! i))) \<and>
         length (rd_buf (readers v ! i)) \<le> 3072 \<and>
         (\<forall>c. connections v key = Some c \<longrightarrow> txCnt c = of_nat (length (stream_to key (history r)))))"

lemma reader_inv_quiet:
  assumes inv: "reader_inv key i r" and q: "quiet_for key (vr_dev r) v1"
  shows "reader_inv key i (r\<lparr>vr_dev := v1, vr_world := w1\<rparr>)"
proof -
  let ?v = "vr_dev r"
  obtain ps where ps: "pendingRx v1 = pendingRx ?v @ ps" "stream_to key ps = []" using q unfolding quiet_for_def by blast
  obtain rs where rs: "readers v1 = readers ?v @ rs" "\<forall>rd\<in>set rs. rd_key rd \<noteq> key" using q unfolding quiet_for_def by blast
  have h: "stream_to key (history (r\<lparr>vr_dev := v1, vr_world := w1\<rparr>)) = stream_to key (history r)"
    by (simp add: history_def ps stream_to_append)
  have i: "i < length (readers ?v)" using inv by (simp add: reader_inv_def Let_def)
  have "rd_done (readers v1 ! j)" if "j < length (readers v1)" "j \<noteq> i" "rd_key (readers v1 ! j) = key" for j
  proof (cases "j < length (readers ?v)")
    case True
    then show ?thesis using that inv by (simp add: reader_inv_def Let_def rs nth_append)
  next
    case False
    then have "readers v1 ! j \<in> set rs" using that(1) by (simp add: rs nth_append)
    then show ?thesis using rs(2) that(3) by blast
  qed
  moreover have "readers v1 ! i = readers ?v ! i" "i < length (readers v1)" using i by (simp_all add: rs nth_append)
  moreover have "keyed v1" using q inv by (simp add: quiet_for_def reader_inv_def Let_def)
  moreover have "txCnt c = of_nat (length (stream_to key (history r)))" if "connections v1 key = Some c" for c
    using that q inv unfolding quiet_for_def reader_inv_def Let_def by metis
  ultimately show ?thesis using inv unfolding reader_inv_def Let_def h by simp
qed

lemma set_reader_sel [simp]:
  "pendingRx (set_reader j rd v) = pendingRx v" "connections (set_reader j rd v) = connections v"
  "readers (set_reader j rd v) = (readers v)[j := rd]" "keyed (set_reader j rd v) = keyed v"
  by (simp_all add: set_reader_def keyed_def)

lemma reader_inv_other:
  assumes "reader_inv key i r" and "j \<noteq> i" and "rd_key rd = rd_key (readers (vr_dev r) ! j)"
    and "rd_done (readers (vr_dev r) ! j) \<longrightarrow> rd_done rd"
  shows "reader_inv key i (r\<lparr>vr_dev := set_reader j rd (vr_dev r), vr_read := (vr_read r)(j := x)\<rparr>)"
proof -
  let ?rs = "readers (vr_dev r)"
  have old: "rd_done (?rs ! k)" if "k < length ?rs" "k \<noteq> i" "rd_key (?rs ! k) = key" for k
    using assms(1) that by (simp add: reader_inv_def Let_def)
  have "rd_done (?rs[j := rd] ! k)" if "k < length ?rs" "k \<noteq> i" "rd_key (?rs[j := rd] ! k) = key" for k
    using old [OF that(1,2)] that assms(3,4) by (cases "k = j") auto
  then show ?thesis using assms(1,2) by (simp add: reader_inv_def Let_def history_def)
qed

lemma DeliverRX_inv:
  assumes inv: "reader_inv key i r"
  shows "reader_inv key i (vsock_step H B DeliverRX r)"
proof -
  obtain res v1 w1 where p: "processRXLocked H (vr_dev r, vr_world r) = (res, (v1, w1))" by (rule prod_cases3)
  have f: "rx_frame (vr_dev r) v1" using processRX_frame [of "vr_dev r" H "vr_world r"] p by simp
  then obtain k where k: "pendingRx v1 = drop k (pendingRx (vr_dev r))" by (auto simp: rx_frame_def)
  have "take (length ps - length (drop k ps)) ps @ drop k ps = ps" for ps :: "bytes list"
    by (cases "k \<le> length ps") simp_all
  then have "history (vsock_step H B DeliverRX r) = history r" by (simp add: p history_def k)
  moreover have "keyed v1 = keyed (vr_dev r)" using f by (simp add: rx_frame_def keyed_def)
  ultimately show ?thesis using inv f by (simp add: reader_inv_def Let_def p rx_frame_def)
qed

lemma GuestPacket_inv:
  assumes inv: "reader_inv key i r" and g: "\<not> requests key data"
  shows "reader_inv key i (vsock_step H B (GuestPacket data) r)"
proof -
  obtain res v1 w1 where p: "guest_packet B data (vr_dev r, vr_world r) = (res, (v1, w1))" by (rule prod_cases3)
  have "keyed (vr_dev r)" using inv by (simp add: reader_inv_def Let_def)
  from guest_packet_quiet [OF this g, of B "vr_world r"] p have "quiet_for key (vr_dev r) v1" by simp
  then show ?thesis using reader_inv_quiet [OF inv] by (simp add: p)
qed

lemma quiet_for_put_other:
  assumes "vc_key c \<noteq> key"
  shows "quiet_for key v (put_conn c v)"
  using assms by (auto simp: quiet_for_def keyed_def)

lemma key_ports: "localPort k = localPort k1 \<Longrightarrow> remotePort k = remotePort k1 \<Longrightarrow> k = (k1 :: vsockConnKey)"
  by (rule vsockConnKey.equality) simp_all

lemma sendData_quiet:
  assumes "vc_key conn \<noteq> key"
  shows "quiet_for key v (sendDataLocked conn data v)"
proof -
  let ?c1 = "conn\<lparr>txCnt := txCnt conn + of_nat (length data)\<rparr>"
  have "data_for key (encodeVsockHeader (conn_header v ?c1 vsockOpRW (of_nat (length data))) @ data) = []"
    using assms key_ports by (auto simp: data_for_packet conn_header_def)
  moreover have "quiet_for key v (put_conn ?c1 v)" using assms by (intro quiet_for_put_other) simp
  ultimately show ?thesis by (simp add: sendDataLocked_def Let_def quiet_for_queue)
qed

lemma sendCreditRequest_quiet:
  assumes "connections v k = Some conn" and "keyed v"
  shows "quiet_for key v (sendCreditRequestLocked conn v)"
  using quiet_for_put [OF assms(1) _ _ assms(2)] by (simp add: sendCreditRequestLocked_def Let_def quiet_for_queue)

text \<open>
  A turn stores a reader and acts on the connection in one of three ways: it closes it, asks for
  credit, or sends data.
\<close>

lemma reader_turn_shape:
  assumes t: "reader_turn B j (v, w) = (f, (v1, w1))" and j: "j < length (readers v)" and live: "\<not> rd_done (readers v ! j)"
  obtains rd where "v1 = set_reader j (rd\<lparr>rd_done := True\<rparr>) v" "rd = readers v ! j"
  | rd data where "v1 = set_reader j (rd\<lparr>rd_buf := data\<rparr>) v" "rd = readers v ! j" "rd_buf rd = []"
      "\<exists>w2. vb_read B (rd_conn rd) 3072 w = (BackendData data, w2)"
  | "v1 = v"
  | rd conn hdr where "v1 = set_reader j (rd\<lparr>rd_done := True\<rparr>) (put_conn (conn\<lparr>vc_state := vsockConnStateClosing\<rparr>)
        (queueRxPacketLocked (encodeVsockHeader hdr) v))" "rd = readers v ! j" "connections v (rd_key rd) = Some conn"
  | conn where "v1 = sendCreditRequestLocked conn v" "connections v (rd_key (readers v ! j)) = Some conn"
  | rd conn chunk where "v1 = set_reader j (rd\<lparr>rd_buf := drop chunk (rd_buf rd)\<rparr>) (sendDataLocked conn (take chunk (rd_buf rd)) v)"
      "rd = readers v ! j" "connections v (rd_key rd) = Some conn" "rd_buf rd \<noteq> []"
  using t j live
  by (auto simp: reader_turn.simps Let_def simp del: take_all drop_all split: if_splits prod.splits read_outcome.splits option.splits)

lemma put_conn_queue: "put_conn c (queueRxPacketLocked p v) = queueRxPacketLocked p (put_conn c v)"
  by (rule vsock.equality) (simp_all add: put_conn_def queueRxPacketLocked_def)

text \<open>From the outside, a turn is a quiet step on another connection and a new state of its reader.\<close>

lemma reader_turn_other:
  assumes t: "reader_turn B j (v, w) = (f, (v1, w1))" and j: "j < length (readers v)" "\<not> rd_done (readers v ! j)"
    and k: "keyed v" "rd_key (readers v ! j) \<noteq> key"
  obtains v2 rd where "v1 = set_reader j rd v2" "quiet_for key v v2" "readers v2 = readers v" "rd_key rd = rd_key (readers v ! j)"
proof -
  have self: "v = set_reader j (readers v ! j) v" by (simp add: set_reader_def)
  have readers_send: "readers (sendDataLocked c d v) = readers v" "readers (sendCreditRequestLocked c v) = readers v" for c d
    by (simp_all add: sendDataLocked_def sendCreditRequestLocked_def Let_def)
  have own: "vc_key c \<noteq> key" if "connections v (rd_key (readers v ! j)) = Some c" for c
    using that k by (auto simp: keyed_def)
  show ?thesis
    using t j
  proof (cases rule: reader_turn_shape)
    case (4 rd conn hdr)
    have "quiet_for key v (put_conn (conn\<lparr>vc_state := vsockConnStateClosing\<rparr>) (queueRxPacketLocked (encodeVsockHeader hdr) v))"
    proof -
      have "quiet_for key v (queueRxPacketLocked (encodeVsockHeader hdr) (put_conn (conn\<lparr>vc_state := vsockConnStateClosing\<rparr>) v))"
        by (rule quiet_for_queue [OF quiet_for_put_other]) (use own 4 in simp_all)
      then show ?thesis by (simp only: put_conn_queue)
    qed
    then show ?thesis using that [OF 4(1)] 4(2) by simp
  next
    case (5 conn)
    have "v1 = set_reader j (readers v ! j) v1" using 5(1) readers_send(2) by (simp add: set_reader_def)
    then show ?thesis using that sendCreditRequest_quiet [OF 5(2) k(1)] 5(1) readers_send(2) by blast
  next
    case (6 rd conn chunk)
    then show ?thesis using that [OF 6(1)] sendData_quiet own readers_send(1) by simp
  next
    case (1 rd)
    then show ?thesis using that [OF 1(1) quiet_for_refl] by simp
  next
    case (2 rd data)
    then show ?thesis using that [OF 2(1) quiet_for_refl] by simp
  next
    case 3
    then have "v1 = set_reader j (readers v ! j) v" using self by simp
    then show ?thesis using that [OF _ quiet_for_refl] by blast
  qed
qed

lemma reader_inv_cong:
  "reader_inv key i r1 \<Longrightarrow> vr_dev r1 = vr_dev r \<Longrightarrow> vr_delivered r1 = vr_delivered r \<Longrightarrow> vr_read r1 i = vr_read r i \<Longrightarrow> reader_inv key i r"
  by (simp add: reader_inv_def history_def)

lemma reader_inv_self:
  assumes inv: "reader_inv key i r" and "rd_key rd = key" and "x = stream_to key (history r) @ rest"
    and "rd_done rd \<or> rest = rd_buf rd" and "length (rd_buf rd) \<le> 3072"
  shows "reader_inv key i (r\<lparr>vr_dev := set_reader i rd (vr_dev r), vr_read := (vr_read r)(i := x)\<rparr>)"
  using assms by (auto simp: reader_inv_def Let_def history_def)

lemma reader_inv_done:
  assumes "reader_inv key i r" and "rd_key rd = key" and "rd_buf rd = rd_buf (readers (vr_dev r) ! i)"
  shows "reader_inv key i (r\<lparr>vr_dev := set_reader i (rd\<lparr>rd_done := True\<rparr>) (vr_dev r)\<rparr>)"
  using assms by (auto simp: reader_inv_def Let_def history_def)

lemma sendData_sel [simp]:
  "connections (sendDataLocked c d v) = (connections v)(vc_key c \<mapsto> c\<lparr>txCnt := txCnt c + of_nat (length d)\<rparr>)"
  "readers (sendDataLocked c d v) = readers v"
  by (simp_all add: sendDataLocked_def Let_def)

lemma sendData_stream:
  assumes "vc_key c = key" and "length d < 2 ^ 32"
  shows "\<exists>p. pendingRx (sendDataLocked c d v) = pendingRx v @ [p] \<and> data_for key p = d"
proof -
  have "unat (of_nat (length d) :: u32) = length d" using assms(2) by (simp add: unat_of_nat take_bit_eq_mod)
  then show ?thesis using assms(1) by (simp add: sendDataLocked_def Let_def data_for_packet conn_header_def)
qed

lemma reader_inv_send:
  assumes inv: "reader_inv key i r" and v: "v = vr_dev r" and rd: "rd = readers v ! i" "\<not> rd_done rd" and c: "connections v key = Some c"
  shows "reader_inv key i (r\<lparr>vr_dev := set_reader i (rd\<lparr>rd_buf := drop n (rd_buf rd)\<rparr>) (sendDataLocked c (take n (rd_buf rd)) v), vr_world := w\<rparr>)"
proof -
  let ?d = "take n (rd_buf rd)" and ?r1 = "r\<lparr>vr_dev := set_reader i (rd\<lparr>rd_buf := drop n (rd_buf rd)\<rparr>) (sendDataLocked c (take n (rd_buf rd)) v), vr_world := w\<rparr>"
  have k: "keyed v" "vc_key c = key" "length (rd_buf rd) \<le> 3072" "i < length (readers v)"
      "vr_read r i = stream_to key (history r) @ rd_buf rd" "txCnt c = of_nat (length (stream_to key (history r)))"
    using inv c rd by (auto simp: reader_inv_def Let_def v keyed_def)
  obtain p where p: "pendingRx (sendDataLocked c ?d v) = pendingRx v @ [p]" "data_for key p = ?d"
    using sendData_stream [OF k(2), of ?d v] k(3) by (auto simp: min_less_iff_disj)
  have "stream_to key (history ?r1) = stream_to key (vr_delivered r @ pendingRx v) @ data_for key p"
    by (simp add: history_def p(1) stream_to_def)
  then have h: "stream_to key (history ?r1) = stream_to key (history r) @ ?d" by (simp add: history_def p(2) v)
  have "keyed (sendDataLocked c ?d v)" "length (drop n (rd_buf rd)) \<le> 3072" using k(1,3) by (simp_all add: keyed_def)
  then show ?thesis using inv k(2-6) rd unfolding reader_inv_def Let_def h by (simp add: v)
qed

lemma ReaderTurn_inv:
  assumes inv: "reader_inv key i r" and fit: "reads_fit B"
  shows "reader_inv key i (vsock_step H B (ReaderTurn j) r)"
proof -
  define v w where "v = vr_dev r" and "w = vr_world r"
  obtain f v1 w1 where t: "reader_turn B j (v, w) = (f, (v1, w1))" by (rule prod_cases3)
  define x where "x = vr_read r j @ just_read j v v1"
  have step: "vsock_step H B (ReaderTurn j) r = r\<lparr>vr_dev := v1, vr_world := w1, vr_read := (vr_read r)(j := x)\<rparr>"
    using t by (simp add: v_def w_def x_def)
  have k: "keyed v" and i: "i < length (readers v)" "rd_key (readers v ! i) = key"
    using inv by (simp_all add: reader_inv_def Let_def v_def)
  show ?thesis
  proof (cases "j < length (readers v) \<and> \<not> rd_done (readers v ! j)")
    case False
    then have "length (readers v) \<le> j \<or> rd_done (readers v ! j)" by auto
    then have v1: "v1 = v" using t by (simp add: reader_turn.simps Let_def)
    moreover have "x = vr_read r j" by (simp add: x_def v1 just_read_def)
    ultimately show ?thesis unfolding step by (intro reader_inv_cong [OF inv]) (simp_all add: v_def)
  next
    case live: True
    show ?thesis
    proof (cases "j = i")
      case False
      have "rd_key (readers v ! j) \<noteq> key" using inv live False by (auto simp: reader_inv_def Let_def v_def)
      then obtain v2 rd where s: "v1 = set_reader j rd v2" "quiet_for key v v2" "readers v2 = readers v"
          "rd_key rd = rd_key (readers v ! j)" using reader_turn_other [OF t conjunct1 [OF live] conjunct2 [OF live] k] by blast
      have "reader_inv key i (r\<lparr>vr_dev := v2, vr_world := w1\<rparr>)" by (rule reader_inv_quiet [OF inv]) (use s(2) v_def in simp)
      then have "reader_inv key i (r\<lparr>vr_dev := v2, vr_world := w1, vr_dev := set_reader j rd v2, vr_read := (vr_read r)(j := x)\<rparr>)"
        using reader_inv_other [OF _ False, of key "r\<lparr>vr_dev := v2, vr_world := w1\<rparr>" rd x] s live by simp
      then show ?thesis unfolding step by (rule reader_inv_cong) (simp_all add: s(1))
    next
      case True
      then have live: "\<not> rd_done (readers v ! i)" using live by simp
      then have rd: "vr_read r i = stream_to key (history r) @ rd_buf (readers v ! i)" "length (rd_buf (readers v ! i)) \<le> 3072"
        using inv by (auto simp: reader_inv_def Let_def v_def)
      have tx: "txCnt c = of_nat (length (stream_to key (history r)))" if "connections v key = Some c" for c
        using inv that by (simp add: reader_inv_def Let_def v_def)
      have x: "x = vr_read r i" if "rd_buf (readers v ! i) \<noteq> [] \<or> rd_buf (readers v1 ! i) = []"
        using that i(1) True by (auto simp: x_def just_read_def)
      have quiet: ?thesis if "quiet_for key v v1" "x = vr_read r i"
        unfolding step by (rule reader_inv_cong [OF reader_inv_quiet [OF inv, of v1 w1]]) (use that True v_def in simp_all)
      show ?thesis
      proof (cases rule: reader_turn_shape [OF t [unfolded True] i(1) live])
        case (1 rd)
        have "reader_inv key i (r\<lparr>vr_dev := set_reader i (rd\<lparr>rd_done := True\<rparr>) (vr_dev r)\<rparr>)"
          by (rule reader_inv_done [OF inv]) (use 1 i v_def in simp_all)
        moreover have "x = vr_read r i" using x 1 i(1) by auto
        ultimately show ?thesis unfolding step by (elim reader_inv_cong) (use 1 True v_def in simp_all)
      next
        case (2 rd data)
        then have "x = stream_to key (history r) @ data" "length data \<le> 3072"
          using i(1) True rd fit by (auto simp: x_def just_read_def reads_fit_def)
        then have "reader_inv key i (r\<lparr>vr_dev := set_reader i (rd\<lparr>rd_buf := data\<rparr>) (vr_dev r), vr_read := (vr_read r)(i := x)\<rparr>)"
          by (intro reader_inv_self [OF inv, of _ _ data]) (use 2 i in simp_all)
        then show ?thesis unfolding step by (rule reader_inv_cong) (use 2 True v_def in simp_all)
      next
        case 3
        then show ?thesis using quiet x by (cases "rd_buf (readers v ! i) = []") auto
      next
        case (4 rd conn hdr)
        let ?v2 = "put_conn (conn\<lparr>vc_state := vsockConnStateClosing\<rparr>) (queueRxPacketLocked (encodeVsockHeader hdr) v)"
        have "quiet_for key v (queueRxPacketLocked (encodeVsockHeader hdr) (put_conn (conn\<lparr>vc_state := vsockConnStateClosing\<rparr>) v))"
          by (rule quiet_for_queue [OF quiet_for_put [OF 4(3) _ _ k]]) simp_all
        then have "reader_inv key i (r\<lparr>vr_dev := ?v2, vr_world := w1\<rparr>)"
          by (intro reader_inv_quiet [OF inv]) (simp only: put_conn_queue v_def)
        from reader_inv_done [OF this, of rd]
        have "reader_inv key i (r\<lparr>vr_dev := ?v2, vr_world := w1, vr_dev := set_reader i (rd\<lparr>rd_done := True\<rparr>) ?v2\<rparr>)"
          using 4(2) i(2) by simp
        moreover have "x = vr_read r i" using x 4 i(1) by auto
        ultimately show ?thesis unfolding step by (elim reader_inv_cong) (use 4 True in simp_all)
      next
        case (5 conn)
        have "readers v1 = readers v" by (simp add: 5 sendCreditRequestLocked_def Let_def)
        then have "x = vr_read r i" using x by (cases "rd_buf (readers v ! i) = []") auto
        then show ?thesis using quiet sendCreditRequest_quiet [OF 5(2) k] 5(1) by blast
      next
        case (6 rd conn chunk)
        have "\<not> rd_done rd" using live 6(2) by simp
        from reader_inv_send [OF inv v_def 6(2) this 6(3) [unfolded 6(2) i(2)], where n = chunk and w = w1]
        show ?thesis unfolding step by (rule reader_inv_cong) (use x 6 True in auto)
      qed
    qed
  qed
qed

lemma vsock_runs_inv:
  assumes "vsock_runs H B key r0 r" and "reader_inv key i r0"
    and "reads_fit B"
  shows "reader_inv key i r"
  using assms(1,2)
proof (induction rule: vsock_runs.induct)
  case (vs_next r ev)
  then show ?case
    using GuestPacket_inv DeliverRX_inv ReaderTurn_inv [OF _ assms(3)] by (cases ev) auto
qed


lemma simple_reads_fit: "reads_fit (simple_vsock pick)"
  by (auto simp: reads_fit_def simple_vsock_def simple_Read_def Let_def split: if_splits list.splits)

text \<open>
  A device with one connection, from port 1024 of the host to port 2048 of the guest, to an end
  whose channel holds five bytes; the guest has announced a buffer of four.
\<close>

definition demo_vkey :: vsockConnKey where
  "demo_vkey = \<lparr>localPort = 1024, remotePort = 2048\<rparr>"

definition demo_vsock :: vsock where
  "demo_vsock = (NewVsock 0xd0000000 512 5 3 True)\<lparr>connections := [demo_vkey \<mapsto> \<lparr>vc_key = demo_vkey,
       vc_state = vsockConnStateConnected, peerAlloc = 4, peerCnt = 0, txCnt = 0, rxCnt = 0, creditRequestPending = False,
       vc_backend = 0\<rparr>],
     readers := [\<lparr>rd_conn = 0, rd_key = demo_vkey, rd_buf = [], rd_done = False\<rparr>]\<rparr>"

definition demo_ends :: simple_backend where
  "demo_ends = \<lparr>sb_listeners = [1024 \<mapsto> \<lparr>sl_port = 1024, sl_conns = [], sl_closed = False\<rparr>],
     sb_ends = [\<lparr>sc_localPort = 0, sc_remotePort = 1024, sc_peer = 1, sc_readCh = [[1, 2, 3, 4, 5]], sc_closed = False, sc_readBuf = []\<rparr>,
       \<lparr>sc_localPort = 1024, sc_remotePort = 0, sc_peer = 0, sc_readCh = [], sc_closed = False, sc_readBuf = []\<rparr>]\<rparr>"

definition demo_vrun :: "(kvm_vm \<times> simple_backend) vsock_run" where
  "demo_vrun = \<lparr>vr_dev = demo_vsock, vr_world = (flat_vm demo_mem, demo_ends), vr_delivered = [], vr_read = (\<lambda>_. [])\<rparr>"

lemma demo_vsock_sel [simp]:
  "readers demo_vsock = [\<lparr>rd_conn = 0, rd_key = demo_vkey, rd_buf = [], rd_done = False\<rparr>]" "pendingRx demo_vsock = []"
  "connections demo_vsock = [demo_vkey \<mapsto> \<lparr>vc_key = demo_vkey, vc_state = vsockConnStateConnected, peerAlloc = 4, peerCnt = 0,
     txCnt = 0, rxCnt = 0, creditRequestPending = False, vc_backend = 0\<rparr>]" "vs_closed demo_vsock = False"
  by (simp_all add: demo_vsock_def NewVsock_def Vsock_resetLocked_def resetLocked_def)


text \<open>
  C14 (bounds). A reader never sends more than the guest has room for: without credit it sends no
  data, and with credit it sends some, after which the bytes the guest has not consumed are at most
  the buffer it announced.
\<close>

theorem Vsock_respects_credit:
  assumes "i < length (readers v)" and rd: "rd = readers v ! i" "\<not> rd_done rd" "rd_buf rd \<noteq> []" "length (rd_buf rd) \<le> 3072"
    and c: "connections v (rd_key rd) = Some c" "vc_key c = rd_key rd" "vc_state c = vsockConnStateConnected"
  shows "\<exists>v1 c1 n. reader_turn B i (v, w) = (True, (v1, w)) \<and> connections v1 (rd_key rd) = Some c1 \<and>
    txCnt c1 = txCnt c + of_nat n \<and> stream_to (rd_key rd) (pendingRx v1) = stream_to (rd_key rd) (pendingRx v) @ take n (rd_buf rd) \<and>
    (if vsockPeerCredit c = 0 then n = 0 else 0 < n \<and> n \<le> length (rd_buf rd) \<and> unat (txCnt c1 - peerCnt c1) \<le> unat (peerAlloc c1))"
proof (cases "vsockPeerCredit c = 0")
  case True
  have "reader_turn B i (v, w) = (True, (sendCreditRequestLocked c v, w))"
    using assms True by (simp add: reader_turn.simps Let_def)
  moreover have "stream_to (rd_key rd) (pendingRx (sendCreditRequestLocked c v)) = stream_to (rd_key rd) (pendingRx v)"
    by (simp add: sendCreditRequestLocked_def Let_def stream_to_def)
  moreover have "\<exists>c1. connections (sendCreditRequestLocked c v) (rd_key rd) = Some c1 \<and> txCnt c1 = txCnt c"
    using c by (simp add: sendCreditRequestLocked_def Let_def)
  ultimately show ?thesis using True by (intro exI [of _ "sendCreditRequestLocked c v"] exI [of _ "the (connections (sendCreditRequestLocked c v) (rd_key rd))"] exI [of _ 0]) auto
next
  case False
  let ?credit = "vsockPeerCredit c" and ?len = "length (rd_buf rd)"
  define n where "n = (if ?credit < of_nat ?len then unat ?credit else ?len)"
  have len: "unat (of_nat ?len :: u32) = ?len" using rd(4) by (simp add: unat_of_nat take_bit_eq_mod)
  have "0 < unat ?credit" using False by (simp add: unat_gt_0)
  then have n: "0 < n" "n \<le> ?len" "n \<le> unat ?credit"
    using rd(3) len by (auto simp: n_def word_less_nat_alt not_less)
  define used where "used = txCnt c - peerCnt c"
  have cr: "used < peerAlloc c" "?credit = peerAlloc c - used" using False
    by (auto simp: vsockPeerCredit_def Let_def used_def not_le split: if_splits)
  have nn: "unat (of_nat n :: u32) = n" using n(2) rd(4) by (simp add: unat_of_nat take_bit_eq_mod)
  have "unat ?credit = unat (peerAlloc c) - unat used" using cr by (simp add: unat_sub order_less_imp_le)
  then have sum: "unat used + n \<le> unat (peerAlloc c)" using n(3) cr(1) by (simp add: word_less_nat_alt)
  then have "unat (used + of_nat n) \<le> unat (peerAlloc c)"
    using unat_lt2p [of "peerAlloc c"] nn by (simp add: unat_word_ariths)
  then have fl: "unat (txCnt c + of_nat n - peerCnt c) \<le> unat (peerAlloc c)" by (simp add: used_def algebra_simps)
  have min: "min ?len n = n" using n(2) by simp
  let ?v1 = "set_reader i (rd\<lparr>rd_buf := drop n (rd_buf rd)\<rparr>) (sendDataLocked c (take n (rd_buf rd)) v)"
  have "reader_turn B i (v, w) = (True, (?v1, w))" using assms False by (simp add: reader_turn.simps Let_def n_def)
  moreover have "connections ?v1 (rd_key rd) = Some (c\<lparr>txCnt := txCnt c + of_nat n\<rparr>)" using c(2) by (simp add: min)
  moreover obtain p where "pendingRx (sendDataLocked c (take n (rd_buf rd)) v) = pendingRx v @ [p]" "data_for (rd_key rd) p = take n (rd_buf rd)"
    using sendData_stream [OF c(2), of "take n (rd_buf rd)" v] rd(4) by (auto simp: min_less_iff_disj)
  then have "stream_to (rd_key rd) (pendingRx ?v1) = stream_to (rd_key rd) (pendingRx v) @ take n (rd_buf rd)"
    by (simp add: stream_to_def)
  ultimately show ?thesis using fl n(1,2) False
    by (intro exI [of _ ?v1] exI [of _ "c\<lparr>txCnt := txCnt c + of_nat n\<rparr>"] exI [of _ n]) simp
qed

theorem Vsock_respects_credit_witness:
  "let v = set_reader 0 \<lparr>rd_conn = 0, rd_key = demo_vkey, rd_buf = [1, 2, 3, 4, 5], rd_done = False\<rparr> demo_vsock;
     v1 = fst (snd (reader_turn (simple_vsock True) 0 (v, (flat_vm demo_mem, demo_ends))))
   in \<exists>c1 n. connections v1 demo_vkey = Some c1 \<and> 0 < n \<and> stream_to demo_vkey (pendingRx v1) = take n [1, 2, 3, 4, 5] \<and>
     unat (txCnt c1 - peerCnt c1) \<le> unat (peerAlloc c1)"
proof -
  let ?rd = "\<lparr>rd_conn = 0, rd_key = demo_vkey, rd_buf = [1, 2, 3, 4, 5], rd_done = False\<rparr>"
  let ?c = "\<lparr>vc_key = demo_vkey, vc_state = vsockConnStateConnected, peerAlloc = 4, peerCnt = 0, txCnt = 0, rxCnt = 0,
    creditRequestPending = False, vc_backend = 0\<rparr>"
  have "vsockPeerCredit ?c \<noteq> 0" by code_simp
  then show ?thesis
    using Vsock_respects_credit [of 0 "set_reader 0 ?rd demo_vsock" ?rd ?c "simple_vsock True" "(flat_vm demo_mem, demo_ends)"]
    unfolding Let_def by auto
qed

text \<open>
  C40 (safety). Readers find their connection by its ports only. When the guest resets a connection
  and opens it again between the same ports, a reader of the old connection that still holds bytes
  sends them as data of the new one, which has another backend.
\<close>

theorem Vsock_stale_reader:
  assumes rd: "i < length (readers v)" "rd = readers v ! i" "rd_key rd = key" "\<not> rd_done rd" "rd_buf rd \<noteq> []" "length (rd_buf rd) \<le> 3072"
    and c: "connections v key = Some c" "vc_backend c = rd_conn rd" "backend_set v"
    and rst: "Op rst = vsockOpRST" "packet_key rst = key" "Len rst = 0"
    and req: "Op req = vsockOpRequest" "packet_key req = key" "Len req = 0" "BufAlloc req \<noteq> 0" "FwdCnt req = 0"
    and new: "vb_connect B (localPort key) (vb_close B (rd_conn rd) w) = (ConnectOk h, w1)" "h \<noteq> rd_conn rd"
    and run: "guest_packet B (encodeVsockHeader rst) (v, w) = (r1, s1)" "guest_packet B (encodeVsockHeader req) s1 = (r2, (v2, w2))"
      "reader_turn B i (v2, w2) = (f, (v3, w3))"
  shows "\<exists>c3 n. connections v3 key = Some c3 \<and> vc_backend c3 = h \<and> 0 < n \<and>
    stream_to key (pendingRx v3) = stream_to key (pendingRx v2) @ take n (rd_buf rd)"
proof -
  have p: "parseVsockHeader (encodeVsockHeader hdr) = Inr hdr" for hdr using parse_encodeVsockHeader [of hdr "[]"] by simp
  have "s1 = (drop_conn key v, vb_close B (rd_conn rd) w)"
    using run(1) c rst by (simp add: guest_packet.simps p Let_def handleResetLocked.simps vsock_ops)
  moreover have "DstPort req = localPort key" using req(2) by (auto simp: packet_key_def)
  ultimately have v2: "readers v2 = readers v @ [\<lparr>rd_conn = h, rd_key = key, rd_buf = [], rd_done = False\<rparr>]"
      "connections v2 key = Some \<lparr>vc_key = key, vc_state = vsockConnStateConnected, peerAlloc = BufAlloc req, peerCnt = 0, txCnt = 0,
         rxCnt = 0, creditRequestPending = False, vc_backend = h\<rparr>"
    using run(2) req new(1) c(3)
    by (auto simp: guest_packet.simps p Let_def handleConnectLocked.simps sendResponseLocked_def drop_conn_def)
  let ?c = "\<lparr>vc_key = key, vc_state = vsockConnStateConnected, peerAlloc = BufAlloc req, peerCnt = 0, txCnt = 0, rxCnt = 0,
    creditRequestPending = False, vc_backend = h\<rparr>"
  have cr: "vsockPeerCredit ?c \<noteq> 0" using req(4) by (simp add: vsockPeerCredit_def)
  define n where "n = (if vsockPeerCredit ?c < of_nat (length (rd_buf rd)) then unat (vsockPeerCredit ?c) else length (rd_buf rd))"
  have n: "0 < n" using cr rd(5) by (auto simp: n_def unat_gt_0)
  have "readers v2 ! i = rd" "\<not> length (readers v2) \<le> i" using rd(1,2) by (simp_all add: v2 nth_append)
  then have v3: "v3 = set_reader i (rd\<lparr>rd_buf := drop n (rd_buf rd)\<rparr>) (sendDataLocked ?c (take n (rd_buf rd)) v2)"
    using run(3) rd(3-6) v2(2) cr by (simp add: reader_turn.simps Let_def n_def)
  obtain q where "pendingRx (sendDataLocked ?c (take n (rd_buf rd)) v2) = pendingRx v2 @ [q]" "data_for key q = take n (rd_buf rd)"
    using sendData_stream [of ?c key "take n (rd_buf rd)" v2] rd(6) by (auto simp: min_less_iff_disj)
  then have "stream_to key (pendingRx v3) = stream_to key (pendingRx v2) @ take n (rd_buf rd)" by (simp add: v3 stream_to_def)
  then show ?thesis using n by (simp add: v3) blast
qed

definition demo_ctl :: "u16 \<Rightarrow> vsockHeader" where
  "demo_ctl op = \<lparr>SrcCID = 3, DstCID = 2, SrcPort = 2048, DstPort = 1024, Len = 0, Type = 1, Op = op, Flags = 0, BufAlloc = 4, FwdCnt = 0\<rparr>"

theorem Vsock_stale_reader_witness:
  "let v = set_reader 0 \<lparr>rd_conn = 0, rd_key = demo_vkey, rd_buf = [1, 2, 3, 4, 5], rd_done = False\<rparr> demo_vsock;
     B = simple_vsock True;
     s1 = snd (guest_packet B (encodeVsockHeader (demo_ctl vsockOpRST)) (v, (flat_vm demo_mem, demo_ends)));
     s2 = snd (guest_packet B (encodeVsockHeader (demo_ctl vsockOpRequest)) s1);
     v3 = fst (snd (reader_turn B 0 s2))
   in \<exists>c3 n. connections v3 demo_vkey = Some c3 \<and> vc_backend c3 = 2 \<and> 0 < n \<and>
     stream_to demo_vkey (pendingRx v3) = stream_to demo_vkey (pendingRx (fst s2)) @ take n [1, 2, 3, 4, 5]"
proof -
  let ?rd = "\<lparr>rd_conn = 0, rd_key = demo_vkey, rd_buf = [1, 2, 3, 4, 5 :: u8], rd_done = False\<rparr>"
  let ?v = "set_reader 0 ?rd demo_vsock" and ?B = "simple_vsock True :: (kvm_vm \<times> simple_backend) vsock_backend" and ?w = "(flat_vm demo_mem, demo_ends)"
  obtain r1 s1 where 1: "guest_packet ?B (encodeVsockHeader (demo_ctl vsockOpRST)) (?v, ?w) = (r1, s1)" by (metis prod.exhaust)
  obtain r2 v2 w2 where 2: "guest_packet ?B (encodeVsockHeader (demo_ctl vsockOpRequest)) s1 = (r2, (v2, w2))" by (rule prod_cases3)
  obtain f v3 w3 where 3: "reader_turn ?B 0 (v2, w2) = (f, (v3, w3))" by (rule prod_cases3)
  have "backend_set ?v" by (simp add: set_reader_def demo_vsock_def NewVsock_def Vsock_resetLocked_def resetLocked_def)
  moreover have "\<exists>w1. vb_connect ?B (localPort demo_vkey) (vb_close ?B 0 ?w) = (ConnectOk 2, w1)"
    by (simp add: simple_vsock_def simple_Connect_def simple_Close_def demo_ends_def demo_vkey_def Let_def)
  ultimately show ?thesis
    using Vsock_stale_reader [OF _ _ _ _ _ _ _ _ _ _ _ _ _ _ _ _ _ _ _ 1 2 3, of ?rd demo_vkey _ 2]
    unfolding Let_def 1 2 3 snd_conv fst_conv by (auto simp: demo_ctl_def packet_key_def demo_vkey_def)
qed

end
