(* ===== verification/VsockTransmit.thy ===== *)
theory VsockTransmit
  imports VsockStream
begin

text \<open>
  The transmit queue of the socket device: what the guest publishes for a connection reaches the
  backend. The locale \<open>vsock_host\<close> is the contract between the device and a backend in one world
  with guest memory; the backend of the source, beside the memory of a KVM machine, is its instance.
\<close>

locale vsock_host = guest_ram H ok view valid
  for H :: "'w host"
    and ok :: "'w \<Rightarrow> bool"
    and view :: "'w \<Rightarrow> u64 \<Rightarrow> u8 option"
    and valid :: "'w \<Rightarrow> u64 \<Rightarrow> nat \<Rightarrow> bool" +
  fixes B :: "'w vsock_backend"
    and sent :: "nat \<Rightarrow> 'w \<Rightarrow> bytes"
    and room :: "nat \<Rightarrow> nat \<Rightarrow> 'w \<Rightarrow> bool"
  assumes write_room: "room i (Suc n) w \<Longrightarrow> \<exists>w1. vb_write B i data w = (BackendWrote, w1) \<and> sent i w1 = sent i w @ data \<and> room i n w1"
    and room_less: "room i (Suc n) w \<Longrightarrow> room i n w"
    and write_mem: "ok w \<Longrightarrow> vb_write B i data w = (o1, w1) \<Longrightarrow> ok w1 \<and> view w1 = view w \<and> valid w1 = valid w"
    and connect_mem: "ok w \<Longrightarrow> vb_connect B port w = (o2, w1) \<Longrightarrow> ok w1 \<and> view w1 = view w \<and> valid w1 = valid w"
    and close_mem: "ok w \<Longrightarrow> ok (vb_close B i w) \<and> view (vb_close B i w) = view w \<and> valid (vb_close B i w) = valid w"
    and memory_sent: "WriteIPA H a bs w = (r, w1) \<Longrightarrow> sent i w1 = sent i w \<and> room i n w1 = room i n w"
    and irq_sent: "SetIRQ H l b w = (r, w1) \<Longrightarrow> sent i w1 = sent i w \<and> room i n w1 = room i n w"

section \<open>Chains\<close>

lemma Vsock_readDescriptorLocked_eq: "Vsock_readDescriptorLocked H q i w = Console_readDescriptorLocked H q i w"
  by (simp add: Vsock_readDescriptorLocked_def Console_readDescriptorLocked_def)

lemma Vsock_readChain_loop_eq: "Vsock_readChain_loop n H q out i w = Console_readChain_loop n H q out i w"
  by (induction n arbitrary: out i) (auto simp: Vsock_readChain_loop.simps Vsock_readDescriptorLocked_eq split: sum.split)

lemma Vsock_readChainLocked_eq: "Vsock_readChainLocked H q head w = Console_readChainLocked H q head w"
  by (simp add: Vsock_readChainLocked_def Console_readChainLocked_def Vsock_readChain_loop_eq)

lemma sends_queues [simp]:
  "queues (queueRxPacketLocked p v) = queues v" "queues (sendResetLocked hdr v) = queues v" "queues (sendResponseLocked hdr v) = queues v"
  "queues (sendCreditUpdateLocked c v) = queues v" "queues (put_conn c v) = queues v" "queues (drop_conn k v) = queues v"
  by (simp_all add: queueRxPacketLocked_def sendResetLocked_def sendResponseLocked_def sendCreditUpdateLocked_def put_conn_def drop_conn_def)

lemma guest_packet_queues: "queues (fst (snd (guest_packet B data (v, w)))) = queues v"
proof (cases "parseVsockHeader data")
  case (Inr hdr)
  have "queues (fst (snd (handleConnectLocked B hdr (v, w)))) = queues v"
    by (simp add: handleConnectLocked.simps Let_def split: prod.split connect_result.split)
  moreover have "queues (fst (snd (handleDataLocked B hdr p (v, w)))) = queues v" for p
    by (simp add: handleDataLocked.simps Let_def split: prod.split option.split write_outcome.split)
  moreover have "queues (fst (handleResetLocked B hdr (v, w))) = queues v" "queues (fst (handleShutdownLocked B hdr (v, w))) = queues v"
    by (simp_all add: handleResetLocked.simps handleShutdownLocked.simps split: option.split)
  moreover have "queues (handleResponseLocked hdr v) = queues v" "queues (handleCreditUpdateLocked hdr v) = queues v"
      "queues (handleCreditRequestLocked hdr v) = queues v"
    by (simp_all add: handleResponseLocked_def handleCreditUpdateLocked_def handleCreditRequestLocked_def split: option.split)
  ultimately show ?thesis by (simp add: guest_packet.simps Inr Let_def)
qed (simp add: guest_packet.simps)

lemma handleTX_queues: "handleTXPacketLocked H B head (v, w) = (r, (v1, w1)) \<Longrightarrow> queues v1 = queues v"
  using guest_packet_queues [of B _ v w]
  by (auto simp: handleTXPacketLocked.simps split: sum.splits prod.splits) (metis fst_conv snd_conv)+

context vsock_host
begin

lemma guest_packet_mem:
  assumes "ok w" and "guest_packet B data (v, w) = (r, (v1, w1))"
  shows "ok w1 \<and> view w1 = view w \<and> valid w1 = valid w"
proof (cases "parseVsockHeader data")
  case (Inr hdr)
  let ?P = "\<lambda>w1. ok w1 \<and> view w1 = view w \<and> valid w1 = valid w"
  have "?P (snd (snd (handleConnectLocked B hdr (v, w))))"
    using assms(1) connect_mem [OF assms(1)] by (auto simp: handleConnectLocked.simps Let_def split: prod.split connect_result.split)
  moreover have "?P (snd (snd (handleDataLocked B hdr p (v, w))))" for p
    using assms(1) write_mem [OF assms(1)] close_mem
    by (auto simp: handleDataLocked.simps Let_def split: prod.split option.split write_outcome.split)
  moreover have "?P (snd (handleResetLocked B hdr (v, w)))" "?P (snd (handleShutdownLocked B hdr (v, w)))"
    using assms(1) close_mem by (auto simp: handleResetLocked.simps handleShutdownLocked.simps split: option.split)
  ultimately have "?P (snd (snd (guest_packet B data (v, w))))" using assms(1) by (simp add: guest_packet.simps Inr Let_def)
  then show ?thesis using assms(2) by simp
qed (use assms in \<open>auto simp: guest_packet.simps split: if_splits\<close>)

lemma handleTX_mem:
  assumes "ok w" and "handleTXPacketLocked H B head (v, w) = (r, (v1, w1))"
  shows "ok w1 \<and> view w1 = view w \<and> valid w1 = valid w"
  using assms guest_packet_mem [OF assms(1)]
  by (auto simp: handleTXPacketLocked.simps split: sum.splits prod.splits)

end

sublocale vsock_host \<subseteq> vtx: queue_reader H ok view valid "\<lambda>v. vsockQueueTX < length (queues v)"
  "\<lambda>v. queues v ! vsockQueueTX" "\<lambda>q. upd_queue vsockQueueTX (\<lambda>_. q)" "handleTXPacketLocked H B"
proof (unfold_locales, goal_cases)
  case (3 d head w r d1 w1)
  then show ?case using handleTX_queues by metis
next
  case (4 d head w r d1 w1)
  then show ?case using handleTX_queues by metis
next
  case (5 d w head r d1 w1)
  then show ?case using handleTX_mem by blast
qed simp_all

section \<open>Data for one connection\<close>

text \<open>A packet with data for a connection, and a connection to a backend that has received \<open>n\<close> bytes.\<close>

definition rw_packet :: "vsockConnKey \<Rightarrow> bytes \<Rightarrow> bytes \<Rightarrow> bool" where
  "rw_packet key data payload \<longleftrightarrow>
     (\<exists>hdr. data = encodeVsockHeader hdr @ payload \<and> Op hdr = vsockOpRW \<and> packet_key hdr = key \<and>
        length payload < 2 ^ 32 \<and> Len hdr = of_nat (length payload))"

definition conn_on :: "vsockConnKey \<Rightarrow> nat \<Rightarrow> u32 \<Rightarrow> vsock \<Rightarrow> bool" where
  "conn_on key h n v \<longleftrightarrow>
     (\<exists>c. connections v key = Some c \<and> vc_key c = key \<and> vc_state c = vsockConnStateConnected \<and> vc_backend c = h \<and> rxCnt c = n)"

lemma conn_on_cong: "connections v1 = connections v \<Longrightarrow> conn_on key h n v1 = conn_on key h n v"
  by (simp add: conn_on_def)

lemma sendCreditUpdate_connections [simp]: "connections (sendCreditUpdateLocked c v) = connections v"
  by (simp add: sendCreditUpdateLocked_def)

context vsock_host
begin

lemma guest_packet_data:
  assumes "rw_packet key data payload" and "conn_on key h n v" and "room h (Suc k) w"
  shows "\<exists>v1 w1. guest_packet B data (v, w) = (Inr (), (v1, w1)) \<and> sent h w1 = sent h w @ payload \<and> room h k w1 \<and>
    conn_on key h (n + of_nat (length payload)) v1 \<and> queues v1 = queues v \<and> mem_attached v1 = mem_attached v"
proof -
  obtain hdr where hdr: "data = encodeVsockHeader hdr @ payload" "Op hdr = vsockOpRW" "packet_key hdr = key"
      "length payload < 2 ^ 32" "Len hdr = of_nat (length payload)" using assms(1) by (auto simp: rw_packet_def)
  obtain c where c: "connections v key = Some c" "vc_key c = key" "vc_state c = vsockConnStateConnected" "vc_backend c = h" "rxCnt c = n"
    using assms(2) by (auto simp: conn_on_def)
  have "unat (Len hdr) = length payload" using hdr(4,5) by (simp add: unat_of_nat take_bit_eq_mod)
  then have p: "guest_packet B data (v, w) = handleDataLocked B hdr payload (v, w)"
    using hdr by (simp add: guest_packet.simps Let_def vsock_ops)
  let ?c1 = "c\<lparr>peerAlloc := BufAlloc hdr, peerCnt := FwdCnt hdr\<rparr>"
  have frame: "queues (sendCreditUpdateLocked c2 (put_conn c2 v)) = queues v \<and> mem_attached (sendCreditUpdateLocked c2 (put_conn c2 v)) = mem_attached v" for c2
    by (simp add: sendCreditUpdateLocked_def queueRxPacketLocked_def put_conn_def)
  show ?thesis
  proof (cases "payload = []")
    case True
    then have "guest_packet B data (v, w) = (Inr (), (sendCreditUpdateLocked ?c1 (put_conn ?c1 v), w))"
      using c hdr(3) by (simp add: p handleDataLocked.simps Let_def)
    moreover have "conn_on key h n (sendCreditUpdateLocked ?c1 (put_conn ?c1 v))" using c by (simp add: conn_on_def)
    ultimately show ?thesis using True frame room_less [OF assms(3)] by simp
  next
    case False
    obtain w1 where w1: "vb_write B h payload w = (BackendWrote, w1)" "sent h w1 = sent h w @ payload" "room h k w1"
      using write_room [OF assms(3)] by blast
    let ?c2 = "?c1\<lparr>rxCnt := rxCnt ?c1 + of_nat (length payload)\<rparr>"
    have "guest_packet B data (v, w) = (Inr (), (sendCreditUpdateLocked ?c2 (put_conn ?c2 v), w1))"
      using c hdr(3) False w1(1) by (simp add: p handleDataLocked.simps Let_def)
    moreover have "conn_on key h (n + of_nat (length payload)) (sendCreditUpdateLocked ?c2 (put_conn ?c2 v))"
      using c by (simp add: conn_on_def)
    ultimately show ?thesis using w1(2,3) frame by simp
  qed
qed

lemma handleTX_data:
  assumes "ok w" and "table_ok (valid w) (queues v ! vsockQueueTX)"
    and "chain_ok (valid w) (view w) (queues v ! vsockQueueTX) head ds"
    and "rw_packet key (chain_bytes (view w) ds) payload" and "conn_on key h n v" and "room h (Suc k) w"
  shows "\<exists>v1 w1 len. handleTXPacketLocked H B head (v, w) = (Inr len, (v1, w1)) \<and> sent h w1 = sent h w @ payload \<and> room h k w1 \<and>
    conn_on key h (n + of_nat (length payload)) v1 \<and> queues v1 = queues v \<and> mem_attached v1 = mem_attached v"
proof -
  have "Vsock_readChainLocked H (queues v ! vsockQueueTX) head w = Inr (chain_bytes (view w) ds)"
    by (simp add: Vsock_readChainLocked_eq Console_readChainLocked_bytes [OF assms(1-3)])
  moreover obtain v1 w1 where "guest_packet B (chain_bytes (view w) ds) (v, w) = (Inr (), (v1, w1))" "sent h w1 = sent h w @ payload"
      "room h k w1" "conn_on key h (n + of_nat (length payload)) v1" "queues v1 = queues v" "mem_attached v1 = mem_attached v"
    using guest_packet_data [OF assms(4-6)] by blast
  ultimately show ?thesis by (simp add: handleTXPacketLocked.simps)
qed

lemma writeQueueUsed_sent:
  "writeQueueUsed H head n (q, w) = (r, (q', w')) \<Longrightarrow> sent i w' = sent i w \<and> room i k w' = room i k w"
  by (auto simp: writeQueueUsed_def Let_def dest!: memory_sent split: if_splits prod.splits sum.splits)

lemma drain_data:
  assumes "ok w" and "vsockQueueTX < length (queues v)" and "q = queues v ! vsockQueueTX"
    and "rings_ok (valid w) q" and "table_ok (valid w) q" and "pending q a = length Cs" and "length ps = length Cs"
    and "\<And>i. i < length Cs \<Longrightarrow>
      chain_ok (valid w) (view w) q (avail_head (view w) q (lastAvailIdx q + of_nat i)) (Cs ! i) \<and>
      rw_packet key (chain_bytes (view w) (Cs ! i)) (ps ! i)"
    and "conn_on key h n v" and "room h (length Cs) w"
  shows "\<exists>v' w'. vsockTxLoop (length Cs) H B a (v, w) = (Inr (), (v', w')) \<and> sent h w' = sent h w @ concat ps \<and>
    conn_on key h (n + of_nat (length (concat ps))) v'"
  using assms
proof (induction Cs arbitrary: ps v w q n)
  case Nil
  then have "a - lastAvailIdx q = 0" by (simp add: pending_def word_unat_eq_iff)
  then have "vsockTxLoop 0 H B a (v, w) = (Inr (), (v, w))" by (intro vtx.drain_done) (use Nil.prems(3) in simp)
  then show ?case using Nil.prems(7,9) by simp
next
  case (Cons ds Cs)
  then obtain payload ps' where ps: "ps = payload # ps'" "length ps' = length Cs" by (cases ps) auto
  let ?q' = "q\<lparr>usedIdx := usedIdx q + 1, lastAvailIdx := lastAvailIdx q + 1\<rparr>" and ?h = "avail_head (view w) q (lastAvailIdx q)"
  have c0: "chain_ok (valid w) (view w) (queues v ! vsockQueueTX) ?h ds" "rw_packet key (chain_bytes (view w) ds) payload"
    using Cons.prems(8) [of 0] Cons.prems(3) ps by simp_all
  obtain v1 w1 len where w1: "handleTXPacketLocked H B ?h (v, w) = (Inr len, (v1, w1))" "sent h w1 = sent h w @ payload" "room h (length Cs) w1"
      "conn_on key h (n + of_nat (length payload)) v1" "queues v1 = queues v"
    using handleTX_data [OF Cons.prems(1) _ c0 Cons.prems(9), of "length Cs"] Cons.prems(3,5,10) by auto
  have ne: "lastAvailIdx q \<noteq> a" using Cons.prems(6) by (auto simp: pending_def)
  obtain w2 where w2: "vsockTxLoop (Suc (length Cs)) H B a (v, w) = vsockTxLoop (length Cs) H B a (upd_queue vsockQueueTX (\<lambda>_. ?q') v1, w2)"
      "writeQueueUsed H ?h len (q, w1) = (Inr (), (q\<lparr>usedIdx := usedIdx q + 1\<rparr>, w2))" "ok w2" "valid w2 = valid w"
      "view w2 = put_view (put_view (view w) (used_slot q (usedIdx q)) (used_elem ?h len)) (usedAddr q + 2) (put_le16 (usedIdx q + 1))"
    by (rule vtx.drain_round [of w v a len v1 w1 ?q' "length Cs"]) (use Cons.prems ne w1(1) in auto)
  have size: "q_size q \<noteq> 0" using Cons.prems(4) by (simp add: rings_ok_def)
  have only: "used_only q (view w) (view w2)" unfolding w2(5) by (rule used_only_stores [OF size])
  have same: "chain_ok x m ?q' = chain_ok x m q" "table_ok x ?q' = table_ok x q" "rings_ok x ?q' = rings_ok x q"
      "avail_head m ?q' i = avail_head m q i" for x m i
    by (rule chain_queue_cong ring_addr_cong; simp)+
  have heads: "avail_head (view w2) q i = avail_head (view w) q i" for i by (rule used_stores_avail [OF Cons.prems(4) w2(5)])
  have bytes: "chain_bytes (view w2) (Cs ! i) = chain_bytes (view w) (Cs ! i)" if "i < length Cs" for i
    using Cons.prems(8) [of "Suc i"] that chain_bytes_used_only [OF only] by auto
  have chains: "chain_ok (valid w2) (view w2) ?q' (avail_head (view w2) ?q' (lastAvailIdx ?q' + of_nat i)) (Cs ! i) \<and>
      rw_packet key (chain_bytes (view w2) (Cs ! i)) (ps' ! i)" if "i < length Cs" for i
    using Cons.prems(8) [of "Suc i"] that bytes [OF that] ps(1)
    unfolding same heads chain_ok_used_only [OF only Cons.prems(5)] w2(4) by (simp add: add.assoc)
  have "\<exists>v' w'. vsockTxLoop (length Cs) H B a (upd_queue vsockQueueTX (\<lambda>_. ?q') v1, w2) = (Inr (), (v', w')) \<and>
      sent h w' = sent h w2 @ concat ps' \<and> conn_on key h (n + of_nat (length payload) + of_nat (length (concat ps'))) v'"
  proof (rule Cons.IH)
    show "pending ?q' a = length Cs" using pending_pred [OF ne, of "usedIdx q + 1"] Cons.prems(6) by simp
    show "conn_on key h (n + of_nat (length payload)) (upd_queue vsockQueueTX (\<lambda>_. ?q') v1)"
      using w1(4) by (simp add: conn_on_def)
    show "room h (length Cs) w2" using w1(3) writeQueueUsed_sent [OF w2(2)] by blast
  qed (use Cons.prems(2,4,5) w1(5) w2(3,4) chains ps(2) in \<open>simp_all add: same\<close>)
  moreover have "sent h w2 = sent h w1" using writeQueueUsed_sent [OF w2(2)] by blast
  moreover have "length (ds # Cs) = Suc (length Cs)" by simp
  ultimately show ?case unfolding w2(1) w1(2) ps(1) by (simp only: w2(1) w1(2)) (simp add: add.assoc)
qed

text \<open>Delivering packets to the guest leaves the backend alone.\<close>

lemma updateIRQ_sent: "sent i (snd (snd (Vsock_updateIRQLocked H (v, w)))) = sent i w"
  by (auto simp: Vsock_updateIRQLocked.simps Let_def dest!: irq_sent split: prod.split)

lemma fillChain_sent: "sent i (snd (fillChain_loop n H q packet off idx w)) = sent i w"
proof (induction n arbitrary: off idx w)
  case (Suc n)
  have store: "WriteIPA H a bs w = (r, w1) \<Longrightarrow> sent i w1 = sent i w" for a bs r w1 using memory_sent by blast
  show ?case
    by (auto simp: fillChain_loop.simps Let_def Suc.IH store split: sum.split prod.split if_split)
qed (simp add: fillChain_loop.simps)

lemma rxLoop_sent: "sent i (snd (snd (rxLoop n H a p (v, w)))) = sent i w"
proof (induction n arbitrary: p v w)
  case (Suc n)
  have fill: "sent i w1 = sent i w" if "fillChainLocked H q head packet w = (r, w1)" for q head packet r w1
    using fillChain_sent [of i "unat (q_size q)" q packet 0 head w] that by (simp add: fillChainLocked_def)
  have used: "sent i w1 = sent i w0" if "Vsock_writeUsedLocked H head m (q, w0) = (r, (q1, w1))" for head m q w0 r q1 w1
    using writeQueueUsed_sent that unfolding Vsock_writeUsedLocked_def by blast
  show ?case
    by (auto simp: rxLoop.simps Let_def Suc.IH dest!: fill used split: sum.split prod.split)
qed (simp add: rxLoop.simps)

lemma processRX_sent: "sent i (snd (snd (processRXLocked H (v, w)))) = sent i w"
proof -
  have loop: "sent i w1 = sent i w" if "rxLoop n H a p (v, w) = (r, (v1, w1))" for n a p r v1 w1
    using rxLoop_sent [of i n a p v w] that by simp
  show ?thesis
    by (auto simp: processRXLocked.simps Let_def updateIRQ_sent dest!: loop split: sum.split prod.split)
qed

lemma processTX_data:
  assumes "ok w" and "vsockQueueTX < length (queues v)" and "q = queues v ! vsockQueueTX" and "mem_attached v" and "q_ready q"
    and "rings_ok (valid w) q" and "table_ok (valid w) q" and "a = le16 (get_view (view w) (availAddr q + 2) 2)"
    and "pending q a = length Cs" and "length ps = length Cs"
    and "\<And>i. i < length Cs \<Longrightarrow>
      chain_ok (valid w) (view w) q (avail_head (view w) q (lastAvailIdx q + of_nat i)) (Cs ! i) \<and>
      rw_packet key (chain_bytes (view w) (Cs ! i)) (ps ! i)"
    and "conn_on key h n v" and "room h (length Cs) w"
  shows "\<exists>r v' w'. Vsock_processTXLocked H B (v, w) = (r, (v', w')) \<and> sent h w' = sent h w @ concat ps \<and>
    conn_on key h (n + of_nat (length (concat ps))) v'"
proof -
  have size: "q_size q \<noteq> 0" and val: "valid w (availAddr q) 4"
    using assms(6) valid_sub [OF assms(1), of "availAddr q" "avail_bytes q" 0 4] by (auto simp: rings_ok_def avail_bytes_def)
  obtain v1 w1 where l: "vsockTxLoop (length Cs) H B a (v, w) = (Inr (), (v1, w1))" "sent h w1 = sent h w @ concat ps"
      "conn_on key h (n + of_nat (length (concat ps))) v1"
    using drain_data [OF assms(1-3,6,7,9-13)] by blast
  obtain r2 v2 w2 where rx: "processRXLocked H (v1, w1) = (r2, (v2, w2))" by (rule prod_cases3)
  obtain r3 v3 w3 where irq: "Vsock_raise H (v2, w2) = (r3, (v3, w3))" by (rule prod_cases3)
  have s: "sent h w2 = sent h w1" "sent h w3 = sent h w2"
    using processRX_sent [of h v1 w1] rx updateIRQ_sent [of h] irq by (simp_all add: Vsock_raise.simps) (metis snd_conv)+
  have "connections v2 = connections v1" using processRX_frame [of v1 H w1] rx by (simp add: rx_frame_def)
  moreover have "connections v3 = connections v2"
    using updateIRQ_frame [of "v2\<lparr>interruptStatus := interruptStatus v2 OR vsockInterruptVring\<rparr>" H w2] irq
    by (simp add: Vsock_raise.simps rx_frame_def)
  ultimately have c: "conn_on key h (n + of_nat (length (concat ps))) v2" "conn_on key h (n + of_nat (length (concat ps))) v3"
    using l(3) by (simp_all add: conn_on_def)
  have "le16 (slice (get_view (view w) (availAddr q) 4) 2 4) = a" by (simp add: slice_get_view assms(8))
  then have "Vsock_processTXLocked H B (v, w) = (case r2 of Inl e \<Rightarrow> (Inl e, (v2, w2)) | Inr _ \<Rightarrow> (r3, (v3, w3)))"
    using assms(4,5) size
    by (simp add: Vsock_processTXLocked.simps assms(3) [symmetric] read_valid [OF assms(1) val] assms(9) bindE_def l(1) rx irq
        split: sum.split)
  then show ?thesis using l(2) s c by (cases r2) auto
qed

end

section \<open>The backend of the source, beside a KVM machine\<close>

text \<open>
  What the host's end of connection \<open>i\<close> has still to read from its channel, and that the channel
  takes \<open>n\<close> more messages.
\<close>

definition simple_sent :: "nat \<Rightarrow> 'a \<times> simple_backend \<Rightarrow> bytes" where
  "simple_sent i w = (let es = sb_ends (snd w) in concat (sc_readCh (es ! sc_peer (es ! i))))"

definition simple_room :: "nat \<Rightarrow> nat \<Rightarrow> 'a \<times> simple_backend \<Rightarrow> bool" where
  "simple_room i n w \<longleftrightarrow>
     (let es = sb_ends (snd w); p = es ! sc_peer (es ! i)
      in i < length es \<and> sc_peer (es ! i) < length es \<and> \<not> sc_closed (es ! i) \<and> \<not> sc_closed p \<and> length (sc_readCh p) + n \<le> 64)"

lemma simple_write_room:
  assumes "simple_room i (Suc n) w"
  shows "\<exists>w1. vb_write (simple_vsock pick) i data w = (BackendWrote, w1) \<and> simple_sent i w1 = simple_sent i w @ data \<and> simple_room i n w1"
  using assms
  by (cases w) (auto simp: simple_vsock_def simple_Write_def simple_sent_def simple_room_def Let_def nth_list_update)

interpretation simple: vsock_host "fst_host kvm_host" "\<lambda>w. vm_ok (fst w)" "\<lambda>w. vm_view (fst w)" "\<lambda>w. vm_valid (fst w)"
  "simple_vsock pick" simple_sent simple_room for pick
proof (unfold_locales, goal_cases)
  case 1
  then show ?case by (rule simple_write_room)
next
  case 2
  then show ?case by (simp add: simple_room_def Let_def)
qed (auto simp: simple_vsock_def simple_sent_def simple_room_def fst_host_def fst_op_def split: prod.splits)

text \<open>
  C5 (functional). What the guest sends on a connection reaches the host in order: when the guest
  notifies the transmit queue, the channel the host's end reads from grows by the payloads of
  the data packets published since the last notification, whole and in the order of
  publication, and the count of received bytes the device reports back as credit grows by their length.
  The rings and the packets are guest memory the used ring does not overlap, and the channel, of 64
  messages, has room for the packets.
\<close>

theorem Vsock_notify_delivers:
  assumes "vm_ok m" and "vsockQueueTX < length (queues v)" and "q = queues v ! vsockQueueTX" and "mem_attached v" and "q_ready q"
    and "rings_ok (vm_valid m) q" and "table_ok (vm_valid m) q" and "a = le16 (get_view (vm_view m) (availAddr q + 2) 2)"
    and "pending q a = length Cs" and "length ps = length Cs"
    and "\<And>i. i < length Cs \<Longrightarrow>
      chain_ok (vm_valid m) (vm_view m) q (avail_head (vm_view m) q (lastAvailIdx q + of_nat i)) (Cs ! i) \<and>
      rw_packet key (chain_bytes (vm_view m) (Cs ! i)) (ps ! i)"
    and "conn_on key h n v" and "simple_room h (length Cs) (m, b)"
  shows "\<exists>r v' m' b'. Vsock_Write (fst_host kvm_host) (simple_vsock pick) (Base v + regQueueNotify) 4 (of_nat vsockQueueTX) (v, (m, b)) =
      (r, (v', (m', b'))) \<and>
    simple_sent h (m', b') = simple_sent h (m, b) @ concat ps \<and> conn_on key h (n + of_nat (length (concat ps))) v'"
proof -
  let ?v = "v\<lparr>mmioWrites := mmioWrites v + 1, txNotifies := txNotifies v + 1\<rparr>"
  have "Vsock_Write (fst_host kvm_host) (simple_vsock pick) (Base v + regQueueNotify) 4 (of_nat vsockQueueTX) (v, (m, b)) =
      Vsock_processTXLocked (fst_host kvm_host) (simple_vsock pick) (?v, (m, b))"
    by (simp add: Vsock_Write.simps reg_defs)
  moreover have "conn_on key h n ?v" using assms(12) by (simp add: conn_on_def)
  then have "\<exists>r v' w'. Vsock_processTXLocked (fst_host kvm_host) (simple_vsock pick) (?v, (m, b)) = (r, (v', w')) \<and>
      simple_sent h w' = simple_sent h (m, b) @ concat ps \<and> conn_on key h (n + of_nat (length (concat ps))) v'"
    by (intro simple.processTX_data [of "(m, b)" ?v q a Cs ps key h n]) (use assms in simp_all)
  ultimately show ?thesis by auto
qed

text \<open>
  A machine of 110 bytes whose driver published one packet of two bytes for the connection from its
  port 2048 to port 1024 of the host.
\<close>

definition demo_hdr :: vsockHeader where
  "demo_hdr = \<lparr>SrcCID = 3, DstCID = 2, SrcPort = 2048, DstPort = 1024, Len = 2, Type = vsockTypeStream, Op = vsockOpRW, Flags = 0,
     BufAlloc = 4, FwdCnt = 0\<rparr>"

definition demo_packet :: bytes where
  "demo_packet = encodeVsockHeader demo_hdr @ [104, 105]"

definition packet_mem :: bytes where
  "packet_mem = [64, 0, 0, 0, 0, 0, 0, 0, 46, 0, 0, 0, 0, 0, 0, 0] @ [0, 0, 1, 0, 0, 0] @ replicate 42 0 @ demo_packet"

definition packet_chain :: "descriptor list" where
  "packet_chain = [\<lparr>d_addr = 64, d_length = 46, d_flags = 0, d_next = 0\<rparr>]"

definition packet_vsock :: vsock where
  "packet_vsock = demo_vsock\<lparr>mem_attached := True, queues := [zero_queue, demo_queue, zero_queue]\<rparr>"

lemma demo_packet_len [simp]: "length demo_packet = 46" "length packet_mem = 110"
  by (simp_all add: demo_packet_def packet_mem_def encodeVsockHeader_eq)

lemma packet_view:
  "unat a + n \<le> 110 \<Longrightarrow> get_view (vm_view (flat_vm packet_mem)) a n = slice packet_mem (unat a) (unat a + n)"
  by (rule flat_vm_get_view) simp_all

lemma packet_rings:
  "rings_ok (vm_valid (flat_vm packet_mem)) demo_queue" "table_ok (vm_valid (flat_vm packet_mem)) demo_queue"
proof -
  have "apart 32 12 16 6" "apart 32 12 0 16" by (subst apart_sym; rule apart_no_wrap; simp)+
  then show "rings_ok (vm_valid (flat_vm packet_mem)) demo_queue" "table_ok (vm_valid (flat_vm packet_mem)) demo_queue"
    by (simp_all add: rings_ok_def table_ok_def flat_vm_valid used_bytes_def avail_bytes_def)
qed

lemma packet_chain_ok: "chain_ok (vm_valid (flat_vm packet_mem)) (vm_view (flat_vm packet_mem)) demo_queue 0 packet_chain"
proof -
  have "get_view (vm_view (flat_vm packet_mem)) 0 16 = [64, 0, 0, 0, 0, 0, 0, 0, 46, 0, 0, 0, 0, 0, 0, 0]"
    by (simp add: packet_view) (simp add: packet_mem_def slice_def numeral_eq_Suc)
  then have "mem_desc (vm_view (flat_vm packet_mem)) demo_queue 0 = Some (hd packet_chain)"
    by (simp add: mem_desc_def packet_chain_def slice_def decode_descriptor_def le64_def le32_def le16_def)
  moreover have "apart 32 12 64 46" by (rule apart_no_wrap) simp_all
  ultimately show ?thesis
    by (simp add: chain_ok_def packet_chain_def buf_ok_def flat_vm_valid used_bytes_def)
qed

lemma packet_rw: "rw_packet demo_vkey (chain_bytes (vm_view (flat_vm packet_mem)) packet_chain) [104, 105]"
proof -
  have "chain_bytes (vm_view (flat_vm packet_mem)) packet_chain = demo_packet"
    by (simp add: chain_bytes_def packet_chain_def packet_view) (simp add: packet_mem_def slice_def)
  then show ?thesis
    by (auto simp: rw_packet_def demo_packet_def demo_vkey_def packet_key_def demo_hdr_def intro!: exI [of _ demo_hdr])
qed

theorem Vsock_notify_delivers_witness:
  "\<exists>r v' m' b'. Vsock_Write (fst_host kvm_host) (simple_vsock True) (Base packet_vsock + regQueueNotify) 4 (of_nat vsockQueueTX)
      (packet_vsock, (flat_vm packet_mem, demo_ends)) = (r, (v', (m', b'))) \<and>
    simple_sent 0 (m', b') = [104, 105] \<and> conn_on demo_vkey 0 2 v'"
proof -
  have a: "1 = le16 (get_view (vm_view (flat_vm packet_mem)) (availAddr demo_queue + 2) 2)"
    by (simp add: packet_view) (simp add: packet_mem_def slice_def le16_def numeral_eq_Suc)
  have h: "avail_head (vm_view (flat_vm packet_mem)) demo_queue 0 = 0"
    by (simp add: avail_head_def avail_slot_def packet_view) (simp add: packet_mem_def slice_def le16_def numeral_eq_Suc)
  have "vsockQueueTX < length (queues packet_vsock)" "demo_queue = queues packet_vsock ! vsockQueueTX" "mem_attached packet_vsock"
    by (simp_all add: packet_vsock_def vsockQueueTX_def)
  moreover have "vm_ok (flat_vm packet_mem)" by (rule flat_vm_ok) simp
  moreover have "pending demo_queue 1 = length [packet_chain]" by (simp add: pending_def)
  moreover have "conn_on demo_vkey 0 0 packet_vsock" by (simp add: conn_on_def packet_vsock_def)
  moreover have "simple_room 0 1 (flat_vm packet_mem, demo_ends)" "simple_sent 0 (flat_vm packet_mem, demo_ends) = []"
    by (simp_all add: simple_room_def simple_sent_def demo_ends_def)
  ultimately show ?thesis
    using Vsock_notify_delivers [of "flat_vm packet_mem" packet_vsock demo_queue 1 "[packet_chain]" "[[104, 105]]" demo_vkey 0 0 demo_ends True]
      packet_rings a packet_chain_ok h packet_rw by auto
qed

end
