(* ===== verification/Rng.thy ===== *)
theory Rng
  imports VirtioMmio KvmMemory
begin

text \<open>
  The virtio entropy device (\<^verbatim>\<open>internal/virtio/rng.go\<close>), with the legacy register layout.
  The random source is an \<^verbatim>\<open>io.Reader\<close> filled through \<^verbatim>\<open>io.ReadFull\<close>: it is an argument of
  the handlers, a computation that returns the bytes asked for or an error. The single queue
  of the source is the one element of the queue list.
\<close>

type_synonym 'w reader = "nat \<Rightarrow> ('w, bytes) op"

definition mmioDeviceIDRNG :: u64 where "mmioDeviceIDRNG = 4"
definition rngQueue :: nat where "rngQueue = 0"

definition NewRNG :: "u64 \<Rightarrow> u64 \<Rightarrow> u32 \<Rightarrow> virtio_dev" where
  "NewRNG base sz irq = resetLocked \<lparr>Base = base, Size = sz, IRQ = irq, LegacyMMIO = False,
     mem_attached = False, irq_attached = False, deviceFeatureSel = 0, driverFeatureSel = 0,
     driverFeatures = 0, queueSel = 0, status = 0, interruptStatus = 0, irqHigh = False,
     configGeneration = 0, queues = [zero_queue]\<rparr>"

abbreviation rng_queue :: "virtio_dev \<Rightarrow> queue" where
  "rng_queue r \<equiv> queues r ! rngQueue"

definition rng_selected :: "virtio_dev \<Rightarrow> bool" where
  "rng_selected r \<longleftrightarrow> queueSel r = of_nat rngQueue"

definition on_rng_queue :: "(queue \<Rightarrow> queue) \<Rightarrow> virtio_dev \<Rightarrow> virtio_dev" where
  "on_rng_queue f r = (if rng_selected r then upd_queue rngQueue f r else r)"

section \<open>Reading registers\<close>

definition RNG_Read :: "u64 \<Rightarrow> nat \<Rightarrow> virtio_dev \<Rightarrow> u64" where
  "RNG_Read addr sz r =
     (let offset = addr - Base r
      in if offset = regMagicValue then truncateValue mmioMagicValue sz
         else if offset = regVersion then truncateValue (ucast (mmioTransportVersion (LegacyMMIO r))) sz
         else if offset = regDeviceID then truncateValue mmioDeviceIDRNG sz
         else if offset = regVendorID then truncateValue mmioVendorID sz
         else if offset = regDeviceFeatures then
           (if LegacyMMIO r then 0 else if deviceFeatureSel r = 1 then truncateValue 1 sz else 0)
         else if offset = regQueueNumMax then (if rng_selected r then truncateValue 256 sz else 0)
         else if offset = regQueueNum then
           (if rng_selected r then truncateValue (ucast (q_size (rng_queue r))) sz else 0)
         else if offset = regQueueReady then
           (if LegacyMMIO r then 0
            else if rng_selected r \<and> q_ready (rng_queue r) then truncateValue 1 sz else 0)
         else if offset = regQueuePFN then
           (if LegacyMMIO r \<and> rng_selected r \<and> q_ready (rng_queue r)
            then truncateValue (descAddr (rng_queue r) div 4096) sz else 0)
         else if offset = regInterruptStatus then truncateValue (ucast (interruptStatus r)) sz
         else if offset = regStatus then truncateValue (ucast (status r)) sz
         else if offset = regConfigGen then truncateValue (ucast (configGeneration r)) sz
         else 0)"

section \<open>Filling chains\<close>

definition RNG_readDescriptorLocked :: "'w host \<Rightarrow> queue \<Rightarrow> u16 \<Rightarrow> 'w \<Rightarrow> error + descriptor" where
  "RNG_readDescriptorLocked H q index w =
     (if q_size q \<le> index then Inl DescIndexOutOfRange
      else case ReadIPA H (descAddr q + ucast index * 16) 16 w of
        Inl e \<Rightarrow> Inl e
      | Inr buf \<Rightarrow> Inr (decode_descriptor buf))"

text \<open>One descriptor of the loop in \<^verbatim>\<open>fillChainLocked\<close>: the bytes it writes.\<close>

definition RNG_fillDescriptor :: "'w host \<Rightarrow> 'w reader \<Rightarrow> descriptor \<Rightarrow> ('w, unit) op" where
  "RNG_fillDescriptor H rand desc w =
     (if d_flags desc AND descFWrite \<noteq> 0 \<and> 0 < d_length desc
      then bindE (rand (unat (d_length desc))) (\<lambda>buf. WriteIPA H (d_addr desc) buf) w
      else (Inr (), w))"

text \<open>The loop of \<^verbatim>\<open>fillChainLocked\<close>: the first argument is \<^verbatim>\<open>q.size - i\<close>.\<close>

fun RNG_fillChain_loop ::
    "nat \<Rightarrow> 'w host \<Rightarrow> 'w reader \<Rightarrow> queue \<Rightarrow> u32 \<Rightarrow> u16 \<Rightarrow> ('w, u32) op" where
  "RNG_fillChain_loop 0 H rand q written index w = (Inl DescChainLoop, w)"
| "RNG_fillChain_loop (Suc n) H rand q written index w =
     (case RNG_readDescriptorLocked H q index w of
        Inl e \<Rightarrow> (Inl e, w)
      | Inr desc \<Rightarrow>
          (case RNG_fillDescriptor H rand desc w of
             (Inl e, w1) \<Rightarrow> (Inl e, w1)
           | (Inr _, w1) \<Rightarrow>
               let written' = (if d_flags desc AND descFWrite \<noteq> 0 \<and> 0 < d_length desc
                               then written + d_length desc else written)
               in if d_flags desc AND descFNext = 0 then (Inr written', w1)
                  else RNG_fillChain_loop n H rand q written' (d_next desc) w1))"

definition RNG_fillChainLocked :: "'w host \<Rightarrow> 'w reader \<Rightarrow> queue \<Rightarrow> u16 \<Rightarrow> ('w, u32) op" where
  "RNG_fillChainLocked H rand q head = RNG_fillChain_loop (unat (q_size q)) H rand q 0 head"

definition RNG_writeUsedLocked :: "'w host \<Rightarrow> u16 \<Rightarrow> u32 \<Rightarrow> (queue \<times> 'w, unit) op" where
  "RNG_writeUsedLocked = writeQueueUsed"

definition RNG_updateIRQLocked :: "'w host \<Rightarrow> (virtio_dev \<times> 'w, unit) op" where
  "RNG_updateIRQLocked = updateIRQLocked"

definition RNG_resetLocked :: "virtio_dev \<Rightarrow> virtio_dev" where
  "RNG_resetLocked = resetLocked"

definition RNG_IRQAsserted :: "virtio_dev option \<Rightarrow> bool" where
  "RNG_IRQAsserted r = (case r of None \<Rightarrow> False | Some r \<Rightarrow> interruptStatus r \<noteq> 0 \<or> irqHigh r)"

fun RNG_serve :: "'w host \<Rightarrow> 'w reader \<Rightarrow> u16 \<Rightarrow> (virtio_dev \<times> 'w, u32) op" where
  "RNG_serve H rand head (r, w) =
     (case RNG_fillChainLocked H rand (rng_queue r) head w of (res, w1) \<Rightarrow> (res, (r, w1)))"

abbreviation rngLoop :: "nat \<Rightarrow> 'w host \<Rightarrow> 'w reader \<Rightarrow> u16 \<Rightarrow> (virtio_dev \<times> 'w, unit) op" where
  "rngLoop n H rand \<equiv> drain n H rng_queue (\<lambda>q. upd_queue rngQueue (\<lambda>_. q)) (RNG_serve H rand)"

fun RNG_processQueueLocked :: "'w host \<Rightarrow> 'w reader \<Rightarrow> (virtio_dev \<times> 'w, unit) op" where
  "RNG_processQueueLocked H rand (r, w) =
     (let q = rng_queue r
      in if \<not> q_ready q \<or> q_size q = 0 \<or> \<not> mem_attached r then (Inr (), (r, w))
         else case ReadIPA H (availAddr q) 4 w of
           Inl e \<Rightarrow> (Inl e, (r, w))
         | Inr header \<Rightarrow>
             let availIdx = le16 (slice header 2 4)
             in bindE (rngLoop (pending q availIdx) H rand availIdx)
                  (\<lambda>_ (r, w). RNG_updateIRQLocked H (r\<lparr>interruptStatus := interruptStatus r OR intVring\<rparr>, w))
                  (r, w))"

section \<open>Writing registers\<close>

definition RNG_configureLegacyQueueLocked :: "u32 \<Rightarrow> queue \<Rightarrow> queue" where
  "RNG_configureLegacyQueueLocked pfn q =
     (let q1 = (if q_size q = 0 then q\<lparr>q_size := 256\<rparr> else q);
          desc = ucast pfn * 4096;
          avail = desc + 16 * ucast (q_size q1);
          used = avail + 4 + 2 * ucast (q_size q1)
      in q1\<lparr>q_ready := True, descAddr := desc, availAddr := avail, usedAddr := alignVirtio used 4096,
            lastAvailIdx := 0, usedIdx := 0\<rparr>)"

fun RNG_Write :: "'w host \<Rightarrow> 'w reader \<Rightarrow> u64 \<Rightarrow> nat \<Rightarrow> u64 \<Rightarrow> (virtio_dev \<times> 'w, unit) op" where
  "RNG_Write H rand addr sz val (r, w) =
     (let offset = addr - Base r
      in if offset = regDeviceFeatSel then (Inr (), (r\<lparr>deviceFeatureSel := ucast val\<rparr>, w))
         else if offset = regDriverFeatSel then (Inr (), (r\<lparr>driverFeatureSel := ucast val\<rparr>, w))
         else if offset = regDriverFeatures then (Inr (), (set_driver_features val r, w))
         else if offset = regQueueSel then (Inr (), (r\<lparr>queueSel := ucast val\<rparr>, w))
         else if offset = regQueueNum then (Inr (), (on_rng_queue (\<lambda>q. q\<lparr>q_size := ucast val\<rparr>) r, w))
         else if offset = regQueueReady then
           (if LegacyMMIO r then (Inr (), (r, w)) else (Inr (), (on_rng_queue (set_ready val) r, w)))
         else if offset = regGuestPageSize \<or> offset = regQueueAlign then (Inr (), (r, w))
         else if offset = regQueuePFN then
           (if LegacyMMIO r \<and> rng_selected r then
              (if val = 0 then
                 (Inr (), (upd_queue rngQueue (\<lambda>q. q\<lparr>q_ready := False, descAddr := 0, availAddr := 0,
                    usedAddr := 0\<rparr>) r, w))
               else (Inr (), (upd_queue rngQueue (RNG_configureLegacyQueueLocked (ucast val)) r, w)))
            else (Inr (), (r, w)))
         else if offset = regQueueDescLow then
           (Inr (), (on_rng_queue (\<lambda>q. q\<lparr>descAddr := addr_half (descAddr q) (ucast val) True\<rparr>) r, w))
         else if offset = regQueueDescHigh then
           (Inr (), (on_rng_queue (\<lambda>q. q\<lparr>descAddr := addr_half (descAddr q) (ucast val) False\<rparr>) r, w))
         else if offset = regQueueAvailLow then
           (Inr (), (on_rng_queue (\<lambda>q. q\<lparr>availAddr := addr_half (availAddr q) (ucast val) True\<rparr>) r, w))
         else if offset = regQueueAvailHigh then
           (Inr (), (on_rng_queue (\<lambda>q. q\<lparr>availAddr := addr_half (availAddr q) (ucast val) False\<rparr>) r, w))
         else if offset = regQueueUsedLow then
           (Inr (), (on_rng_queue (\<lambda>q. q\<lparr>usedAddr := addr_half (usedAddr q) (ucast val) True\<rparr>) r, w))
         else if offset = regQueueUsedHigh then
           (Inr (), (on_rng_queue (\<lambda>q. q\<lparr>usedAddr := addr_half (usedAddr q) (ucast val) False\<rparr>) r, w))
         else if offset = regInterruptAck then
           RNG_updateIRQLocked H (r\<lparr>interruptStatus := interruptStatus r AND NOT (ucast val)\<rparr>, w)
         else if offset = regStatus then
           let r1 = r\<lparr>status := ucast val\<rparr>
           in (Inr (), (if status r1 = 0 then RNG_resetLocked r1 else r1, w))
         else if offset = regQueueNotify then
           (if val = of_nat rngQueue then RNG_processQueueLocked H rand (r, w) else (Inr (), (r, w)))
         else (Inr (), (r, w)))"

definition RNG_SnapshotState :: "virtio_dev \<Rightarrow> MMIOState" where
  "RNG_SnapshotState r = mmio_snapshot r"

text \<open>\<^verbatim>\<open>RestoreState\<close> restores into a fresh array of one queue and assigns it.\<close>

definition RNG_RestoreState :: "MMIOState \<Rightarrow> virtio_dev \<Rightarrow> virtio_dev" where
  "RNG_RestoreState st r = r\<lparr>deviceFeatureSel := ms_DeviceFeatureSel st,
     driverFeatureSel := ms_DriverFeatureSel st, driverFeatures := ms_DriverFeatures st,
     queueSel := ms_QueueSel st, status := ms_Status st, interruptStatus := 0, irqHigh := False,
     configGeneration := ms_ConfigGeneration st,
     queues := restoreQueues [zero_queue] (ms_Queues st) (mem_attached r)\<rparr>"

declare RNG_serve.simps [simp del] RNG_processQueueLocked.simps [simp del] RNG_Write.simps [simp del]

section \<open>The invariant\<close>

lemma RNG_serve_dev: "RNG_serve H rand head (r, w) = (res, (r', w')) \<Longrightarrow> r' = r"
  by (auto simp: RNG_serve.simps split: prod.splits)

lemma RNG_irq_inv:
  assumes "RNG_updateIRQLocked H (r\<lparr>interruptStatus := x\<rparr>, w) = (res, (r', w'))" and "dev_inv n r"
  shows "dev_inv n r'"
proof (rule dev_inv_update)
  show "updateIRQLocked H (r\<lparr>interruptStatus := x\<rparr>, w) = (res, (r', w'))"
    using assms(1) by (simp add: RNG_updateIRQLocked_def)
qed (use assms(2) in \<open>simp add: dev_inv_length\<close>)

lemma RNG_processQueue_inv:
  assumes "dev_inv n r" and "RNG_processQueueLocked H rand (r, w) = (res, (r', w'))"
  shows "dev_inv n r'"
proof -
  have loop: "dev_inv n r'" if "bindE (rngLoop k H rand a) (\<lambda>_ (r, w). RNG_updateIRQLocked H
      (r\<lparr>interruptStatus := interruptStatus r OR intVring\<rparr>, w)) (r, w) = (res, (r', w'))" for k a
    by (rule drain_then_invariant [where P = "dev_inv n", OF _ _ _ assms(1) that])
      (auto dest: RNG_serve_dev intro: RNG_irq_inv)
  show ?thesis
    using assms loop by (auto simp: RNG_processQueueLocked.simps Let_def split: if_splits sum.splits)
qed

lemma dev_inv_rng_queue [simp]: "dev_inv n (on_rng_queue f r) = dev_inv n r"
  by (simp add: on_rng_queue_def)

lemma RNG_Write_inv:
  assumes "dev_inv n r" and "RNG_Write H rand addr sz val (r, w) = (res, (r', w'))"
  shows "dev_inv n r'"
proof -
  consider (ack) "addr - Base r = regInterruptAck" | (notify) "addr - Base r = regQueueNotify"
    | (other) "addr - Base r \<noteq> regInterruptAck" "addr - Base r \<noteq> regQueueNotify" by blast
  then show ?thesis
  proof cases
    case ack
    with assms(2) have "RNG_updateIRQLocked H (r\<lparr>interruptStatus := interruptStatus r AND NOT (ucast val)\<rparr>, w) =
        (res, (r', w'))"
      by (simp add: RNG_Write.simps reg_defs)
    then show ?thesis by (rule RNG_irq_inv) (rule assms(1))
  next
    case notify
    with assms RNG_processQueue_inv show ?thesis
      by (auto simp: RNG_Write.simps reg_defs split: if_splits)
  next
    case other
    with assms show ?thesis
      by (auto simp: RNG_Write.simps Let_def dev_inv_length RNG_resetLocked_def split: if_splits)
  qed
qed

definition fresh_rng :: "virtio_dev \<Rightarrow> bool" where
  "fresh_rng r \<longleftrightarrow> (\<exists>base sz irq legacy. r = Attach ((NewRNG base sz irq)\<lparr>LegacyMMIO := legacy\<rparr>))"

interpretation rng: mmio_device fresh_rng "RNG_Write H rand" RNG_RestoreState "dev_inv 1"
  for H :: "'w host" and rand :: "'w reader"
proof (unfold_locales, goal_cases)
  case (1 d)
  then show ?case
    by (auto simp: fresh_rng_def dev_inv_def Attach_def NewRNG_def resetLocked_def irq_mirror_def)
next
  case (2 d addr sz val w r d' w')
  then show ?case by (rule RNG_Write_inv)
next
  case (3 d st)
  then show ?case by (simp add: RNG_RestoreState_def dev_inv_def irq_mirror_def)
qed

section \<open>The legacy layout\<close>

text \<open>
  C35 (bounds). A legacy driver gives the page number and the size of its queue; the ring
  addresses the device derives put the descriptor table, the available ring and the used
  ring next to each other without overlap, the used ring on a page boundary less than a
  page after the available ring, for every page number and size a driver can write.
\<close>

theorem RNG_legacy_layout:
  assumes "q = RNG_configureLegacyQueueLocked pfn q0"
  shows "q_size q \<noteq> 0 \<and> unat (descAddr q) = unat pfn * 4096 \<and>
    unat (availAddr q) = unat (descAddr q) + 16 * unat (q_size q) \<and>
    unat (availAddr q) + avail_bytes q \<le> unat (usedAddr q) \<and>
    unat (usedAddr q) < unat (availAddr q) + avail_bytes q + 4096 \<and>
    4096 dvd unat (usedAddr q) \<and> unat (usedAddr q) + used_bytes q < 2 ^ 64"
proof -
  have sz: "unat (q_size q) < 65536" using unat_lt2p [of "q_size q"] by simp
  have pf: "unat pfn < 4294967296" using unat_lt2p [of pfn] by simp
  have q: "q_size q \<noteq> 0" "descAddr q = ucast pfn * 4096" "availAddr q = descAddr q + 16 * ucast (q_size q)"
      "usedAddr q = alignVirtio (availAddr q + 4 + 2 * ucast (q_size q)) 4096"
    by (simp_all add: assms RNG_configureLegacyQueueLocked_def Let_def)
  have d: "unat (descAddr q) = unat pfn * 4096"
    using pf by (simp add: q(2) unat_word_ariths unsigned_ucast_eq take_bit_eq_mod)
  have a: "unat (availAddr q) = unat (descAddr q) + 16 * unat (q_size q)"
    using pf sz by (simp add: q(3) unat_word_ariths unsigned_ucast_eq take_bit_eq_mod d)
  have u: "unat (availAddr q + 4 + 2 * ucast (q_size q)) = unat (availAddr q) + 4 + 2 * unat (q_size q)"
    using pf sz by (simp add: unat_word_ariths unsigned_ucast_eq take_bit_eq_mod a d)
  define x where "x = unat (availAddr q) + avail_bytes q"
  have x: "unat (availAddr q + 4 + 2 * ucast (q_size q)) = x" by (simp add: u x_def avail_bytes_def)
  have "x < 2 ^ 63" using pf sz by (simp add: x_def a d avail_bytes_def)
  then have "unat (usedAddr q) = (x + 4095) div 4096 * 4096"
    using alignVirtio_nat [of 12 "availAddr q + 4 + 2 * ucast (q_size q)"] by (simp add: x q(4))
  moreover have "x \<le> (x + 4095) div 4096 * 4096" "(x + 4095) div 4096 * 4096 < x + 4096"
    using div_mult_mod_eq [of "x + 4095" 4096] mod_less_divisor [of 4096 "x + 4095"] by linarith+
  ultimately show ?thesis
    using q(1) d a pf sz \<open>x < 2 ^ 63\<close> by (simp add: x_def used_bytes_def)
qed

theorem RNG_legacy_layout_witness:
  "unat (usedAddr (RNG_configureLegacyQueueLocked 16 zero_queue)) +
     used_bytes (RNG_configureLegacyQueueLocked 16 zero_queue) < 2 ^ 64"
  using RNG_legacy_layout [OF refl, of 16 zero_queue] by blast

section \<open>The bytes of a chain\<close>

lemma RNG_readDescriptorLocked_eq:
  "RNG_readDescriptorLocked H q i w = readQueueDescriptor H q i w"
  by (simp add: RNG_readDescriptorLocked_def readQueueDescriptor_def)

text \<open>The buffer does not overlap the descriptor table.\<close>

definition off_table :: "queue \<Rightarrow> queueBuffer \<Rightarrow> bool" where
  "off_table q b \<longleftrightarrow> apart (b_addr b) (unat (b_length b)) (descAddr q) (unat (q_size q) * 16)"

lemma mem_desc_off_table:
  assumes "off_table q b" and "length bs = unat (b_length b)"
  shows "mem_desc (put_view m (b_addr b) bs) q = mem_desc m q"
proof
  fix i :: u16
  have A: "apart (b_addr b) (length bs) (descAddr q) (unat (q_size q) * 16)"
    using assms by (simp add: off_table_def)
  show "mem_desc (put_view m (b_addr b) bs) q i = mem_desc m q i"
    using apart_sub [OF A, of 0 "length bs" "unat i * 16" 16]
    by (simp add: mem_desc_def get_view_apart)
qed

text \<open>
  A world with a stream of random bytes: the reader takes its next bytes and touches nothing
  else, and memory does not consume them.
\<close>

locale entropy_host = guest_ram H ok view valid
  for H :: "'w host"
    and ok :: "'w \<Rightarrow> bool"
    and view :: "'w \<Rightarrow> u64 \<Rightarrow> u8 option"
    and valid :: "'w \<Rightarrow> u64 \<Rightarrow> nat \<Rightarrow> bool" +
  fixes rand :: "'w reader"
    and entropy :: "'w \<Rightarrow> bytes"
  assumes rand_takes: "ok w \<Longrightarrow> n \<le> length (entropy w) \<Longrightarrow>
      \<exists>w'. rand n w = (Inr (take n (entropy w)), w') \<and> entropy w' = drop n (entropy w) \<and>
        ok w' \<and> view w' = view w \<and> valid w' = valid w"
    and write_entropy: "WriteIPA H a bs w = (r, w') \<Longrightarrow> entropy w' = entropy w"
begin

lemma fillDescriptor_writable:
  assumes "ok w" and "d_flags d AND descFWrite \<noteq> 0" and "valid w (d_addr d) (unat (d_length d))"
    and "unat (d_length d) \<le> length (entropy w)"
  obtains w' where "RNG_fillDescriptor H rand d w = (Inr (), w')" and "ok w'" and "valid w' = valid w"
    and "view w' = put_view (view w) (d_addr d) (take (unat (d_length d)) (entropy w))"
    and "entropy w' = drop (unat (d_length d)) (entropy w)"
proof (cases "d_length d = 0")
  case True
  then show ?thesis
    by (intro that [of w]) (use assms in \<open>simp_all add: RNG_fillDescriptor_def\<close>)
next
  case False
  let ?bs = "take (unat (d_length d)) (entropy w)"
  obtain w1 where w1: "rand (unat (d_length d)) w = (Inr ?bs, w1)" "entropy w1 = drop (unat (d_length d)) (entropy w)"
      "ok w1" "view w1 = view w" "valid w1 = valid w"
    using rand_takes [OF assms(1,4)] by blast
  have "valid w1 (d_addr d) (length ?bs)" using assms(3,4) w1(5) by simp
  then obtain w2 where w2: "WriteIPA H (d_addr d) ?bs w1 = (Inr (), w2)" "ok w2"
      "view w2 = put_view (view w1) (d_addr d) ?bs" "valid w2 = valid w1"
    using write_validE [OF w1(3)] by blast
  have "RNG_fillDescriptor H rand d w = (Inr (), w2)"
    using False assms(2) w1(1) w2(1) by (simp add: RNG_fillDescriptor_def bindE_def word_neq_0_conv)
  then show ?thesis
    by (rule that) (use w1 w2 write_entropy [OF w2(1)] in simp_all)
qed

lemma fillDescriptor_readable:
  "d_flags d AND descFWrite = 0 \<Longrightarrow> RNG_fillDescriptor H rand d w = (Inr (), w)"
  by (simp add: RNG_fillDescriptor_def)

lemma fill_step:
  assumes "ok w" and "d_flags d AND descFWrite \<noteq> 0 \<Longrightarrow> valid w (d_addr d) (unat (d_length d))"
    and "len = (if d_flags d AND descFWrite \<noteq> 0 then unat (d_length d) else 0)" and "len \<le> length (entropy w)"
  obtains w' where "RNG_fillDescriptor H rand d w = (Inr (), w')" and "ok w'" and "valid w' = valid w"
    and "view w' = put_view (view w) (d_addr d) (take len (entropy w))"
    and "entropy w' = drop len (entropy w)"
proof (cases "d_flags d AND descFWrite = 0")
  case True
  then show ?thesis
    by (intro that [of w]) (use assms fillDescriptor_readable in simp_all)
next
  case False
  obtain w' where "RNG_fillDescriptor H rand d w = (Inr (), w')" "ok w'" "valid w' = valid w"
    "view w' = put_view (view w) (d_addr d) (take (unat (d_length d)) (entropy w))"
    "entropy w' = drop (unat (d_length d)) (entropy w)"
    by (rule fillDescriptor_writable [OF assms(1) False]) (use assms False in simp_all)
  then show ?thesis by (intro that [of w']) (use assms(3) False in simp_all)
qed

lemma fillChain_loop_fills:
  assumes "ok w" and "valid w (descAddr q) (unat (q_size q) * 16)"
    and "chain_from (mem_desc (view w) q) index ds" and "length ds \<le> n"
    and "bufs_valid (valid w) (writable_bufs ds)" and "bufs_apart (writable_bufs ds)"
    and "list_all (off_table q) (writable_bufs ds)" and "span (writable_bufs ds) \<le> length (entropy w)"
  shows "\<exists>w'. RNG_fillChain_loop n H rand q written index w =
      (Inr (written + of_nat (span (writable_bufs ds))), w') \<and> ok w' \<and> valid w' = valid w \<and>
    gather (view w') (writable_bufs ds) = take (span (writable_bufs ds)) (entropy w) \<and>
    entropy w' = drop (span (writable_bufs ds)) (entropy w) \<and>
    (\<forall>x. outside (writable_bufs ds) x \<longrightarrow> view w' x = view w x)"
  using assms
proof (induction ds arbitrary: n index written w)
  case (Cons d ds)
  then obtain k where n: "n = Suc k" by (cases n) auto
  let ?len = "if d_flags d AND descFWrite \<noteq> 0 then unat (d_length d) else 0"
  let ?written = "if d_flags d AND descFWrite \<noteq> 0 \<and> 0 < d_length d then written + d_length d else written"
  have D: "RNG_readDescriptorLocked H q index w = Inr d"
    using Cons.prems(3) desc_read [OF Cons.prems(1,2)] by (simp add: RNG_readDescriptorLocked_eq)
  have len: "?len \<le> length (entropy w)" "span (writable_bufs (d # ds)) = ?len + span (writable_bufs ds)"
    using Cons.prems(8) by (auto simp: desc_buffer_def)
  obtain w1 where w1: "RNG_fillDescriptor H rand d w = (Inr (), w1)" "ok w1" "valid w1 = valid w"
      "view w1 = put_view (view w) (d_addr d) (take ?len (entropy w))" "entropy w1 = drop ?len (entropy w)"
    by (rule fill_step [OF Cons.prems(1), of d]) (use Cons.prems(5) len(1) in \<open>auto simp: desc_buffer_def\<close>)
  have table: "mem_desc (view w1) q = mem_desc (view w) q"
    using mem_desc_off_table [of q "desc_buffer d" "take ?len (entropy w)"] Cons.prems(7) len(1)
    by (auto simp: w1(4) desc_buffer_def)
  have sub: "bufs_valid (valid w1) (writable_bufs ds)" "bufs_apart (writable_bufs ds)"
      "list_all (off_table q) (writable_bufs ds)" "span (writable_bufs ds) \<le> length (entropy w1)"
      "\<forall>i<?len. outside (writable_bufs ds) (d_addr d + of_nat i)"
    using Cons.prems(5-8) bufs_apart_Cons [of "desc_buffer d" "writable_bufs ds"] w1(3,5)
    by (auto simp: desc_buffer_def split: if_splits)
  have wr: "?written = written + of_nat ?len" by (auto simp: word_less_nat_alt word_unat_eq_iff)
  have "\<exists>w'. RNG_fillChain_loop n H rand q written index w =
      (Inr (?written + of_nat (span (writable_bufs ds))), w') \<and> ok w' \<and> valid w' = valid w1 \<and>
    gather (view w') (writable_bufs ds) = take (span (writable_bufs ds)) (entropy w1) \<and>
    entropy w' = drop (span (writable_bufs ds)) (entropy w1) \<and>
    (\<forall>x. outside (writable_bufs ds) x \<longrightarrow> view w' x = view w1 x)"
  proof (cases "d_flags d AND descFNext = 0")
    case True
    then have "ds = []" using Cons.prems(3) by simp
    with True w1(1,2) show ?thesis by (simp add: n D Let_def)
  next
    case False
    then have c: "chain_from (mem_desc (view w1) q) (d_next d) ds" using Cons.prems(3) by (simp add: table)
    have "valid w1 (descAddr q) (unat (q_size q) * 16)" "length ds \<le> k" using Cons.prems(2,4) w1(3) n by simp_all
    from Cons.IH [OF w1(2) this(1) c this(2) sub(1-4), of ?written] False show ?thesis
      by (simp only: n RNG_fillChain_loop.simps D sum.case w1(1) prod.case Let_def if_False simp_thms)
  qed
  then obtain w' where w': "RNG_fillChain_loop n H rand q written index w =
      (Inr (?written + of_nat (span (writable_bufs ds))), w')" "ok w'" "valid w' = valid w1"
      "gather (view w') (writable_bufs ds) = take (span (writable_bufs ds)) (entropy w1)"
      "entropy w' = drop (span (writable_bufs ds)) (entropy w1)"
      "\<And>x. outside (writable_bufs ds) x \<Longrightarrow> view w' x = view w1 x" by blast
  have "get_view (view w') (d_addr d) ?len = get_view (view w1) (d_addr d) ?len"
    by (rule get_view_cong) (use sub(5) w'(6) in blast)
  also have "\<dots> = take ?len (entropy w)"
  proof -
    have l: "length (take ?len (entropy w)) = ?len" using len(1) by simp
    have "?len \<le> 2 ^ 64" using unat_lt2p [of "d_length d"] by simp
    then show ?thesis
      using get_put_view [of "take ?len (entropy w)" "view w" "d_addr d"] unfolding w1(4) l by blast
  qed
  finally have "gather (view w') (writable_bufs (d # ds)) = take (span (writable_bufs (d # ds))) (entropy w)"
    using w'(4) by (auto simp: w1(5) take_add desc_buffer_def get_view_def split: if_splits)
  moreover have "view w' x = view w x" if "outside (writable_bufs (d # ds)) x" for x
  proof -
    have "put_view (view w) (d_addr d) (take ?len (entropy w)) x = view w x"
      by (rule put_view_outside) (use that in \<open>auto simp: in_buf_def desc_buffer_def split: if_splits\<close>)
    with that w'(6) show ?thesis by (auto simp: w1(4) split: if_splits)
  qed
  moreover have "?written + of_nat (span (writable_bufs ds)) = written + of_nat (span (writable_bufs (d # ds)))"
    by (simp only: wr len(2) of_nat_add add.assoc)
  moreover have "entropy w' = drop (span (writable_bufs (d # ds))) (entropy w)"
    by (simp only: w'(5) w1(5) drop_drop len(2) add.commute)
  ultimately show ?case
    using w'(1-3) by (intro exI [of _ w'] conjI allI impI) (simp_all only: w1(3))
qed simp

end

section \<open>Entropy on a KVM machine\<close>

text \<open>\<^verbatim>\<open>io.ReadFull\<close> on a finite stream: the bytes asked for, or \<^verbatim>\<open>io.ErrUnexpectedEOF\<close>.\<close>

definition stream_rand :: "(kvm_vm \<times> bytes) reader" where
  "stream_rand n w = (if n \<le> length (snd w) then (Inr (take n (snd w)), (fst w, drop n (snd w)))
     else (Inl UnexpectedEOF, (fst w, [])))"

interpretation ent: entropy_host "fst_host kvm_host" "\<lambda>w. vm_ok (fst w)" "\<lambda>w. vm_view (fst w)"
  "\<lambda>w. vm_valid (fst w)" stream_rand snd
  by unfold_locales (auto simp: stream_rand_def split: prod.splits)

text \<open>
  C16 (functional). The entropy device hands every byte of its source to the guest once: the
  writable buffers of a chain receive, in order, the next bytes of the source, the number of
  bytes reported is their total length, nothing else in guest memory changes, and the source
  stands after the bytes handed out. The writable buffers overlap neither each other nor the
  descriptor table.
\<close>

theorem RNG_fills_chain:
  assumes "vm_ok v" and "vm_valid v (descAddr q) (unat (q_size q) * 16)"
    and "chain_from (mem_desc (vm_view v) q) head ds"
    and "bufs_valid (vm_valid v) (writable_bufs ds)" and "bufs_apart (writable_bufs ds)"
    and "list_all (off_table q) (writable_bufs ds)"
    and "n = span (writable_bufs ds)" and "n \<le> length source"
  shows "\<exists>v'. RNG_fillChainLocked (fst_host kvm_host) stream_rand q head (v, source) =
      (Inr (of_nat n), (v', drop n source)) \<and>
    gather (vm_view v') (writable_bufs ds) = take n source \<and>
    (\<forall>x. outside (writable_bufs ds) x \<longrightarrow> vm_view v' x = vm_view v x)"
proof -
  have "desc_table kvm_host q v = mem_desc (vm_view v) q"
    by (rule guest_ram.desc_table_mem [OF kvm.guest_ram_axioms assms(1,2)])
  then have "length ds \<le> unat (q_size q)" using chain_length_le assms(3) by metis
  then obtain w' where "RNG_fillChain_loop (unat (q_size q)) (fst_host kvm_host) stream_rand q 0 head (v, source) =
      (Inr (0 + of_nat (span (writable_bufs ds))), w')"
      "gather (vm_view (fst w')) (writable_bufs ds) = take (span (writable_bufs ds)) source"
      "snd w' = drop (span (writable_bufs ds)) source"
      "\<forall>x. outside (writable_bufs ds) x \<longrightarrow> vm_view (fst w') x = vm_view v x"
    using ent.fillChain_loop_fills [of "(v, source)" q head ds "unat (q_size q)" 0] assms by auto
  then show ?thesis
    by (intro exI [of _ "fst w'"]) (simp add: RNG_fillChainLocked_def assms(7) prod_eq_iff)
qed

text \<open>A chain of one writable descriptor of two bytes at 64, in a machine of 66 bytes.\<close>

definition rng_mem :: bytes where
  "rng_mem = [64, 0, 0, 0, 0, 0, 0, 0, 2, 0, 0, 0, 2, 0, 0, 0] @ replicate 50 0"

theorem RNG_fills_chain_witness:
  "\<exists>v'. RNG_fillChainLocked (fst_host kvm_host) stream_rand (zero_queue\<lparr>q_size := 1\<rparr>) 0
      (flat_vm rng_mem, [7, 8, 9]) = (Inr 2, (v', [9])) \<and> get_view (vm_view v') 64 2 = [7, 8]"
proof -
  let ?q = "zero_queue\<lparr>q_size := 1\<rparr>" and ?d = "\<lparr>d_addr = 64, d_length = 2, d_flags = 2, d_next = 0\<rparr>"
  have l [simp]: "length rng_mem = 66" by (simp add: rng_mem_def)
  have "get_view (vm_view (flat_vm rng_mem)) 0 16 = [64, 0, 0, 0, 0, 0, 0, 0, 2, 0, 0, 0, 2, 0, 0, 0]"
    using flat_vm_get_view [of rng_mem 0 16] by (simp add: rng_mem_def slice_def)
  then have "mem_desc (vm_view (flat_vm rng_mem)) ?q 0 = Some ?d"
    by (simp add: mem_desc_def zero_queue_def slice_def decode_descriptor_def le64_def le32_def le16_def)
  then have c: "chain_from (mem_desc (vm_view (flat_vm rng_mem)) ?q) 0 [?d]"
    by (simp add: descFNext_def)
  have "off_table ?q (desc_buffer ?d)"
    unfolding off_table_def by (subst apart_sym, rule apart_no_wrap) (simp_all add: zero_queue_def)
  then show ?thesis
    using RNG_fills_chain [OF flat_vm_ok _ c _ _ _ refl, of "[7, 8, 9]"]
    by (simp add: descFWrite_def flat_vm_valid bufs_apart_def zero_queue_def) blast
qed

end
