(* ===== verification/Balloon.thy ===== *)
theory Balloon
  imports VirtioMmio "HOL-Library.Mapping"
begin

text \<open>
  The virtio memory balloon (\<^verbatim>\<open>internal/virtio/balloon.go\<close>). The pages the guest gave up are a
  map from a word index to 64 page bits. The reclaimer, which hands pages to the host, is an
  interface value of the guest memory in one of three shapes, an argument of the handlers.
\<close>

definition mmioDeviceIDBalloon :: u64 where "mmioDeviceIDBalloon = 5"
definition balloonQueueInflate :: nat where "balloonQueueInflate = 0"
definition balloonQueueDeflate :: nat where "balloonQueueDeflate = 1"
definition balloonPageSize :: u64 where "balloonPageSize = 4096"
definition balloonDriverOK :: u32 where "balloonDriverOK = 4"

text \<open>Each shape has a reclaiming and a reusing operation.\<close>

datatype 'w reclaimer =
    NoReclaimer
  | PageReclaimer "u64 \<Rightarrow> ('w, unit) op" "u64 \<Rightarrow> ('w, unit) op"
  | PageRangeReclaimer "u64 \<Rightarrow> u64 \<Rightarrow> ('w, unit) op" "u64 \<Rightarrow> u64 \<Rightarrow> ('w, unit) op"
  | PageVectorReclaimer "(u64 \<times> u64) list \<Rightarrow> ('w, unit) op" "(u64 \<times> u64) list \<Rightarrow> ('w, unit) op"

record balloon = virtio_dev +
  numPages :: u32
  actualPages :: u32
  inflated :: "(u64, u64) mapping"

section \<open>The set of inflated pages\<close>

definition page_bits :: "(u64, u64) mapping \<Rightarrow> u64 \<Rightarrow> u64" where
  "page_bits m word = (case Mapping.lookup m word of None \<Rightarrow> 0 | Some bits \<Rightarrow> bits)"

definition markInflatedLocked :: "u64 \<Rightarrow> (u64, u64) mapping \<Rightarrow> (u64, u64) mapping" where
  "markInflatedLocked pfn m =
     Mapping.update (pfn div 64) (page_bits m (pfn div 64) OR push_bit (unat (pfn mod 64)) 1) m"

definition markDeflatedLocked :: "u64 \<Rightarrow> (u64, u64) mapping \<Rightarrow> (u64, u64) mapping" where
  "markDeflatedLocked pfn m =
     (let bits = page_bits m (pfn div 64) AND NOT (push_bit (unat (pfn mod 64)) 1)
      in if bits = 0 then Mapping.delete (pfn div 64) m else Mapping.update (pfn div 64) bits m)"

definition inflatedPageWordsLocked :: "(u64, u64) mapping \<Rightarrow> BalloonPageWord list" where
  "inflatedPageWordsLocked m =
     map (\<lambda>index. \<lparr>pw_Index = index, pw_Bits = page_bits m index\<rparr>) (Mapping.ordered_keys m)"

section \<open>Life cycle and configuration\<close>

definition Balloon_resetLocked :: "balloon \<Rightarrow> balloon" where
  "Balloon_resetLocked b = (resetLocked b)\<lparr>actualPages := 0, inflated := Mapping.empty\<rparr>"

definition NewBalloon :: "u64 \<Rightarrow> u64 \<Rightarrow> u32 \<Rightarrow> balloon" where
  "NewBalloon base sz irq = Balloon_resetLocked \<lparr>Base = base, Size = sz, IRQ = irq, LegacyMMIO = False,
     mem_attached = False, irq_attached = False, deviceFeatureSel = 0, driverFeatureSel = 0,
     driverFeatures = 0, queueSel = 0, status = 0, interruptStatus = 0, irqHigh = False,
     configGeneration = 0, queues = [zero_queue, zero_queue],
     numPages = 0, actualPages = 0, inflated = Mapping.empty\<rparr>"

definition Balloon_updateIRQLocked :: "'w host \<Rightarrow> (balloon \<times> 'w, unit) op" where
  "Balloon_updateIRQLocked = updateIRQLocked"

definition Balloon_selectedQueueLocked :: "balloon \<Rightarrow> nat option" where
  "Balloon_selectedQueueLocked = selectedQueueLocked"

fun Balloon_SetTargetPages :: "'w host \<Rightarrow> u32 \<Rightarrow> (balloon \<times> 'w, unit) op" where
  "Balloon_SetTargetPages H pages (b, w) =
     (if numPages b = pages then (Inr (), (b, w))
      else let b1 = b\<lparr>numPages := pages, configGeneration := configGeneration b + 1\<rparr>
           in if status b1 AND balloonDriverOK = 0 then (Inr (), (b1, w))
              else Balloon_updateIRQLocked H (b1\<lparr>interruptStatus := interruptStatus b1 OR intConfig\<rparr>, w))"

definition Balloon_AtTarget :: "balloon \<Rightarrow> bool" where
  "Balloon_AtTarget b \<longleftrightarrow> actualPages b = numPages b"

definition Balloon_State :: "balloon \<Rightarrow> u32 \<times> u32 \<times> bool" where
  "Balloon_State b = (numPages b, actualPages b, status b AND balloonDriverOK \<noteq> 0)"

definition Balloon_configBytesLocked :: "balloon \<Rightarrow> bytes" where
  "Balloon_configBytesLocked b = put_le32 (numPages b) @ put_le32 (actualPages b)"

text \<open>The byte loop of \<^verbatim>\<open>writeActualLocked\<close> from position \<open>i\<close>; an index past the array panics.\<close>

fun write_cfg :: "nat \<Rightarrow> u64 \<Rightarrow> nat \<Rightarrow> u64 \<Rightarrow> bytes \<Rightarrow> error + bytes" where
  "write_cfg 0 offset i val cfg = Inr cfg"
| "write_cfg (Suc n) offset i val cfg =
     (let k = unat (offset + of_nat i)
      in if k < length cfg then write_cfg n offset (Suc i) val (cfg[k := ucast (drop_bit (8 * i) val)])
         else Inl Panic)"

definition Balloon_writeActualLocked :: "u64 \<Rightarrow> nat \<Rightarrow> u64 \<Rightarrow> balloon \<Rightarrow> error + balloon" where
  "Balloon_writeActualLocked offset sz val b =
     (case write_cfg sz offset 0 val (replicate 4 0 @ put_le32 (actualPages b)) of
        Inl e \<Rightarrow> Inl e
      | Inr cfg \<Rightarrow> Inr (b\<lparr>actualPages := le32 (slice cfg 4 8)\<rparr>))"

definition Balloon_Read :: "u64 \<Rightarrow> nat \<Rightarrow> balloon \<Rightarrow> error + u64" where
  "Balloon_Read addr sz b =
     (let offset = addr - Base b; selected = Balloon_selectedQueueLocked b
      in if offset = regMagicValue then Inr (truncateValue mmioMagicValue sz)
         else if offset = regVersion then Inr (truncateValue (ucast mmioVersion) sz)
         else if offset = regDeviceID then Inr (truncateValue mmioDeviceIDBalloon sz)
         else if offset = regVendorID then Inr (truncateValue mmioVendorID sz)
         else if offset = regDeviceFeatures then
           (if deviceFeatureSel b = 1 then Inr (truncateValue 1 sz) else Inr 0)
         else if offset = regQueueNumMax then
           (case selected of None \<Rightarrow> Inr 0 | Some _ \<Rightarrow> Inr (truncateValue 256 sz))
         else if offset = regQueueNum then
           (case selected of None \<Rightarrow> Inr 0 | Some i \<Rightarrow> Inr (truncateValue (ucast (q_size (queues b ! i))) sz))
         else if offset = regQueueReady then
           (case selected of None \<Rightarrow> Inr 0
            | Some i \<Rightarrow> if q_ready (queues b ! i) then Inr (truncateValue 1 sz) else Inr 0)
         else if offset = regInterruptStatus then Inr (truncateValue (ucast (interruptStatus b)) sz)
         else if offset = regStatus then Inr (truncateValue (ucast (status b)) sz)
         else if offset = regConfigGen then Inr (truncateValue (ucast (configGeneration b)) sz)
         else if regConfig \<le> offset \<and> offset + of_nat sz \<le> regConfig + 8 then
           (case readConfigValue (drop (unat (offset - regConfig)) (Balloon_configBytesLocked b)) sz of
              Inl e \<Rightarrow> Inl e
            | Inr v \<Rightarrow> Inr (truncateValue v sz))
         else Inr 0)"

section \<open>Inflating and deflating\<close>

text \<open>
  The loop that merges consecutive page numbers: \<open>start\<close> and \<open>previous\<close> are the variables of
  the source, the result is the list of byte ranges.
\<close>

definition page_range :: "u64 \<Rightarrow> u64 \<Rightarrow> u64 \<times> u64" where
  "page_range start previous = (start * balloonPageSize, (previous - start + 1) * balloonPageSize)"

fun merge_pfns :: "u64 \<Rightarrow> u64 \<Rightarrow> u64 list \<Rightarrow> (u64 \<times> u64) list" where
  "merge_pfns start previous [] = [page_range start previous]"
| "merge_pfns start previous (pfn # pfns) =
     (if pfn = previous + 1 then merge_pfns start pfn pfns
      else page_range start previous # merge_pfns pfn pfn pfns)"

definition reclaimPFNsLocked :: "'w reclaimer \<Rightarrow> nat \<Rightarrow> u64 list \<Rightarrow> ('w, unit) op" where
  "reclaimPFNsLocked rc qidx pfns w =
     (case pfns of
        [] \<Rightarrow> (Inr (), w)
      | p # ps \<Rightarrow>
          let ranges = merge_pfns p p ps; infl = (qidx = balloonQueueInflate)
          in (case rc of
                NoReclaimer \<Rightarrow> (Inr (), w)
              | PageVectorReclaimer reclaim reuse \<Rightarrow> (if infl then reclaim ranges w else reuse ranges w)
              | PageRangeReclaimer reclaim reuse \<Rightarrow>
                  each (\<lambda>(a, n). if infl then reclaim a n else reuse a n) ranges w
              | PageReclaimer reclaim reuse \<Rightarrow>
                  each (\<lambda>pfn. if infl then reclaim (pfn * balloonPageSize)
                              else reuse (pfn * balloonPageSize)) pfns w))"

text \<open>The page numbers of a buffer: one little-endian 32-bit number per four bytes.\<close>

fun pfns_of :: "bytes \<Rightarrow> u64 list" where
  "pfns_of (a # b # c # d # bs) = ucast (le32 [a, b, c, d]) # pfns_of bs"
| "pfns_of _ = []"

definition mark_pfns :: "nat \<Rightarrow> u64 list \<Rightarrow> (u64, u64) mapping \<Rightarrow> (u64, u64) mapping" where
  "mark_pfns qidx pfns m =
     (if qidx = balloonQueueInflate then fold markInflatedLocked pfns m
      else if qidx = balloonQueueDeflate then fold markDeflatedLocked pfns m
      else m)"

fun processPFNsLocked ::
    "'w host \<Rightarrow> 'w reclaimer \<Rightarrow> nat \<Rightarrow> u64 \<Rightarrow> u32 \<Rightarrow> (balloon \<times> 'w, unit) op" where
  "processPFNsLocked H rc qidx addr len (b, w) =
     (if len mod 4 \<noteq> 0 then (Inl PfnBufferUnaligned, (b, w))
      else case ReadIPA H addr (unat len) w of
        Inl e \<Rightarrow> (Inl e, (b, w))
      | Inr buf \<Rightarrow>
          let b1 = b\<lparr>inflated := mark_pfns qidx (pfns_of buf) (inflated b)\<rparr>
          in (case reclaimPFNsLocked rc qidx (pfns_of buf) w of (r, w1) \<Rightarrow> (r, (b1, w1))))"

definition Balloon_readDescriptorLocked :: "'w host \<Rightarrow> queue \<Rightarrow> u16 \<Rightarrow> 'w \<Rightarrow> error + descriptor" where
  "Balloon_readDescriptorLocked H q index w =
     (if q_size q \<le> index then Inl DescIndexOutOfRange
      else case ReadIPA H (descAddr q + ucast index * 16) 16 w of
        Inl e \<Rightarrow> Inl e
      | Inr buf \<Rightarrow> Inr (decode_descriptor buf))"

text \<open>The loop of \<^verbatim>\<open>processChainLocked\<close>: the first argument is \<^verbatim>\<open>q.size - i\<close>.\<close>

fun processChain_loop ::
    "nat \<Rightarrow> 'w host \<Rightarrow> 'w reclaimer \<Rightarrow> nat \<Rightarrow> queue \<Rightarrow> u16 \<Rightarrow> (balloon \<times> 'w, unit) op" where
  "processChain_loop 0 H rc qidx q index (b, w) = (Inl DescChainLoop, (b, w))"
| "processChain_loop (Suc n) H rc qidx q index (b, w) =
     (case Balloon_readDescriptorLocked H q index w of
        Inl e \<Rightarrow> (Inl e, (b, w))
      | Inr desc \<Rightarrow>
          (case (if d_flags desc AND descFWrite = 0 \<and> 0 < d_length desc
                 then processPFNsLocked H rc qidx (d_addr desc) (d_length desc) (b, w)
                 else (Inr (), (b, w))) of
             (Inl e, s1) \<Rightarrow> (Inl e, s1)
           | (Inr _, s1) \<Rightarrow>
               if d_flags desc AND descFNext = 0 then (Inr (), s1)
               else processChain_loop n H rc qidx q (d_next desc) s1))"

definition processChainLocked ::
    "'w host \<Rightarrow> 'w reclaimer \<Rightarrow> nat \<Rightarrow> queue \<Rightarrow> u16 \<Rightarrow> (balloon \<times> 'w, unit) op" where
  "processChainLocked H rc qidx q head = processChain_loop (unat (q_size q)) H rc qidx q head"

definition Balloon_writeUsedLocked :: "'w host \<Rightarrow> u16 \<Rightarrow> u32 \<Rightarrow> (queue \<times> 'w, unit) op" where
  "Balloon_writeUsedLocked = writeQueueUsed"

fun Balloon_serve :: "'w host \<Rightarrow> 'w reclaimer \<Rightarrow> nat \<Rightarrow> u16 \<Rightarrow> (balloon \<times> 'w, u32) op" where
  "Balloon_serve H rc qidx head (b, w) =
     bindE (processChainLocked H rc qidx (queues b ! qidx) head) (\<lambda>_. retE 0) (b, w)"

abbreviation balloonLoop ::
    "nat \<Rightarrow> 'w host \<Rightarrow> 'w reclaimer \<Rightarrow> nat \<Rightarrow> u16 \<Rightarrow> (balloon \<times> 'w, unit) op" where
  "balloonLoop n H rc qidx \<equiv>
     drain n H (\<lambda>b. queues b ! qidx) (\<lambda>q. upd_queue qidx (\<lambda>_. q)) (Balloon_serve H rc qidx)"

text \<open>The flag \<open>processed\<close> of the source says that the loop ran at least once.\<close>

fun Balloon_processQueueLocked :: "'w host \<Rightarrow> 'w reclaimer \<Rightarrow> nat \<Rightarrow> (balloon \<times> 'w, unit) op" where
  "Balloon_processQueueLocked H rc qidx (b, w) =
     (let q = queues b ! qidx
      in if \<not> q_ready q \<or> q_size q = 0 \<or> \<not> mem_attached b then (Inr (), (b, w))
         else case ReadIPA H (availAddr q) 4 w of
           Inl e \<Rightarrow> (Inl e, (b, w))
         | Inr header \<Rightarrow>
             let availIdx = le16 (slice header 2 4); processed = (lastAvailIdx q \<noteq> availIdx)
             in bindE (balloonLoop (pending q availIdx) H rc qidx availIdx)
                  (\<lambda>_ (b, w). if \<not> processed then (Inr (), (b, w))
                     else Balloon_updateIRQLocked H (b\<lparr>interruptStatus := interruptStatus b OR intVring\<rparr>, w))
                  (b, w))"

section \<open>Writing registers\<close>

datatype queueAddrField = queueAddrDesc | queueAddrAvail | queueAddrUsed

definition setQueueAddr :: "u32 \<Rightarrow> queueAddrField \<Rightarrow> bool \<Rightarrow> queue \<Rightarrow> queue" where
  "setQueueAddr val field low q =
     (case field of
        queueAddrDesc \<Rightarrow> q\<lparr>descAddr := addr_half (descAddr q) val low\<rparr>
      | queueAddrAvail \<Rightarrow> q\<lparr>availAddr := addr_half (availAddr q) val low\<rparr>
      | queueAddrUsed \<Rightarrow> q\<lparr>usedAddr := addr_half (usedAddr q) val low\<rparr>)"

fun Balloon_Write ::
    "'w host \<Rightarrow> 'w reclaimer \<Rightarrow> u64 \<Rightarrow> nat \<Rightarrow> u64 \<Rightarrow> (balloon \<times> 'w, unit) op" where
  "Balloon_Write H rc addr sz val (b, w) =
     (let offset = addr - Base b
      in if offset = regDeviceFeatSel then (Inr (), (b\<lparr>deviceFeatureSel := ucast val\<rparr>, w))
         else if offset = regDriverFeatSel then (Inr (), (b\<lparr>driverFeatureSel := ucast val\<rparr>, w))
         else if offset = regDriverFeatures then (Inr (), (set_driver_features val b, w))
         else if offset = regQueueSel then (Inr (), (b\<lparr>queueSel := ucast val\<rparr>, w))
         else if offset = regQueueNum then (Inr (), (on_selected (\<lambda>q. q\<lparr>q_size := ucast val\<rparr>) b, w))
         else if offset = regQueueReady then (Inr (), (on_selected (set_ready val) b, w))
         else if offset = regGuestPageSize \<or> offset = regQueueAlign then (Inr (), (b, w))
         else if offset = regQueueDescLow then
           (Inr (), (on_selected (setQueueAddr (ucast val) queueAddrDesc True) b, w))
         else if offset = regQueueDescHigh then
           (Inr (), (on_selected (setQueueAddr (ucast val) queueAddrDesc False) b, w))
         else if offset = regQueueAvailLow then
           (Inr (), (on_selected (setQueueAddr (ucast val) queueAddrAvail True) b, w))
         else if offset = regQueueAvailHigh then
           (Inr (), (on_selected (setQueueAddr (ucast val) queueAddrAvail False) b, w))
         else if offset = regQueueUsedLow then
           (Inr (), (on_selected (setQueueAddr (ucast val) queueAddrUsed True) b, w))
         else if offset = regQueueUsedHigh then
           (Inr (), (on_selected (setQueueAddr (ucast val) queueAddrUsed False) b, w))
         else if offset = regInterruptAck then
           Balloon_updateIRQLocked H (b\<lparr>interruptStatus := interruptStatus b AND NOT (ucast val)\<rparr>, w)
         else if offset = regStatus then
           let wasReady = (status b AND balloonDriverOK \<noteq> 0); b1 = b\<lparr>status := ucast val\<rparr>
           in if status b1 = 0 then (Inr (), (Balloon_resetLocked b1, w))
              else if \<not> wasReady \<and> status b1 AND balloonDriverOK \<noteq> 0 \<and> actualPages b1 \<noteq> numPages b1 then
                Balloon_updateIRQLocked H (b1\<lparr>interruptStatus := interruptStatus b1 OR intConfig\<rparr>, w)
              else (Inr (), (b1, w))
         else if offset = regQueueNotify then
           (if val = of_nat balloonQueueInflate \<or> val = of_nat balloonQueueDeflate
            then Balloon_processQueueLocked H rc (unat val) (b, w) else (Inr (), (b, w)))
         else if regConfig + 4 \<le> offset \<and> offset + of_nat sz \<le> regConfig + 8 then
           (case Balloon_writeActualLocked (offset - regConfig) sz val b of
              Inl e \<Rightarrow> (Inl e, (b, w))
            | Inr b1 \<Rightarrow> (Inr (), (b1, w)))
         else (Inr (), (b, w)))"

section \<open>Snapshots\<close>

definition Balloon_SnapshotState :: "balloon \<Rightarrow> MMIOState" where
  "Balloon_SnapshotState b = (mmio_snapshot b)\<lparr>ms_NumPages := numPages b, ms_ActualPages := actualPages b,
     ms_InflatedPageWords := inflatedPageWordsLocked (inflated b)\<rparr>"

definition restore_words :: "BalloonPageWord list \<Rightarrow> (u64, u64) mapping" where
  "restore_words words =
     fold (\<lambda>word m. if pw_Bits word \<noteq> 0 then Mapping.update (pw_Index word) (pw_Bits word) m else m)
       words Mapping.empty"

definition Balloon_RestoreState :: "MMIOState \<Rightarrow> balloon \<Rightarrow> balloon" where
  "Balloon_RestoreState st b =
     (let m = restore_words (ms_InflatedPageWords st);
          m' = (if ms_InflatedPageWords st = [] then fold markInflatedLocked (ms_InflatedPages st) m else m)
      in (mmio_restore st b)\<lparr>numPages := ms_NumPages st, actualPages := ms_ActualPages st, inflated := m'\<rparr>)"

declare Balloon_SetTargetPages.simps [simp del] processPFNsLocked.simps [simp del]
  Balloon_serve.simps [simp del] Balloon_processQueueLocked.simps [simp del] Balloon_Write.simps [simp del]

section \<open>The set of pages\<close>

text \<open>
  What the balloon promises of its page map: a set of page numbers that grows and shrinks by
  single pages. The representation keeps no empty word and finitely many words.
\<close>

locale page_set =
  fixes pages :: "'m \<Rightarrow> u64 set"
    and inv :: "'m \<Rightarrow> bool"
    and none :: 'm
    and mark :: "u64 \<Rightarrow> 'm \<Rightarrow> 'm"
    and unmark :: "u64 \<Rightarrow> 'm \<Rightarrow> 'm"
  assumes pages_none: "pages none = {}" and inv_none: "inv none"
    and pages_mark: "inv m \<Longrightarrow> pages (mark p m) = insert p (pages m)"
    and inv_mark: "inv m \<Longrightarrow> inv (mark p m)"
    and pages_unmark: "inv m \<Longrightarrow> pages (unmark p m) = pages m - {p}"
    and inv_unmark: "inv m \<Longrightarrow> inv (unmark p m)"
begin

lemma fold_mark: "inv m \<Longrightarrow> pages (fold mark ps m) = pages m \<union> set ps \<and> inv (fold mark ps m)"
  by (induction ps arbitrary: m) (auto simp: pages_mark inv_mark)

lemma fold_unmark: "inv m \<Longrightarrow> pages (fold unmark ps m) = pages m - set ps \<and> inv (fold unmark ps m)"
  by (induction ps arbitrary: m) (auto simp: pages_unmark inv_unmark)

end

definition inflated_set :: "(u64, u64) mapping \<Rightarrow> u64 set" where
  "inflated_set m = {pfn. bit (page_bits m (pfn div 64)) (unat (pfn mod 64))}"

definition words_ok :: "(u64, u64) mapping \<Rightarrow> bool" where
  "words_ok m \<longleftrightarrow> finite (Mapping.keys m) \<and> (\<forall>k. Mapping.lookup m k \<noteq> Some 0)"

lemma page_bits_simps [simp]:
  "page_bits Mapping.empty k = 0"
  "page_bits (Mapping.update k v m) k' = (if k' = k then v else page_bits m k')"
  "page_bits (Mapping.delete k m) k' = (if k' = k then 0 else page_bits m k')"
  by (auto simp: page_bits_def lookup_update' lookup_delete lookup_delete_neq lookup_empty)

text \<open>A page number is its word and its bit.\<close>

lemma pfn_split: "a div 64 = b div 64 \<Longrightarrow> unat (a mod 64) = unat (b mod 64) \<Longrightarrow> a = (b :: u64)"
  by (metis div_mult_mod_eq word_unat_eq_iff)

lemma pfn_bit: "unat (p mod 64 :: u64) < 64"
  using unat_mod_distrib [of p 64] by simp

lemma bit_one_at [simp]: "bit ((2 :: u64) ^ n) k \<longleftrightarrow> k = n \<and> n < 64"
  by (auto simp: bit_simps)

lemma inflated_set_iff: "p \<in> inflated_set m \<longleftrightarrow> bit (page_bits m (p div 64)) (unat (p mod 64))"
  by (simp add: inflated_set_def)

lemma inflated_set_mark: "inflated_set (markInflatedLocked p m) = insert p (inflated_set m)"
proof (rule set_eqI)
  fix x :: u64
  show "x \<in> inflated_set (markInflatedLocked p m) \<longleftrightarrow> x \<in> insert p (inflated_set m)"
    using pfn_split [of x p] pfn_bit [of p]
    by (auto simp: inflated_set_iff markInflatedLocked_def bit_or_iff)
qed

lemma inflated_set_unmark: "inflated_set (markDeflatedLocked p m) = inflated_set m - {p}"
proof (rule set_eqI)
  fix x :: u64
  let ?b = "page_bits m (p div 64) AND NOT (push_bit (unat (p mod 64)) 1)"
  have b: "bit ?b (unat (x mod 64)) \<longleftrightarrow> bit (page_bits m (p div 64)) (unat (x mod 64)) \<and>
      unat (x mod 64) \<noteq> unat (p mod 64)"
    using pfn_bit [of x] pfn_bit [of p] by (auto simp: bit_and_iff bit_not_iff)
  have "page_bits (markDeflatedLocked p m) (x div 64) = (if x div 64 = p div 64 then ?b else page_bits m (x div 64))"
    by (simp add: markDeflatedLocked_def Let_def)
  then show "x \<in> inflated_set (markDeflatedLocked p m) \<longleftrightarrow> x \<in> inflated_set m - {p}"
    using b pfn_split [of x p] by (auto simp: inflated_set_iff)
qed

lemma words_ok_update: "words_ok m \<Longrightarrow> v \<noteq> 0 \<Longrightarrow> words_ok (Mapping.update k v m)"
  by (auto simp: words_ok_def lookup_update')

lemma words_ok_delete:
  assumes "words_ok m"
  shows "words_ok (Mapping.delete k m)"
proof -
  have "Mapping.lookup (Mapping.delete k m) k' = (if k' = k then None else Mapping.lookup m k')" for k'
    by (simp add: lookup_delete lookup_delete_neq)
  with assms show ?thesis by (auto simp: words_ok_def)
qed

lemma mark_nonzero: "x OR 2 ^ unat (p mod 64) \<noteq> 0" for x p :: u64
proof
  assume "x OR 2 ^ unat (p mod 64) = 0"
  then have "bit (x OR 2 ^ unat (p mod 64)) (unat (p mod 64)) = bit 0 (unat (p mod 64))" by simp
  then show False using pfn_bit [of p] by (simp add: bit_or_iff)
qed

interpretation pages: page_set inflated_set words_ok Mapping.empty markInflatedLocked markDeflatedLocked
proof (unfold_locales, goal_cases)
  case 1
  then show ?case by (simp add: inflated_set_def)
next
  case 2
  then show ?case by (simp add: words_ok_def lookup_empty)
next
  case (3 m p)
  then show ?case by (simp add: inflated_set_mark)
next
  case (4 m p)
  then show ?case by (simp add: markInflatedLocked_def words_ok_update mark_nonzero)
next
  case (5 m p)
  then show ?case by (simp add: inflated_set_unmark)
next
  case (6 m p)
  then show ?case by (simp add: markDeflatedLocked_def Let_def words_ok_update words_ok_delete)
qed

lemma mark_pfns_set:
  assumes "words_ok m"
  shows "inflated_set (mark_pfns qidx ps m) =
    (if qidx = balloonQueueInflate then inflated_set m \<union> set ps
     else if qidx = balloonQueueDeflate then inflated_set m - set ps else inflated_set m)"
    and "words_ok (mark_pfns qidx ps m)"
  using pages.fold_mark [OF assms] pages.fold_unmark [OF assms] assms by (auto simp: mark_pfns_def)

section \<open>Merging page numbers into ranges\<close>

text \<open>The pages of a byte range, and what the merged ranges cover.\<close>

definition range_pages :: "u64 \<times> u64 \<Rightarrow> u64 list" where
  "range_pages r = map (\<lambda>i. fst r div balloonPageSize + of_nat i) [0..<unat (snd r div balloonPageSize)]"

lemma range_pages_run:
  assumes "unat start + n < 2 ^ 32" and "previous = start + of_nat n"
  shows "range_pages (page_range start previous) = map (\<lambda>i. start + of_nat i) [0..<Suc n]"
proof -
  have n: "(of_nat n :: u64) + 1 = of_nat (Suc n)" by simp
  have "unat (of_nat (Suc n) * 4096 :: u64) = Suc n * 4096"
    using assms(1) by (simp only: unat_word_ariths unat_of_nat take_bit_eq_mod) simp
  then have len: "unat (of_nat (Suc n) * 4096 div 4096 :: u64) = Suc n"
    by (simp only: unat_div_distrib) simp
  have "unat (start * 4096) = unat start * 4096"
    using assms(1) by (simp add: unat_word_ariths)
  then have "unat (start * 4096 div 4096) = unat start" by (simp only: unat_div_distrib) simp
  then have "start * 4096 div 4096 = start" by (simp only: word_unat_eq_iff)
  then show ?thesis
    using len n by (simp add: range_pages_def page_range_def balloonPageSize_def assms(2) del: of_nat_Suc upt_Suc)
qed

lemma merge_pfns_covers:
  assumes "previous = start + of_nat n" and "unat start + n < 2 ^ 32" and "\<forall>p\<in>set ps. unat p < 2 ^ 32"
  shows "concat (map range_pages (merge_pfns start previous ps)) =
    map (\<lambda>i. start + of_nat i) [0..<Suc n] @ ps"
  using assms
proof (induction ps arbitrary: start previous n)
  case Nil
  then show ?case by (simp add: range_pages_run [of start n] del: upt_Suc)
next
  case (Cons p ps)
  show ?case
  proof (cases "p = previous + 1")
    case True
    then have p: "p = start + of_nat (Suc n)" using Cons.prems(1) by (simp add: add_ac)
    have "unat (start + of_nat (Suc n)) = unat start + Suc n"
      using Cons.prems(2) by (simp only: unat_word_ariths unat_of_nat take_bit_eq_mod) simp
    then have "unat start + Suc n < 2 ^ 32" using Cons.prems(3) p by simp
    then have "concat (map range_pages (merge_pfns start p ps)) =
        map (\<lambda>i. start + of_nat i) [0..<Suc (Suc n)] @ ps"
      using Cons.IH [OF p] Cons.prems(3) by simp
    moreover have "map (\<lambda>i. start + of_nat i) [0..<Suc (Suc n)] = map (\<lambda>i. start + of_nat i) [0..<Suc n] @ [p]"
      by (simp add: p)
    ultimately show ?thesis using True by (simp del: upt_Suc)
  next
    case False
    have "concat (map range_pages (merge_pfns p p ps)) = p # ps"
      using Cons.IH [of p p 0] Cons.prems(3) by simp
    then show ?thesis
      using False range_pages_run [of start n previous] Cons.prems(1,2) by (simp del: upt_Suc)
  qed
qed

lemma merge_pfns_pages:
  "\<forall>q\<in>set (p # ps). unat q < 2 ^ 32 \<Longrightarrow> concat (map range_pages (merge_pfns p p ps)) = p # ps"
  using merge_pfns_covers [of p p 0 ps] by simp

lemma pfns_of_bound: "p \<in> set (pfns_of bs) \<Longrightarrow> unat p < 2 ^ 32"
proof (induction bs rule: pfns_of.induct)
  case (1 a b c d bs)
  then show ?case
    using unat_lt2p [of "le32 [a, b, c, d]"] by (auto simp: unsigned_ucast_eq take_bit_eq_mod)
qed auto

section \<open>What the host is asked to do\<close>

text \<open>Reclaiming a byte range page by page, in order, up to the first error.\<close>

definition by_page :: "(u64 \<Rightarrow> ('w, unit) op) \<Rightarrow> u64 \<Rightarrow> u64 \<Rightarrow> ('w, unit) op" where
  "by_page f a n = each (\<lambda>p. f (p * balloonPageSize)) (range_pages (a, n))"

lemma each_ranges:
  assumes "\<forall>q\<in>set (p # ps). unat q < 2 ^ 32"
  shows "each (\<lambda>(a, n). by_page f a n) (merge_pfns p p ps) w =
    each (\<lambda>p. f (p * balloonPageSize)) (p # ps) w"
proof -
  have "(\<lambda>(a, n). by_page f a n) = (\<lambda>r. each (\<lambda>p. f (p * balloonPageSize)) (range_pages r))"
    by (rule ext) (simp add: by_page_def split: prod.split)
  then have "each (\<lambda>(a, n). by_page f a n) (merge_pfns p p ps) w =
      each (\<lambda>r. each (\<lambda>p. f (p * balloonPageSize)) (range_pages r)) (merge_pfns p p ps) w"
    by simp
  also have "\<dots> = each (each (\<lambda>p. f (p * balloonPageSize))) (map range_pages (merge_pfns p p ps)) w"
    by (simp add: each_map)
  also have "\<dots> = each (\<lambda>p. f (p * balloonPageSize)) (concat (map range_pages (merge_pfns p p ps))) w"
    by (simp add: each_concat)
  finally show ?thesis by (simp add: merge_pfns_pages [OF assms])
qed



section \<open>The invariant\<close>

definition balloon_inv :: "balloon \<Rightarrow> bool" where
  "balloon_inv b \<longleftrightarrow> dev_inv 2 b \<and> words_ok (inflated b)"

lemma inflated_others [simp]:
  "inflated (upd_queue i f b) = inflated b" "inflated (on_selected f b) = inflated b"
  "inflated (set_driver_features v b) = inflated b" "inflated (mmio_restore st b) = inflated b"
  by (simp_all add: upd_queue_def on_selected_def set_driver_features_def mmio_restore_def split: option.split)

lemma dev_inv_balloon_fields [simp]:
  "dev_inv n (b\<lparr>inflated := m\<rparr>) = dev_inv n b" "dev_inv n (b\<lparr>actualPages := x\<rparr>) = dev_inv n b"
  "dev_inv n (b\<lparr>numPages := x\<rparr>) = dev_inv n b"
  by (simp_all add: dev_inv_def irq_mirror_def)

lemma processPFNs_inv:
  assumes "balloon_inv b" and "processPFNsLocked H rc qidx addr len (b, w) = (r, (b', w'))"
  shows "balloon_inv b' \<and> queues b' = queues b"
  using assms mark_pfns_set(2) [of "inflated b" qidx]
  by (auto simp: processPFNsLocked.simps balloon_inv_def Let_def split: if_splits sum.splits prod.splits)

lemma processChain_loop_inv:
  "balloon_inv b \<Longrightarrow> processChain_loop n H rc qidx q index (b, w) = (r, (b', w')) \<Longrightarrow>
     balloon_inv b' \<and> queues b' = queues b"
proof (induction n arbitrary: index b w)
  case (Suc n)
  show ?case
  proof (cases "Balloon_readDescriptorLocked H q index w")
    case (Inl e)
    with Suc.prems show ?thesis by simp
  next
    case (Inr d)
    obtain r1 b1 w1 where 1: "(if d_flags d AND descFWrite = 0 \<and> 0 < d_length d
        then processPFNsLocked H rc qidx (d_addr d) (d_length d) (b, w) else (Inr (), (b, w))) = (r1, (b1, w1))"
      by (rule prod_cases3)
    then have inv: "balloon_inv b1 \<and> queues b1 = queues b"
      using Suc.prems(1) by (auto split: if_splits dest: processPFNs_inv [OF Suc.prems(1)])
    show ?thesis
    proof (cases r1)
      case (Inl e)
      with Suc.prems(2) Inr 1 inv show ?thesis by simp
    next
      case r1: (Inr u)
      show ?thesis
      proof (cases "d_flags d AND descFNext = 0")
        case True
        with Suc.prems(2) Inr 1 inv r1 show ?thesis by simp
      next
        case False
        with Suc.prems(2) Inr 1 r1 have "processChain_loop n H rc qidx q (d_next d) (b1, w1) = (r, (b', w'))"
          by simp
        with Suc.IH [of b1] inv show ?thesis by simp
      qed
    qed
  qed
qed simp

lemma Balloon_serve_inv:
  "balloon_inv b \<Longrightarrow> Balloon_serve H rc qidx head (b, w) = (r, (b', w')) \<Longrightarrow>
     balloon_inv b' \<and> queues b' = queues b"
  by (auto simp: Balloon_serve.simps processChainLocked_def elim!: bindE_cases dest: processChain_loop_inv)

lemma Balloon_irq_inv:
  assumes "Balloon_updateIRQLocked H (b\<lparr>interruptStatus := x\<rparr>, w) = (res, (b', w'))" and "balloon_inv b"
  shows "balloon_inv b'"
proof -
  have u: "updateIRQLocked H (b\<lparr>interruptStatus := x\<rparr>, w) = (res, (b', w'))"
    using assms(1) by (simp add: Balloon_updateIRQLocked_def)
  have "length (queues (b\<lparr>interruptStatus := x\<rparr>)) = 2"
    using assms(2) by (simp add: balloon_inv_def dev_inv_length)
  from dev_inv_update [OF u this] updateIRQLocked_dev [OF u] assms(2) show ?thesis
    by (simp add: balloon_inv_def)
qed

lemma Balloon_processQueue_inv:
  assumes "balloon_inv b" and "Balloon_processQueueLocked H rc qidx (b, w) = (res, (b', w'))"
  shows "balloon_inv b'"
proof -
  have loop: "balloon_inv b'" if "bindE (balloonLoop k H rc qidx a) (\<lambda>_ (b, w). if p then (Inr (), (b, w))
      else Balloon_updateIRQLocked H (b\<lparr>interruptStatus := interruptStatus b OR intVring\<rparr>, w)) (b, w) =
      (res, (b', w'))" for k a p
    by (rule drain_then_invariant [where P = balloon_inv, OF _ _ _ assms(1) that])
      (auto simp: balloon_inv_def [of "upd_queue _ _ _"] balloon_inv_def [THEN iffD1] split: if_splits
        dest: Balloon_serve_inv intro: Balloon_irq_inv)
  show ?thesis
    using assms loop by (auto simp: Balloon_processQueueLocked.simps Let_def split: if_splits sum.splits)
qed

lemma Balloon_writeActual_inv:
  "balloon_inv b \<Longrightarrow> Balloon_writeActualLocked off sz val b = Inr b' \<Longrightarrow> balloon_inv b'"
  by (auto simp: Balloon_writeActualLocked_def balloon_inv_def split: sum.splits)

lemma balloon_inv_updates [simp]:
  "balloon_inv (b\<lparr>deviceFeatureSel := x\<rparr>) = balloon_inv b"
  "balloon_inv (b\<lparr>driverFeatureSel := x\<rparr>) = balloon_inv b"
  "balloon_inv (b\<lparr>queueSel := x\<rparr>) = balloon_inv b"
  "balloon_inv (b\<lparr>status := x\<rparr>) = balloon_inv b"
  "balloon_inv (b\<lparr>configGeneration := y\<rparr>) = balloon_inv b"
  "balloon_inv (b\<lparr>numPages := x\<rparr>) = balloon_inv b"
  "balloon_inv (set_driver_features v b) = balloon_inv b"
  "balloon_inv (on_selected f b) = balloon_inv b"
  by (simp_all add: balloon_inv_def)

lemma balloon_inv_reset: "length (queues b) = 2 \<Longrightarrow> balloon_inv (Balloon_resetLocked b)"
  by (simp add: balloon_inv_def Balloon_resetLocked_def pages.inv_none)

lemma Balloon_status_inv:
  assumes "balloon_inv b" and "addr - Base b = regStatus"
    and "Balloon_Write H rc addr sz val (b, w) = (res, (b', w'))"
  shows "balloon_inv b'"
proof -
  have "length (queues b) = 2" using assms(1) by (simp add: balloon_inv_def dev_inv_length)
  moreover have "balloon_inv (b\<lparr>status := ucast val\<rparr>)" using assms(1) by simp
  ultimately show ?thesis using assms Balloon_irq_inv [where H = H and b = "b\<lparr>status := ucast val\<rparr>"]
    by (auto simp: Balloon_Write.simps reg_defs Let_def intro!: balloon_inv_reset split: if_splits)
qed

lemma Balloon_Write_inv:
  assumes "balloon_inv b" and "Balloon_Write H rc addr sz val (b, w) = (res, (b', w'))"
  shows "balloon_inv b'"
proof -
  consider (ack) "addr - Base b = regInterruptAck" | (notify) "addr - Base b = regQueueNotify"
    | (status) "addr - Base b = regStatus"
    | (other) "addr - Base b \<noteq> regInterruptAck" "addr - Base b \<noteq> regQueueNotify" "addr - Base b \<noteq> regStatus"
    by blast
  then show ?thesis
  proof cases
    case ack
    with assms(2) have "Balloon_updateIRQLocked H (b\<lparr>interruptStatus := interruptStatus b AND NOT (ucast val)\<rparr>, w) =
        (res, (b', w'))"
      by (simp add: Balloon_Write.simps reg_defs)
    then show ?thesis by (rule Balloon_irq_inv) (rule assms(1))
  next
    case notify
    with assms Balloon_processQueue_inv [OF assms(1)] show ?thesis
      by (auto simp: Balloon_Write.simps reg_defs split: if_splits)
  next
    case status
    from Balloon_status_inv [OF assms(1) this assms(2)] show ?thesis .
  next
    case other
    with assms show ?thesis
      by (auto simp: Balloon_Write.simps Let_def dest: Balloon_writeActual_inv split: if_splits sum.splits)
  qed
qed

lemma Balloon_SetTargetPages_inv:
  assumes "balloon_inv b" and "Balloon_SetTargetPages H n (b, w) = (res, (b', w'))"
  shows "balloon_inv b'"
proof -
  have "balloon_inv (b\<lparr>numPages := n, configGeneration := configGeneration b + 1\<rparr>)" using assms(1) by simp
  from Balloon_irq_inv [OF _ this, where H = H] assms show ?thesis
    by (auto simp: Balloon_SetTargetPages.simps Let_def split: if_splits)
qed

lemma restore_words_ok: "words_ok (restore_words ws)"
proof -
  have "words_ok m \<Longrightarrow> words_ok (fold (\<lambda>word m. if pw_Bits word \<noteq> 0
      then Mapping.update (pw_Index word) (pw_Bits word) m else m) ws m)" for m
    by (induction ws arbitrary: m) (auto simp: words_ok_update)
  then show ?thesis by (simp add: restore_words_def pages.inv_none)
qed

lemma Balloon_RestoreState_inv: "balloon_inv b \<Longrightarrow> balloon_inv (Balloon_RestoreState st b)"
  using restore_words_ok [of "ms_InflatedPageWords st"] pages.fold_mark [OF restore_words_ok]
  by (simp add: Balloon_RestoreState_def balloon_inv_def Let_def dev_inv_length)

definition fresh_balloon :: "balloon \<Rightarrow> bool" where
  "fresh_balloon b \<longleftrightarrow> (\<exists>base sz irq. b = Attach (NewBalloon base sz irq))"

interpretation balloon: mmio_device fresh_balloon "Balloon_Write H rc" Balloon_RestoreState balloon_inv
  for H :: "'w host" and rc :: "'w reclaimer"
proof (unfold_locales, goal_cases)
  case (1 d)
  then show ?case
    by (auto simp: fresh_balloon_def balloon_inv_def dev_inv_def Attach_def NewBalloon_def Balloon_resetLocked_def
        resetLocked_def irq_mirror_def pages.inv_none)
next
  case (2 d addr sz val w r d' w')
  then show ?case by (rule Balloon_Write_inv)
next
  case (3 d st)
  then show ?case by (rule Balloon_RestoreState_inv)
qed

section \<open>Refinement\<close>

text \<open>
  C8 (refinement). The balloon is a set of page numbers: in every balloon a guest can reach,
  a buffer sent on the inflate queue adds its page numbers to the set of given-up pages and
  one sent on the deflate queue removes them, whatever the 64-page words the map held, and
  the host is handed the same pages in the same order. No map entry is ever an empty word.
\<close>

theorem Balloon_refines_page_set:
  assumes "mmio_reach fresh_balloon (Balloon_Write H0 rc0) Balloon_RestoreState b w0"
    and "len mod 4 = 0" and "ReadIPA H addr (unat len) w = Inr buf"
  shows "\<exists>b' r w'. processPFNsLocked H rc qidx addr len (b, w) = (r, (b', w')) \<and>
    reclaimPFNsLocked rc qidx (pfns_of buf) w = (r, w') \<and>
    inflated_set (inflated b') =
      (if qidx = balloonQueueInflate then inflated_set (inflated b) \<union> set (pfns_of buf)
       else if qidx = balloonQueueDeflate then inflated_set (inflated b) - set (pfns_of buf)
       else inflated_set (inflated b)) \<and>
    (\<forall>k. Mapping.lookup (inflated b') k \<noteq> Some 0)"
proof -
  have "words_ok (inflated b)" using balloon.reach_inv [OF assms(1)] by (simp add: balloon_inv_def)
  moreover obtain r w' where "reclaimPFNsLocked rc qidx (pfns_of buf) w = (r, w')" by fastforce
  ultimately show ?thesis using assms(2,3) mark_pfns_set [of "inflated b" qidx "pfns_of buf"]
    by (auto simp: processPFNsLocked.simps Let_def words_ok_def)
qed

definition demo_host :: "bytes host" where
  "demo_host = \<lparr>ReadIPA = (\<lambda>a n m. if unat a + n \<le> length m then Inr (slice m (unat a) (unat a + n)) else Inl Unmapped),
     WriteIPA = (\<lambda>a bs m. (Inl Unmapped, m)), SetIRQ = (\<lambda>l b m. (Inr (), m))\<rparr>"

theorem Balloon_refines_page_set_witness:
  "\<exists>b' r w'. processPFNsLocked demo_host NoReclaimer balloonQueueInflate 0 8
      (Attach (NewBalloon 4096 512 5), [7, 0, 0, 0, 200, 0, 0, 0]) = (r, (b', w')) \<and>
    inflated_set (inflated b') = {7, 200}"
proof -
  have f: "fresh_balloon (Attach (NewBalloon 4096 512 5))" by (auto simp: fresh_balloon_def)
  have "mmio_reach fresh_balloon (Balloon_Write demo_host NoReclaimer) Balloon_RestoreState
      (Attach (NewBalloon 4096 512 5)) ([] :: bytes)"
    by (rule mmio_reach.Create) (rule f)
  moreover have "ReadIPA demo_host 0 (unat (8 :: u32)) [7, 0, 0, 0, 200, 0, 0, 0] = Inr [7, 0, 0, 0, 200, 0, 0, 0]"
    by (simp add: demo_host_def slice_def)
  moreover have "set (pfns_of [7, 0, 0, 0, 200, 0, 0, 0]) = {7, 200}" by (simp add: le32_def)
  moreover have "inflated_set (inflated (Attach (NewBalloon 4096 512 5))) = {}"
    by (simp add: Attach_def NewBalloon_def Balloon_resetLocked_def pages.pages_none)
  ultimately show ?thesis
    using Balloon_refines_page_set [of demo_host NoReclaimer "Attach (NewBalloon 4096 512 5)" "[]" 8 demo_host 0
      "[7, 0, 0, 0, 200, 0, 0, 0]" "[7, 0, 0, 0, 200, 0, 0, 0]" NoReclaimer balloonQueueInflate]
    by (fastforce simp: balloonQueueInflate_def)
qed

section \<open>Snapshots\<close>

lemma lookup_restore:
  "Mapping.lookup (fold (\<lambda>word m. if pw_Bits word \<noteq> 0 then Mapping.update (pw_Index word) (pw_Bits word) m else m)
     (map (\<lambda>k. \<lparr>pw_Index = k, pw_Bits = f k\<rparr>) ks) m0) x =
   (if x \<in> set ks \<and> f x \<noteq> 0 then Some (f x) else Mapping.lookup m0 x)"
  by (induction ks arbitrary: m0) (auto simp: lookup_update')

lemma restore_words_inverse:
  assumes "words_ok m"
  shows "restore_words (inflatedPageWordsLocked m) = m"
proof (rule mapping_eqI)
  fix k
  have "set (Mapping.ordered_keys m) = Mapping.keys m"
    using assms by (simp add: words_ok_def Mapping.ordered_keys_def)
  then show "Mapping.lookup (restore_words (inflatedPageWordsLocked m)) k = Mapping.lookup m k"
    using assms
    by (auto simp: restore_words_def inflatedPageWordsLocked_def lookup_restore page_bits_def words_ok_def
        keys_is_none_rep lookup_empty split: option.splits)
qed

text \<open>
  C31 (roundtrip). Restoring the snapshot of a balloon into another one gives back the exact
  page map, the target, the acknowledged size and every queue, so that the restored machine
  answers every register read but the interrupt status as before.
\<close>

theorem Balloon_snapshot_restore:
  assumes "mmio_reach fresh_balloon (Balloon_Write H rc) Balloon_RestoreState b w"
    and "length (queues b0) = 2" and "Base b0 = Base b" and "mem_attached b0"
    and "b' = Balloon_RestoreState (Balloon_SnapshotState b) b0"
  shows "inflated b' = inflated b \<and> Balloon_State b' = Balloon_State b \<and>
    queues b' = map (settled True) (queues b) \<and>
    (\<forall>addr sz. addr - Base b \<noteq> regInterruptStatus \<longrightarrow> Balloon_Read addr sz b' = Balloon_Read addr sz b)"
proof -
  have inv: "balloon_inv b" by (rule balloon.reach_inv [OF assms(1)])
  then have len: "length (queues b) = 2" by (simp add: balloon_inv_def dev_inv_length)
  have words: "restore_words (inflatedPageWordsLocked (inflated b)) = inflated b"
    using inv by (simp add: restore_words_inverse balloon_inv_def)
  have "inflated b = restore_words []" if "inflatedPageWordsLocked (inflated b) = []"
    using words that by simp
  then have b': "b' = b0\<lparr>deviceFeatureSel := deviceFeatureSel b, driverFeatureSel := driverFeatureSel b,
      driverFeatures := driverFeatures b, queueSel := queueSel b, status := status b, interruptStatus := 0,
      irqHigh := False, configGeneration := configGeneration b, queues := map (settled True) (queues b),
      numPages := numPages b, actualPages := actualPages b, inflated := inflated b\<rparr>"
    using assms(2,4) len words restore_snapshotQueues [of "queues b0" "queues b" True]
    by (auto simp: assms(5) Balloon_RestoreState_def Balloon_SnapshotState_def mmio_restore_def
        mmio_snapshot_def Let_def)
  have sel: "Balloon_selectedQueueLocked b' = Balloon_selectedQueueLocked b"
    by (simp add: b' Balloon_selectedQueueLocked_def selectedQueueLocked_def len)
  have nth: "map (settled True) (queues b) ! i = settled True (queues b ! i)"
    if "Balloon_selectedQueueLocked b = Some i" for i
    using that len by (auto simp: Balloon_selectedQueueLocked_def selectedQueueLocked_def not_le
        word_less_nat_alt split: if_splits)
  have same: "q_size (settled True q) = q_size q" "q_ready (settled True q) = q_ready q" for q
    by (simp_all add: settled_def clearCache_def)
  have fields: "Base b' = Base b" "deviceFeatureSel b' = deviceFeatureSel b" "status b' = status b"
      "configGeneration b' = configGeneration b" "queues b' = map (settled True) (queues b)"
      "Balloon_configBytesLocked b' = Balloon_configBytesLocked b"
    using assms(3) by (simp_all add: b' Balloon_configBytesLocked_def)
  have "Balloon_Read addr sz b' = Balloon_Read addr sz b" if "addr - Base b \<noteq> regInterruptStatus" for addr sz
    using that nth unfolding Balloon_Read_def Let_def fields sel
    by (cases "Balloon_selectedQueueLocked b") (simp_all add: same)
  then show ?thesis by (simp add: b' Balloon_State_def)
qed

theorem Balloon_snapshot_restore_witness:
  "\<exists>b b'. b' = Balloon_RestoreState (Balloon_SnapshotState b) (Attach (NewBalloon 4096 512 5)) \<and>
     inflated_set (inflated b) = {7} \<and> inflated b' = inflated b"
proof -
  let ?st = "(mmio_snapshot (NewBalloon 4096 512 5))\<lparr>ms_InflatedPages := [7]\<rparr>"
  let ?new = "Attach (NewBalloon 4096 512 5)"
  let ?b = "Balloon_RestoreState ?st ?new"
  have f: "fresh_balloon ?new" by (auto simp: fresh_balloon_def)
  have "mmio_reach fresh_balloon (Balloon_Write demo_host NoReclaimer) Balloon_RestoreState ?new []"
    by (rule mmio_reach.Create) (rule f)
  then have r: "mmio_reach fresh_balloon (Balloon_Write demo_host NoReclaimer) Balloon_RestoreState ?b []"
    by (rule mmio_reach.Restore)
  have new: "length (queues ?new) = 2" "Base ?new = Base ?b" "mem_attached ?new"
    by (simp_all add: Attach_def NewBalloon_def Balloon_resetLocked_def resetLocked_def
        Balloon_RestoreState_def mmio_restore_def Let_def)
  have "inflated_set (inflated ?b) = {7}"
    by (simp add: Balloon_RestoreState_def mmio_snapshot_def restore_words_def Let_def inflated_set_mark
        pages.pages_none)
  with Balloon_snapshot_restore [OF r new refl] show ?thesis by blast
qed

section \<open>The configuration space\<close>

lemma write_cfg_ok:
  "unat offset + i + n \<le> length cfg \<Longrightarrow> length cfg \<le> 8 \<Longrightarrow> \<exists>cfg'. write_cfg n offset i val cfg = Inr cfg'"
proof (induction n arbitrary: i cfg)
  case (Suc n)
  then have "unat (offset + of_nat i) = unat offset + i"
    by (simp add: unat_word_ariths unat_of_nat take_bit_eq_mod)
  with Suc show ?case by (simp add: Let_def)
qed simp

text \<open>
  C36 (safety). No access of at most eight bytes that a hypervisor routes to the balloon
  panics in the configuration space: reads return a value and writes of the acknowledged
  size store it, whatever the address inside the device's window.
\<close>

theorem Balloon_config_safe:
  assumes "Contains b addr sz" and "8 \<le> Base b" and "sz \<le> 8"
  shows "(\<exists>v. Balloon_Read addr sz b = Inr v) \<and>
    (regConfig + 4 \<le> addr - Base b \<and> addr - Base b + of_nat sz \<le> regConfig + 8 \<longrightarrow>
      (\<exists>b'. Balloon_Write H rc addr sz val (b, w) = (Inr (), (b', w))))"
proof -
  define off where "off = addr - Base b"
  have sum: "unat (off + of_nat sz) = unat off + sz"
    unfolding off_def by (rule window_offset) (use assms in \<open>simp_all add: Contains_def\<close>)
  have rd: "\<exists>v. readConfigValue (drop (unat (off - regConfig)) (Balloon_configBytesLocked b)) sz = Inr v"
    if "regConfig \<le> off" "off + of_nat sz \<le> regConfig + 8"
  proof -
    have "unat (off - regConfig) = unat off - 256" "unat off + sz \<le> 264" "256 \<le> unat off"
      using that sum by (simp_all add: unat_sub word_le_nat_alt reg_defs)
    moreover have "length (Balloon_configBytesLocked b) = 8" by (simp add: Balloon_configBytesLocked_def)
    ultimately have "sz \<le> length (drop (unat (off - regConfig)) (Balloon_configBytesLocked b))"
      unfolding length_drop by linarith
    from readConfigValue_le [OF this assms(3)] show ?thesis by blast
  qed
  have wr: "\<exists>b'. Balloon_writeActualLocked (off - regConfig) sz val b = Inr b'"
    if "regConfig + 4 \<le> off" "off + of_nat sz \<le> regConfig + 8"
  proof -
    have "unat (off - regConfig) = unat off - 256" "unat off + sz \<le> 264" "260 \<le> unat off"
      using that sum by (simp_all add: unat_sub word_le_nat_alt reg_defs)
    then obtain cfg where "write_cfg sz (off - regConfig) 0 val (replicate 4 0 @ put_le32 (actualPages b)) = Inr cfg"
      using write_cfg_ok [of "off - regConfig" 0 sz "replicate 4 0 @ put_le32 (actualPages b)" val] by fastforce
    then show ?thesis by (simp add: Balloon_writeActualLocked_def)
  qed
  have "\<exists>v. Balloon_Read addr sz b = Inr v"
    using rd unfolding Balloon_Read_def Let_def off_def [symmetric]
    by (cases "Balloon_selectedQueueLocked b") (auto split: sum.split)
  moreover have "\<exists>b'. Balloon_Write H rc addr sz val (b, w) = (Inr (), (b', w))"
    if "regConfig + 4 \<le> off" "off + of_nat sz \<le> regConfig + 8"
  proof -
    have big: "0x104 \<le> unat off" using that(1) by (simp add: word_le_nat_alt reg_defs)
    then have ne: "off \<noteq> regDeviceFeatSel" "off \<noteq> regDriverFeatSel" "off \<noteq> regDriverFeatures"
      "off \<noteq> regQueueSel" "off \<noteq> regQueueNum" "off \<noteq> regQueueReady" "off \<noteq> regGuestPageSize"
      "off \<noteq> regQueueAlign" "off \<noteq> regQueueDescLow" "off \<noteq> regQueueDescHigh" "off \<noteq> regQueueAvailLow"
      "off \<noteq> regQueueAvailHigh" "off \<noteq> regQueueUsedLow" "off \<noteq> regQueueUsedHigh" "off \<noteq> regInterruptAck"
      "off \<noteq> regStatus" "off \<noteq> regQueueNotify"
      by (auto simp: reg_defs)
    from wr [OF that] ne that show ?thesis
      by (auto simp: Balloon_Write.simps Let_def off_def [symmetric])
  qed
  ultimately show ?thesis by (simp add: off_def)
qed

theorem Balloon_config_safe_witness:
  "\<exists>b'. Balloon_Write demo_host NoReclaimer (4096 + 0x104) 4 77 (NewBalloon 4096 512 5, []) = (Inr (), (b', []))"
proof -
  have "Contains (NewBalloon 4096 512 5) (4096 + 0x104) 4" "8 \<le> Base (NewBalloon 4096 512 5)"
    by (simp_all add: Contains_def NewBalloon_def Balloon_resetLocked_def resetLocked_def)
  from Balloon_config_safe [OF this, of demo_host NoReclaimer 77 "[]"] show ?thesis
    by (simp add: NewBalloon_def Balloon_resetLocked_def resetLocked_def reg_defs)
qed

end
