(* ===== verification/Uart.thy ===== *)
theory Uart
  imports Prelude
begin

text \<open>
  The 8250 serial port (\<^verbatim>\<open>internal/serial/uart8250.go\<close>). The output writer and the interrupt
  controller belong to the embedding program; they are the environment of the port, each
  absent where the field is nil, and their errors are discarded by the code.
\<close>

record 'w uart_env =
  env_out :: "(bytes \<Rightarrow> ('w, unit) op) option"
  env_irq :: "(u32 \<Rightarrow> bool \<Rightarrow> ('w, unit) op) option"

record uart =
  ubase :: u64
  usize :: u64
  stride :: u64
  irqLine :: u32
  dll :: u8
  dlm :: u8
  ier :: u8
  fcr :: u8
  lcr :: u8
  mcr :: u8
  lsr :: u8
  msrStatus :: u8
  msrDelta :: u8
  scr :: u8
  rbr :: u8
  pendingIIR :: u8
  fifoEnabled :: bool
  skipLF :: bool

definition UART8250Size :: u64 where "UART8250Size = 0x1000"
definition uartRegisterCount :: u64 where "uartRegisterCount = 8"
definition uartLCRDLAB :: u8 where "uartLCRDLAB = 0x80"
definition uartMCRLoop :: u8 where "uartMCRLoop = 0x10"
definition uartLSRDataReady :: u8 where "uartLSRDataReady = 0x01"
definition uartLSRTHRE :: u8 where "uartLSRTHRE = 0x20"
definition uartLSRTEMT :: u8 where "uartLSRTEMT = 0x40"

lemmas uart_bits = uartLCRDLAB_def uartMCRLoop_def uartLSRDataReady_def uartLSRTHRE_def uartLSRTEMT_def

type_synonym 'w port = "uart \<times> 'w"

section \<open>Interrupts\<close>

definition uart_interrupt :: "uart \<Rightarrow> u8" where
  "uart_interrupt u =
     (if ier u AND 0x04 \<noteq> 0 \<and> lsr u AND 0x1e \<noteq> 0 then 0x06
      else if ier u AND 0x01 \<noteq> 0 \<and> lsr u AND uartLSRDataReady \<noteq> 0 then 0x04
      else if ier u AND 0x02 \<noteq> 0 \<and> lsr u AND uartLSRTHRE \<noteq> 0 then 0x02
      else if ier u AND 0x08 \<noteq> 0 \<and> msrDelta u \<noteq> 0 then 0x00
      else 0x01)"

fun updateInterrupts :: "'w uart_env \<Rightarrow> 'w port \<Rightarrow> 'w port" where
  "updateInterrupts E (u, w) =
     (let interrupt = uart_interrupt u; u1 = u\<lparr>pendingIIR := interrupt\<rparr>
      in (case env_irq E of
            None \<Rightarrow> (u1, w)
          | Some irq \<Rightarrow> if irqLine u1 \<noteq> 0 then (u1, snd (irq (irqLine u1) (interrupt \<noteq> 0x01) w)) else (u1, w)))"

definition updateModemStatus :: "uart \<Rightarrow> uart" where
  "updateModemStatus u =
     (let u1 = u\<lparr>msrStatus := 0xb0\<rparr>
      in if mcr u1 AND 0x04 \<noteq> 0 then u1\<lparr>msrStatus := msrStatus u1 OR 0x40\<rparr> else u1)"

fun clearRX :: "'w uart_env \<Rightarrow> 'w port \<Rightarrow> 'w port" where
  "clearRX E (u, w) = updateInterrupts E (u\<lparr>rbr := 0, lsr := lsr u AND NOT uartLSRDataReady\<rparr>, w)"

section \<open>Registers\<close>

definition uart_emit :: "'w uart_env \<Rightarrow> u8 \<Rightarrow> 'w \<Rightarrow> 'w" where
  "uart_emit E val w = (case env_out E of None \<Rightarrow> w | Some out \<Rightarrow> snd (out [val] w))"

fun uart_transmit :: "'w uart_env \<Rightarrow> u8 \<Rightarrow> 'w port \<Rightarrow> 'w port" where
  "uart_transmit E val (u, w) =
     (if mcr u AND uartMCRLoop \<noteq> 0 then
        updateInterrupts E (u\<lparr>rbr := val, lsr := lsr u OR uartLSRDataReady\<rparr>, w)
      else
        let (u1, w1) =
          (if env_out E = None then (u, w)
           else if val = 0x0d then (u\<lparr>skipLF := True\<rparr>, uart_emit E 0x0a w)
           else if val = 0x0a then
             (if skipLF u then (u\<lparr>skipLF := False\<rparr>, w) else (u, uart_emit E 0x0a w))
           else (u\<lparr>skipLF := False\<rparr>, uart_emit E val w))
        in updateInterrupts E (u1\<lparr>lsr := lsr u1 OR (uartLSRTHRE OR uartLSRTEMT)\<rparr>, w1))"

fun setIER :: "'w uart_env \<Rightarrow> u8 \<Rightarrow> 'w port \<Rightarrow> 'w port" where
  "setIER E val (u, w) = updateInterrupts E (u\<lparr>ier := val AND 0x0f\<rparr>, w)"

fun setFCR :: "'w uart_env \<Rightarrow> u8 \<Rightarrow> 'w port \<Rightarrow> 'w port" where
  "setFCR E val (u, w) =
     (let (u1, w1) = (if val AND 0x02 \<noteq> 0 then clearRX E (u, w) else (u, w))
      in (u1\<lparr>fcr := val, fifoEnabled := (val AND 0x01 \<noteq> 0)\<rparr>, w1))"

fun setMCR :: "'w uart_env \<Rightarrow> u8 \<Rightarrow> 'w port \<Rightarrow> 'w port" where
  "setMCR E val (u, w) =
     (let prev = mcr u; u1 = u\<lparr>mcr := val AND 0x1f\<rparr>;
          (u2, w2) = (if prev AND uartMCRLoop \<noteq> 0 \<and> mcr u1 AND uartMCRLoop = 0 then clearRX E (u1, w) else (u1, w))
      in updateInterrupts E (updateModemStatus u2, w2))"

definition registerAt :: "uart \<Rightarrow> u64 \<Rightarrow> error + u16" where
  "registerAt u addr =
     (if addr < ubase u \<or> ubase u + usize u \<le> addr then Inl AddressOutOfRange
      else let offset = addr - ubase u
           in if offset mod stride u \<noteq> 0 then Inl AddressUnaligned
              else let reg = offset div stride u
                   in if uartRegisterCount \<le> reg then Inl RegisterOutOfRange else Inr (ucast reg))"

fun writeRegister :: "'w uart_env \<Rightarrow> u16 \<Rightarrow> u8 \<Rightarrow> 'w port \<Rightarrow> 'w port" where
  "writeRegister E reg val (u, w) =
     (if reg = 0 then
        (if lcr u AND uartLCRDLAB \<noteq> 0 then (u\<lparr>dll := val\<rparr>, w)
         else uart_transmit E val (updateInterrupts E (u\<lparr>lsr := lsr u AND NOT uartLSRTHRE\<rparr>, w)))
      else if reg = 1 then
        (if lcr u AND uartLCRDLAB \<noteq> 0 then (u\<lparr>dlm := val\<rparr>, w) else setIER E val (u, w))
      else if reg = 2 then setFCR E val (u, w)
      else if reg = 3 then (u\<lparr>lcr := val\<rparr>, w)
      else if reg = 4 then setMCR E val (u, w)
      else if reg = 7 then (u\<lparr>scr := val\<rparr>, w)
      else (u, w))"

definition modemStatus :: "uart \<Rightarrow> u8 \<times> uart" where
  "modemStatus u = (msrStatus u OR msrDelta u, u\<lparr>msrDelta := 0\<rparr>)"

fun readRegister :: "'w uart_env \<Rightarrow> u16 \<Rightarrow> 'w port \<Rightarrow> u8 \<times> 'w port" where
  "readRegister E reg (u, w) =
     (if reg = 0 then
        (if lcr u AND uartLCRDLAB \<noteq> 0 then (dll u, (u, w)) else (rbr u, clearRX E (u, w)))
      else if reg = 1 then (if lcr u AND uartLCRDLAB \<noteq> 0 then (dlm u, (u, w)) else (ier u, (u, w)))
      else if reg = 2 then (pendingIIR u, (u, w))
      else if reg = 3 then (lcr u, (u, w))
      else if reg = 4 then (mcr u, (u, w))
      else if reg = 5 then (lsr u, (u, w))
      else if reg = 6 then (case modemStatus u of (v, u1) \<Rightarrow> (v, (u1, w)))
      else if reg = 7 then (scr u, (u, w))
      else (0, (u, w)))"

section \<open>Access by address\<close>

fun writeByte :: "'w uart_env \<Rightarrow> u64 \<Rightarrow> u8 \<Rightarrow> ('w port, unit) op" where
  "writeByte E addr val (u, w) =
     (case registerAt u addr of
        Inl e \<Rightarrow> (Inl e, (u, w))
      | Inr reg \<Rightarrow> (Inr (), writeRegister E reg val (u, w)))"

fun readByte :: "'w uart_env \<Rightarrow> u64 \<Rightarrow> ('w port, u8) op" where
  "readByte E addr (u, w) =
     (case registerAt u addr of
        Inl e \<Rightarrow> (Inl e, (u, w))
      | Inr reg \<Rightarrow> (case readRegister E reg (u, w) of (v, p) \<Rightarrow> (Inr v, p)))"

fun Uart_Write :: "'w uart_env \<Rightarrow> u64 \<Rightarrow> bytes \<Rightarrow> ('w port, unit) op" where
  "Uart_Write E addr [] p = (Inr (), p)"
| "Uart_Write E addr (b # bs) p = bindE (writeByte E addr b) (\<lambda>_. Uart_Write E (addr + 1) bs) p"

fun Uart_Read :: "'w uart_env \<Rightarrow> u64 \<Rightarrow> nat \<Rightarrow> ('w port, bytes) op" where
  "Uart_Read E addr 0 p = (Inr [], p)"
| "Uart_Read E addr (Suc n) p =
     bindE (readByte E addr) (\<lambda>b. bindE (Uart_Read E (addr + 1) n) (\<lambda>bs. retE (b # bs))) p"

definition WriteValue :: "'w uart_env \<Rightarrow> u64 \<Rightarrow> int \<Rightarrow> u64 \<Rightarrow> ('w port, unit) op" where
  "WriteValue E addr sz val p =
     (if sz \<le> 0 \<or> 8 < sz then (Inl InvalidSize, p) else Uart_Write E addr (take (nat sz) (put_le64 val)) p)"

definition ReadValue :: "'w uart_env \<Rightarrow> u64 \<Rightarrow> int \<Rightarrow> ('w port, u64) op" where
  "ReadValue E addr sz p =
     (if sz \<le> 0 \<or> 8 < sz then (Inl InvalidSize, p)
      else bindE (Uart_Read E addr (nat sz)) (\<lambda>bs. retE (le64 (bs @ replicate (8 - nat sz) 0))) p)"

definition Uart_Contains :: "uart \<Rightarrow> u64 \<Rightarrow> int \<Rightarrow> bool" where
  "Uart_Contains u addr sz \<longleftrightarrow>
     0 < sz \<and> (let stop = addr + of_int sz
               in ubase u \<le> addr \<and> addr < stop \<and> stop \<le> ubase u + usize u)"

section \<open>Creation and input\<close>

definition NewUART8250 :: "u64 \<Rightarrow> u32 \<Rightarrow> 'w uart_env \<Rightarrow> 'w \<Rightarrow> 'w port" where
  "NewUART8250 base regShift E w =
     (let s = push_bit (unat regShift) 1;
          u = \<lparr>ubase = base, usize = UART8250Size, stride = (if s = 0 then 1 else s), irqLine = 0,
               dll = 0, dlm = 0, ier = 0, fcr = 0, lcr = 0, mcr = 0, lsr = uartLSRTHRE OR uartLSRTEMT,
               msrStatus = 0, msrDelta = 0, scr = 0, rbr = 0, pendingIIR = 0x01,
               fifoEnabled = False, skipLF = False\<rparr>
      in updateInterrupts (E\<lparr>env_irq := None\<rparr>) (updateModemStatus u, w))"

text \<open>\<^verbatim>\<open>AttachIRQ\<close> sets the controller, which is in the environment from then on.\<close>

fun AttachIRQ :: "'w uart_env \<Rightarrow> u32 \<Rightarrow> 'w port \<Rightarrow> 'w port" where
  "AttachIRQ E line (u, w) = updateInterrupts E (u\<lparr>irqLine := line\<rparr>, w)"

fun InjectRXByte :: "'w uart_env \<Rightarrow> u8 \<Rightarrow> 'w port \<Rightarrow> 'w port" where
  "InjectRXByte E val (u, w) =
     updateInterrupts E (u\<lparr>rbr := val, lsr := lsr u OR uartLSRDataReady\<rparr>, w)"

text \<open>
  One iteration of the waiting loop of \<^verbatim>\<open>InjectRXBytes\<close>: the byte is delivered if the receive
  buffer is free, otherwise the caller sleeps and tries again (\<open>False\<close>).
\<close>

fun InjectRX_try :: "'w uart_env \<Rightarrow> u8 \<Rightarrow> 'w port \<Rightarrow> bool \<times> 'w port" where
  "InjectRX_try E val (u, w) =
     (if lsr u AND uartLSRDataReady = 0 then (True, InjectRXByte E val (u, w)) else (False, (u, w)))"

declare updateInterrupts.simps [simp del] clearRX.simps [simp del] uart_transmit.simps [simp del]
  setIER.simps [simp del] setFCR.simps [simp del] setMCR.simps [simp del] writeRegister.simps [simp del]
  readRegister.simps [simp del] writeByte.simps [simp del] readByte.simps [simp del]

section \<open>Runs of a port\<close>

text \<open>What happens to a port: accesses by the guest and bytes typed by the user.\<close>

datatype uart_event = EvWrite u64 bytes | EvRead u64 nat | EvInject u8

fun uart_step :: "'w uart_env \<Rightarrow> uart_event \<Rightarrow> 'w port \<Rightarrow> 'w port" where
  "uart_step E (EvWrite addr data) p = snd (Uart_Write E addr data p)"
| "uart_step E (EvRead addr n) p = snd (Uart_Read E addr n p)"
| "uart_step E (EvInject b) p = InjectRXByte E b p"

definition uart_run :: "'w uart_env \<Rightarrow> uart_event list \<Rightarrow> 'w port \<Rightarrow> 'w port" where
  "uart_run E evs p = fold (uart_step E) evs p"

text \<open>The recording environment: the text printed so far and the level of the line.\<close>

definition rec_env :: "(bytes \<times> bool) uart_env" where
  "rec_env = \<lparr>env_out = Some (\<lambda>data (t, l). (Inr (), (t @ data, l))),
     env_irq = Some (\<lambda>line level (t, l). (Inr (), (t, level)))\<rparr>"

lemma rec_env_sel [simp]:
  "env_out rec_env = Some (\<lambda>data (t, l). (Inr (), (t @ data, l)))"
  "env_irq rec_env = Some (\<lambda>line level (t, l). (Inr (), (t, level)))"
  by (simp_all add: rec_env_def)

definition uart_synced :: "u32 \<Rightarrow> (bytes \<times> bool) port \<Rightarrow> bool" where
  "uart_synced line p \<longleftrightarrow> irqLine (fst p) = line \<and> pendingIIR (fst p) = uart_interrupt (fst p) \<and> msrDelta (fst p) = 0 \<and>
     (line \<noteq> 0 \<longrightarrow> snd (snd p) = (uart_interrupt (fst p) \<noteq> 0x01))"

lemma uart_interrupt_cong:
  "ier u' = ier u \<Longrightarrow> lsr u' = lsr u \<Longrightarrow> msrDelta u' = msrDelta u \<Longrightarrow> uart_interrupt u' = uart_interrupt u"
  by (simp add: uart_interrupt_def)

lemma uart_synced_other [simp]:
  "uart_synced line (u\<lparr>dll := x\<rparr>, w) = uart_synced line (u, w)" "uart_synced line (u\<lparr>dlm := x\<rparr>, w) = uart_synced line (u, w)"
  "uart_synced line (u\<lparr>lcr := x\<rparr>, w) = uart_synced line (u, w)" "uart_synced line (u\<lparr>scr := x\<rparr>, w) = uart_synced line (u, w)"
  "uart_synced line (u\<lparr>fcr := x\<rparr>, w) = uart_synced line (u, w)" "uart_synced line (u\<lparr>fifoEnabled := b\<rparr>, w) = uart_synced line (u, w)"
  by (simp_all add: uart_synced_def uart_interrupt_def)

lemma updateInterrupts_rec:
  "updateInterrupts rec_env (u, (t, l)) =
     (u\<lparr>pendingIIR := uart_interrupt u\<rparr>, (t, if irqLine u \<noteq> 0 then uart_interrupt u \<noteq> 0x01 else l))"
  by (simp add: updateInterrupts.simps Let_def)

lemma updateInterrupts_synced: "msrDelta u = 0 \<Longrightarrow> irqLine u = line \<Longrightarrow> uart_synced line (updateInterrupts rec_env (u, w))"
  by (cases w) (simp add: updateInterrupts_rec uart_synced_def uart_interrupt_def)

lemma updateInterrupts_fields [simp]:
  "fst (updateInterrupts E (u, w)) = u\<lparr>pendingIIR := uart_interrupt u\<rparr>"
  by (simp add: updateInterrupts.simps Let_def split: option.split)

lemma updateInterrupts_dest:
  "updateInterrupts E (u, w) = (u', w') \<Longrightarrow> u' = u\<lparr>pendingIIR := uart_interrupt u\<rparr>"
  by (metis fst_conv updateInterrupts_fields)

lemma uart_synced_delta: "uart_synced line (u, w) \<Longrightarrow> msrDelta u = 0 \<and> irqLine u = line"
  by (simp add: uart_synced_def)

lemma msrDelta_updateModemStatus [simp]:
  "msrDelta (updateModemStatus u) = msrDelta u" "irqLine (updateModemStatus u) = irqLine u"
  by (simp_all add: updateModemStatus_def Let_def)

lemma msrDelta_clearRX: "clearRX E (u, w) = (u', w') \<Longrightarrow> msrDelta u' = msrDelta u \<and> irqLine u' = irqLine u"
  using updateInterrupts_fields [of E "u\<lparr>rbr := 0, lsr := lsr u AND NOT uartLSRDataReady\<rparr>" w]
  by (auto simp: clearRX.simps)

lemma uart_transmit_synced:
  "msrDelta u = 0 \<Longrightarrow> irqLine u = line \<Longrightarrow> uart_synced line (uart_transmit rec_env v (u, w))"
  by (auto simp: uart_transmit.simps Let_def intro!: updateInterrupts_synced)

lemma writeRegister_synced:
  assumes "uart_synced line (u, w)"
  shows "uart_synced line (writeRegister rec_env reg v (u, w))"
proof -
  note d = uart_synced_delta [OF assms]
  have t: "uart_synced line (uart_transmit rec_env v (updateInterrupts rec_env (u\<lparr>lsr := x\<rparr>, w)))" for x
  proof -
    obtain u1 w1 where 1: "updateInterrupts rec_env (u\<lparr>lsr := x\<rparr>, w) = (u1, w1)"
      by (rule prod.exhaust)
    then have "msrDelta u1 = 0 \<and> irqLine u1 = line"
      using d updateInterrupts_fields [of rec_env "u\<lparr>lsr := x\<rparr>" w] by auto
    with 1 show ?thesis by (simp add: uart_transmit_synced)
  qed
  have c: "uart_synced line (clearRX rec_env (u, w))" using d by (simp add: clearRX.simps updateInterrupts_synced)
  have f: "uart_synced line (setFCR rec_env v (u, w))"
    using assms c by (cases "clearRX rec_env (u, w)") (simp add: setFCR.simps Let_def)
  have m: "uart_synced line (setMCR rec_env v (u, w))"
    using d msrDelta_clearRX [of rec_env "u\<lparr>mcr := v AND 0x1f\<rparr>" w]
    by (cases "clearRX rec_env (u\<lparr>mcr := v AND 0x1f\<rparr>, w)")
      (auto simp: setMCR.simps Let_def intro!: updateInterrupts_synced)
  have i: "uart_synced line (setIER rec_env v (u, w))" using d by (simp add: setIER.simps updateInterrupts_synced)
  show ?thesis using assms t f m i by (simp add: writeRegister.simps)
qed

lemma readRegister_synced:
  assumes "uart_synced line (u, w)"
  shows "uart_synced line (snd (readRegister rec_env reg (u, w)))"
proof -
  note d = uart_synced_delta [OF assms]
  have "uart_synced line (u\<lparr>msrDelta := 0\<rparr>, w)" using assms d by (simp add: uart_synced_def uart_interrupt_def)
  with assms d show ?thesis
    by (simp add: readRegister.simps clearRX.simps updateInterrupts_synced modemStatus_def)
qed

lemma writeByte_synced: "uart_synced line p \<Longrightarrow> uart_synced line (snd (writeByte rec_env addr b p))"
  by (cases p) (simp add: writeByte.simps writeRegister_synced split: sum.split)

lemma readByte_synced: "uart_synced line p \<Longrightarrow> uart_synced line (snd (readByte rec_env addr p))"
  by (cases p) (simp add: readByte.simps case_prod_beta readRegister_synced split: sum.split)

lemma Uart_Write_synced: "uart_synced line p \<Longrightarrow> uart_synced line (snd (Uart_Write rec_env addr data p))"
proof (induction data arbitrary: addr p)
  case (Cons b bs)
  then show ?case
    using writeByte_synced [OF Cons.prems, of addr b]
    by (cases "writeByte rec_env addr b p") (auto simp: bindE_def split: sum.split)
qed simp

lemma Uart_Read_synced: "uart_synced line p \<Longrightarrow> uart_synced line (snd (Uart_Read rec_env addr n p))"
proof (induction n arbitrary: addr p)
  case (Suc n)
  show ?case unfolding Uart_Read.simps
    by (rule snd_bindE, rule readByte_synced [OF Suc.prems], rule snd_bindE)
      (use Suc.IH in \<open>auto dest: sym\<close>)
qed simp

lemma uart_run_synced: "uart_synced line p \<Longrightarrow> uart_synced line (uart_run rec_env evs p)"
proof (induction evs arbitrary: p)
  case (Cons ev evs)
  have "uart_synced line (uart_step rec_env ev p)"
  proof (cases ev)
    case (EvInject b)
    with Cons.prems show ?thesis
      by (cases p) (auto dest: uart_synced_delta intro!: updateInterrupts_synced)
  qed (use Cons.prems in \<open>simp_all add: Uart_Write_synced Uart_Read_synced\<close>)
  with Cons.IH show ?case by (simp add: uart_run_def)
qed (simp add: uart_run_def)

text \<open>
  C21 (invariant). However the guest accesses the port and whatever is typed into it, the
  interrupt identification register names the pending enabled condition of highest priority
  (line status, received data, empty transmitter, modem status, in this order), and the
  interrupt line is high exactly when there is one.
\<close>

theorem Uart_interrupt_identification:
  assumes "line \<noteq> 0"
    and "(u, (t, l)) = uart_run rec_env evs (AttachIRQ rec_env line (NewUART8250 base shift rec_env ([], False)))"
  shows "l = (pendingIIR u \<noteq> 0x01) \<and>
    pendingIIR u =
      (if ier u AND 0x04 \<noteq> 0 \<and> lsr u AND 0x1e \<noteq> 0 then 0x06
       else if ier u AND 0x01 \<noteq> 0 \<and> lsr u AND 0x01 \<noteq> 0 then 0x04
       else if ier u AND 0x02 \<noteq> 0 \<and> lsr u AND 0x20 \<noteq> 0 then 0x02
       else 0x01)"
proof -
  obtain u0 w0 where new: "NewUART8250 base shift rec_env ([], False) = (u0, w0)" by (rule prod.exhaust)
  have d: "msrDelta u0 = 0"
    using arg_cong [OF new, of "\<lambda>p. msrDelta (fst p)"] by (simp add: NewUART8250_def Let_def)
  have s: "uart_synced line (u, (t, l))"
    unfolding assms(2) new AttachIRQ.simps by (intro uart_run_synced updateInterrupts_synced) (simp_all add: d)
  then show ?thesis using assms(1) by (simp add: uart_synced_def uart_interrupt_def uart_bits)
qed

theorem Uart_interrupt_identification_witness:
  "\<exists>u t l. (u, (t, l)) = uart_run rec_env [EvWrite 0x3f9 [1], EvInject 65]
      (AttachIRQ rec_env 4 (NewUART8250 0x3f8 0 rec_env ([], False))) \<and> l = (pendingIIR u \<noteq> 1)"
proof -
  obtain u t l where run: "(u, (t, l)) = uart_run rec_env [EvWrite 0x3f9 [1], EvInject 65]
      (AttachIRQ rec_env 4 (NewUART8250 0x3f8 0 rec_env ([], False)))"
    by (metis prod.exhaust)
  have "(4 :: u32) \<noteq> 0" by simp
  from Uart_interrupt_identification [OF this run] run show ?thesis by blast
qed

section \<open>The printed text\<close>

text \<open>
  Line ends normalised: a carriage return with the line feed that may follow it is one line
  feed, everything else stays.
\<close>

fun normalise :: "bytes \<Rightarrow> bytes" where
  "normalise [] = []"
| "normalise [b] = (if b = 0x0d then [0x0a] else [b])"
| "normalise (b # c # cs) =
     (if b = 0x0d \<and> c = 0x0a then 0x0a # normalise cs
      else (if b = 0x0d then 0x0a else b) # normalise (c # cs))"

definition after_cr :: "bool \<Rightarrow> bytes \<Rightarrow> bytes" where
  "after_cr skip bs = (case bs of [] \<Rightarrow> [] | c # cs \<Rightarrow> if skip \<and> c = 0x0a then cs else bs)"

text \<open>A port that prints: divisor latch closed, no loop back.\<close>

definition printing :: "uart \<Rightarrow> bool" where
  "printing u \<longleftrightarrow> lcr u AND uartLCRDLAB = 0 \<and> mcr u AND uartMCRLoop = 0 \<and> usize u \<noteq> 0 \<and>
     ubase u < ubase u + usize u \<and> stride u \<noteq> 0"

lemma register_zero: "printing u \<Longrightarrow> registerAt u (ubase u) = Inr 0"
  by (auto simp: printing_def registerAt_def uartRegisterCount_def)

lemma print_byte:
  assumes "printing u"
  shows "\<exists>u' l'. Uart_Write rec_env (ubase u) [b] (u, (t, l)) =
      (Inr (), (u', (t @ (if b = 0x0d then [0x0a] else if b = 0x0a \<and> skipLF u then [] else [b]), l'))) \<and>
    printing u' \<and> ubase u' = ubase u \<and> skipLF u' = (b = 0x0d)"
proof -
  define u1 where "u1 = u\<lparr>lsr := lsr u AND NOT uartLSRTHRE, pendingIIR := uart_interrupt (u\<lparr>lsr := lsr u AND NOT uartLSRTHRE\<rparr>)\<rparr>"
  obtain l1 where 1: "updateInterrupts rec_env (u\<lparr>lsr := lsr u AND NOT uartLSRTHRE\<rparr>, (t, l)) = (u1, (t, l1))"
    by (simp add: updateInterrupts_rec u1_def)
  have u1: "printing u1" "ubase u1 = ubase u" "skipLF u1 = skipLF u" using assms by (simp_all add: u1_def printing_def)
  then have "mcr u1 AND uartMCRLoop = 0" by (simp add: printing_def)
  then have "\<exists>u' l'. uart_transmit rec_env b (u1, (t, l1)) =
      (u', (t @ (if b = 0x0d then [0x0a] else if b = 0x0a \<and> skipLF u then [] else [b]), l')) \<and>
    printing u' \<and> ubase u' = ubase u \<and> skipLF u' = (b = 0x0d)"
    using u1 by (auto simp: uart_transmit.simps uart_emit_def updateInterrupts_rec Let_def printing_def)
  moreover have "Uart_Write rec_env (ubase u) [b] (u, (t, l)) = (Inr (), uart_transmit rec_env b (u1, (t, l1)))"
    using assms register_zero [OF assms] 1
    by (simp add: bindE_def writeByte.simps writeRegister.simps printing_def)
  ultimately show ?thesis by auto
qed

lemma normalise_after:
  "normalise (after_cr skip (b # bs)) =
     (if b = 0x0d then [0x0a] else if b = 0x0a \<and> skip then [] else [b]) @
     normalise (after_cr (b = 0x0d) bs)"
  by (auto simp: after_cr_def split: list.splits)

lemma after_cr_False [simp]: "after_cr False bs = bs"
  by (simp add: after_cr_def split: list.split)

lemma print_bytes:
  "printing u \<Longrightarrow> \<exists>u' l'. uart_run rec_env (map (\<lambda>b. EvWrite (ubase u) [b]) bs) (u, (t, l)) =
     (u', (t @ normalise (after_cr (skipLF u) bs), l'))"
proof (induction bs arbitrary: u t l)
  case Nil
  then show ?case by (simp add: uart_run_def after_cr_def)
next
  case (Cons b bs)
  obtain u1 l1 where 1: "Uart_Write rec_env (ubase u) [b] (u, (t, l)) =
      (Inr (), (u1, (t @ (if b = 0x0d then [0x0a] else if b = 0x0a \<and> skipLF u then [] else [b]), l1)))"
      "printing u1" "ubase u1 = ubase u" "skipLF u1 = (b = 0x0d)"
    using print_byte [OF Cons.prems] by blast
  from Cons.IH [OF 1(2), of "t @ (if b = 0x0d then [0x0a] else if b = 0x0a \<and> skipLF u then [] else [b])" l1]
  show ?case
    by (simp only: 1(3,4) uart_run_def list.map fold_simps uart_step.simps 1(1) snd_conv normalise_after
        append_assoc)
qed

text \<open>
  C23 (equivalence). The text a port prints is the transmitted bytes with their line ends
  normalised: the one-byte state the port keeps between writes (a carriage return was the
  last byte) gives the same text as normalising the whole transmission at once, however the
  guest spreads it over time.
\<close>

theorem Uart_prints_normalised:
  assumes "printing u" and "\<not> skipLF u"
  shows "\<exists>u' l'. uart_run rec_env (map (\<lambda>b. EvWrite (ubase u) [b]) bs) (u, (t, l)) = (u', (t @ normalise bs, l'))"
  using print_bytes [OF assms(1), of bs t l] assms(2) by simp

definition demo_uart :: uart where
  "demo_uart = fst (NewUART8250 0x3f8 0 rec_env ([], False))"

theorem Uart_prints_normalised_witness:
  "\<exists>u' l'. uart_run rec_env (map (\<lambda>b. EvWrite 0x3f8 [b]) [65, 0x0d, 0x0a, 0x0a, 0x0d, 66]) (demo_uart, ([], False)) =
     (u', ([65, 0x0a, 0x0a, 0x0a, 66], l'))"
proof -
  have "printing demo_uart" "\<not> skipLF demo_uart" "ubase demo_uart = 0x3f8"
    by (simp_all add: demo_uart_def printing_def NewUART8250_def updateModemStatus_def UART8250Size_def Let_def)
  with Uart_prints_normalised [of demo_uart "[65, 0x0d, 0x0a, 0x0a, 0x0d, 66]" "[]" False]
  show ?thesis by simp
qed

section \<open>Loop back\<close>

text \<open>
  C37 (liveness). A byte transmitted in loop back mode is received, but the port never
  reports its transmitter empty again: the transmitter empty bit stays clear after the byte
  was read back and after loop back mode was left, so a driver that waits for it before
  transmitting waits forever.
\<close>

theorem Uart_loopback_stalls:
  assumes "mcr u AND uartMCRLoop \<noteq> 0" and "lcr u AND uartLCRDLAB = 0"
    and "(u1, w1) = writeRegister E 0 b (u, w)"
    and "(v, (u2, w2)) = readRegister E 0 (u1, w1)"
    and "(u3, w3) = writeRegister E 4 0 (u2, w2)"
  shows "v = b \<and> mcr u3 AND uartMCRLoop = 0 \<and> lsr u3 AND uartLSRTHRE = 0"
proof -
  obtain ua wa where a: "updateInterrupts E (u\<lparr>lsr := lsr u AND NOT uartLSRTHRE\<rparr>, w) = (ua, wa)"
    by (rule prod.exhaust)
  note ua = updateInterrupts_dest [OF a]
  have "uart_transmit E b (ua, wa) = (u1, w1)"
    using assms(2,3) a by (simp add: writeRegister.simps)
  then have "updateInterrupts E (ua\<lparr>rbr := b, lsr := lsr ua OR uartLSRDataReady\<rparr>, wa) = (u1, w1)"
    using assms(1) by (simp add: uart_transmit.simps ua)
  note u1 = updateInterrupts_dest [OF this]
  have 2: "v = b" "clearRX E (u1, w1) = (u2, w2)"
    using assms(2,4) by (simp_all add: readRegister.simps u1 ua)
  note u2 = updateInterrupts_dest [OF 2(2) [unfolded clearRX.simps]]
  obtain ub wb where b: "clearRX E (u2\<lparr>mcr := 0\<rparr>, w2) = (ub, wb)" by (rule prod.exhaust)
  note ub = updateInterrupts_dest [OF b [unfolded clearRX.simps]]
  have "updateInterrupts E (updateModemStatus ub, wb) = (u3, w3)"
    using assms(1,5) b by (simp add: writeRegister.simps setMCR.simps Let_def u2 u1 ua)
  note u3 = updateInterrupts_dest [OF this]
  have "mcr u3 = 0" "lsr u3 = lsr ub" using ub by (simp_all add: u3 updateModemStatus_def Let_def)
  moreover have "lsr ub AND uartLSRTHRE = 0"
    by (simp add: ub u2 u1 ua uart_bits) (rule bit_word_eqI, auto simp: bit_simps)
  ultimately show ?thesis using 2 by simp
qed

theorem Uart_loopback_stalls_witness:
  "\<exists>u1 w1 u2 w2 u3 w3. (u1, w1) = writeRegister rec_env 0 65 (demo_uart\<lparr>mcr := 0x10\<rparr>, ([], False)) \<and>
     (65, (u2, w2)) = readRegister rec_env 0 (u1, w1) \<and> (u3, w3) = writeRegister rec_env 4 0 (u2, w2) \<and>
     lsr u3 AND uartLSRTHRE = 0"
proof -
  obtain u1 w1 where 1: "(u1, w1) = writeRegister rec_env 0 65 (demo_uart\<lparr>mcr := 0x10\<rparr>, ([], False))"
    by (rule prod.exhaust [of "writeRegister rec_env 0 65 (demo_uart\<lparr>mcr := 0x10\<rparr>, ([], False))"]) (drule sym, rule that, assumption)
  obtain v u2 w2 where 2: "(v, (u2, w2)) = readRegister rec_env 0 (u1, w1)"
    by (rule prod_cases3 [of "readRegister rec_env 0 (u1, w1)"]) (drule sym, rule that, assumption)
  obtain u3 w3 where 3: "(u3, w3) = writeRegister rec_env 4 0 (u2, w2)"
    by (rule prod.exhaust [of "writeRegister rec_env 4 0 (u2, w2)"]) (drule sym, rule that, assumption)
  have "mcr (demo_uart\<lparr>mcr := 0x10\<rparr>) AND uartMCRLoop \<noteq> 0" "lcr (demo_uart\<lparr>mcr := 0x10\<rparr>) AND uartLCRDLAB = 0"
    by (simp_all add: demo_uart_def NewUART8250_def updateModemStatus_def Let_def uart_bits)
  note r = Uart_loopback_stalls [OF this 1 2 3]
  then have "(65, (u2, w2)) = readRegister rec_env 0 (u1, w1)" using 2 by (simp only:)
  with 1 3 r show ?thesis by blast
qed

end
