(* ===== verification/PcDevices.thy ===== *)
theory PcDevices
  imports Prelude "HOL-Library.Signed_Division"
begin

text \<open>
  The small devices of a PC: the keyboard controller, the CMOS clock and the ACPI power
  management block, as the KVM backend has them (\<^verbatim>\<open>internal/hv/kvm/i8042_amd64.go\<close>,
  \<^verbatim>\<open>cmos_rtc_amd64.go\<close>, \<^verbatim>\<open>acpi_pm_amd64.go\<close>) and as the Windows backend has them
  (\<^verbatim>\<open>internal/hv/whp/pc_io_windows_amd64.go\<close>), and the arm64 clock
  (\<^verbatim>\<open>internal/arm64vm/pl031.go\<close>). The lemmas show that the two backends present the same
  devices, what the power management registers mean, and that the clocks report the time.

  A KVM port access carries its data in a slice of \<^verbatim>\<open>Size * Count\<close> bytes which the handler
  fills or reads; the state of a handler is the device with that slice. A nil device of
  the Windows backend is \<open>None\<close>.
\<close>

record io_exit =
  io_Port :: u16
  io_Size :: u8
  io_Count :: u32
  io_Write :: bool

type_synonym 'd io = "'d \<times> bytes"

text \<open>
  The loop over the elements of a string access, shared by the handlers of the KVM backend:
  \<^verbatim>\<open>off\<close> is the byte offset of an element.
\<close>

definition io_elements :: "io_exit \<Rightarrow> (nat \<Rightarrow> ('d io, unit) op) \<Rightarrow> ('d io, bool) op" where
  "io_elements x elem =
     bindE (each (\<lambda>i. elem (i * unat (io_Size x))) [0..<unat (io_Count x)]) (\<lambda>_. retE True)"

text \<open>\<^verbatim>\<open>ioExit.Data[off:off+size]\<close>, which panics past the end of the slice.\<close>

definition in_data :: "io_exit \<Rightarrow> nat \<Rightarrow> bytes \<Rightarrow> bool" where
  "in_data x off data \<longleftrightarrow> off + unat (io_Size x) \<le> length data"

section \<open>The keyboard controller\<close>

definition i8042DataPort :: u16 where "i8042DataPort = 0x60"
definition i8042StatusPort :: u16 where "i8042StatusPort = 0x64"
definition i8042StatusOutputFull :: u8 where "i8042StatusOutputFull = 0x01"
definition i8042CmdSelfTest :: u8 where "i8042CmdSelfTest = 0xaa"
definition i8042CmdTestKeyboard :: u8 where "i8042CmdTestKeyboard = 0xab"

record i8042 =
  kbc_queue :: bytes

definition NewI8042 :: i8042 where "NewI8042 = \<lparr>kbc_queue = []\<rparr>"

definition I8042_write :: "u16 \<Rightarrow> bytes \<Rightarrow> i8042 \<Rightarrow> i8042" where
  "I8042_write port data c =
     (if port \<noteq> i8042StatusPort \<or> data = [] then c
      else if hd data = i8042CmdSelfTest then c\<lparr>kbc_queue := kbc_queue c @ [0xfc]\<rparr>
      else if hd data = i8042CmdTestKeyboard then c\<lparr>kbc_queue := kbc_queue c @ [0x00]\<rparr>
      else c)"

definition I8042_read :: "nat \<Rightarrow> u16 \<Rightarrow> i8042 \<Rightarrow> bytes \<times> i8042" where
  "I8042_read n port c =
     (let (val, c1) =
        (if port = i8042DataPort then
           (case kbc_queue c of [] \<Rightarrow> (0, c) | b # bs \<Rightarrow> (b, c\<lparr>kbc_queue := bs\<rparr>))
         else if port = i8042StatusPort then
           (if kbc_queue c \<noteq> [] then (i8042StatusOutputFull, c) else (0, c))
         else (0, c))
      in (replicate n val, c1))"

fun I8042_element :: "io_exit \<Rightarrow> nat \<Rightarrow> (i8042 io, unit) op" where
  "I8042_element x off (c, data) =
     (if \<not> in_data x off data then (Inl Panic, (c, data))
      else if io_Write x then
        (Inr (), (I8042_write (io_Port x) (slice data off (off + unat (io_Size x))) c, data))
      else case I8042_read (unat (io_Size x)) (io_Port x) c of
        (bs, c1) \<Rightarrow> (Inr (), (c1, splice data off bs)))"

definition I8042_HandleIO :: "io_exit \<Rightarrow> (i8042 io, bool) op" where
  "I8042_HandleIO x s =
     (if io_Port x \<noteq> i8042DataPort \<and> io_Port x \<noteq> i8042StatusPort then (Inr False, s)
      else if io_Size x = 0 \<or> io_Count x = 0 then (Inr True, s)
      else io_elements x (I8042_element x) s)"

text \<open>The Windows backend.\<close>

fun I8042_ReadIO :: "u16 \<Rightarrow> (i8042 option io, bool) op" where
  "I8042_ReadIO port (None, data) = (Inr False, (None, data))"
| "I8042_ReadIO port (Some c, data) =
     (if port \<noteq> i8042DataPort \<and> port \<noteq> i8042StatusPort then (Inr False, (Some c, data))
      else if port = i8042DataPort then
        (case kbc_queue c of
           [] \<Rightarrow> (Inr True, (Some c, map (\<lambda>_. 0) data))
         | b # bs \<Rightarrow> (Inr True, (Some (c\<lparr>kbc_queue := bs\<rparr>), map (\<lambda>_. b) data)))
      else (Inr True, (Some c, map (\<lambda>_. if kbc_queue c \<noteq> [] then i8042StatusOutputFull else 0) data)))"

fun I8042_WriteIO :: "u16 \<Rightarrow> (i8042 option io, bool) op" where
  "I8042_WriteIO port (None, data) = (Inr False, (None, data))"
| "I8042_WriteIO port (Some c, data) =
     (if port \<noteq> i8042DataPort \<and> port \<noteq> i8042StatusPort then (Inr False, (Some c, data))
      else if port = i8042StatusPort \<and> data \<noteq> [] then
        (if hd data = i8042CmdSelfTest then (Inr True, (Some (c\<lparr>kbc_queue := kbc_queue c @ [0xfc]\<rparr>), data))
         else if hd data = i8042CmdTestKeyboard then
           (Inr True, (Some (c\<lparr>kbc_queue := kbc_queue c @ [0x00]\<rparr>), data))
         else (Inr True, (Some c, data)))
      else (Inr True, (Some c, data)))"

section \<open>The CMOS clock\<close>

text \<open>
  The clock is the \<^verbatim>\<open>now\<close> function of the device: a broken down UTC time, read from the
  world \<open>'w\<close>.
\<close>

record civil =
  Second :: int
  Minute :: int
  Hour :: int
  Weekday :: int
  Day :: int
  Month :: int
  Year :: int

type_synonym 'w clock = "'w \<Rightarrow> civil \<times> 'w"

definition cmosIndexPort :: u16 where "cmosIndexPort = 0x70"
definition cmosDataPort :: u16 where "cmosDataPort = 0x71"
definition cmosRegSeconds :: u8 where "cmosRegSeconds = 0x00"
definition cmosRegMinutes :: u8 where "cmosRegMinutes = 0x02"
definition cmosRegHours :: u8 where "cmosRegHours = 0x04"
definition cmosRegWeekday :: u8 where "cmosRegWeekday = 0x06"
definition cmosRegMonthDay :: u8 where "cmosRegMonthDay = 0x07"
definition cmosRegMonth :: u8 where "cmosRegMonth = 0x08"
definition cmosRegYear :: u8 where "cmosRegYear = 0x09"
definition cmosRegStatusA :: u8 where "cmosRegStatusA = 0x0a"
definition cmosRegStatusB :: u8 where "cmosRegStatusB = 0x0b"
definition cmosRegStatusD :: u8 where "cmosRegStatusD = 0x0d"
definition cmosRegCentury :: u8 where "cmosRegCentury = 0x32"

lemmas cmos_regs = cmosRegSeconds_def cmosRegMinutes_def cmosRegHours_def cmosRegWeekday_def
  cmosRegMonthDay_def cmosRegMonth_def cmosRegYear_def cmosRegStatusA_def cmosRegStatusB_def
  cmosRegStatusD_def cmosRegCentury_def

record cmosrtc =
  cmos_index :: u8

definition NewCMOSRTC :: cmosrtc where "NewCMOSRTC = \<lparr>cmos_index = 0\<rparr>"

definition bcdByte :: "int \<Rightarrow> u8" where
  "bcdByte v = (let val = (if v < 0 then 0 else v)
     in word_of_int (push_bit 4 (val div 10) OR (val mod 10)))"

definition readRegisterLocked :: "civil \<Rightarrow> u8 \<Rightarrow> u8" where
  "readRegisterLocked now reg =
     (if reg = cmosRegSeconds then bcdByte (Second now)
      else if reg = cmosRegMinutes then bcdByte (Minute now)
      else if reg = cmosRegHours then bcdByte (Hour now)
      else if reg = cmosRegWeekday then bcdByte (Weekday now + 1)
      else if reg = cmosRegMonthDay then bcdByte (Day now)
      else if reg = cmosRegMonth then bcdByte (Month now)
      else if reg = cmosRegYear then bcdByte (Year now smod 100)
      else if reg = cmosRegStatusA then 0x26
      else if reg = cmosRegStatusB then 0x02
      else if reg = cmosRegStatusD then 0x80
      else if reg = cmosRegCentury then bcdByte (Year now sdiv 100)
      else 0)"

fun CMOS_element :: "'w clock \<Rightarrow> io_exit \<Rightarrow> nat \<Rightarrow> ((cmosrtc \<times> 'w) io, unit) op" where
  "CMOS_element now x off ((r, w), data) =
     (if io_Write x then
        (if io_Port x = cmosIndexPort then
           (if off < length data then (Inr (), ((r\<lparr>cmos_index := data ! off AND 0x7f\<rparr>, w), data))
            else (Inl Panic, ((r, w), data)))
         else (Inr (), ((r, w), data)))
      else if \<not> in_data x off data then (Inl Panic, ((r, w), data))
      else if io_Port x = cmosIndexPort then
        (Inr (), ((r, w), splice data off (replicate (unat (io_Size x)) (cmos_index r))))
      else if io_Port x = cmosDataPort then
        (case now w of (t, w1) \<Rightarrow>
           (Inr (), ((r, w1), splice data off (replicate (unat (io_Size x)) (readRegisterLocked t (cmos_index r))))))
      else (Inr (), ((r, w), splice data off (replicate (unat (io_Size x)) 0xff))))"

definition CMOS_HandleIO :: "'w clock \<Rightarrow> io_exit \<Rightarrow> ((cmosrtc \<times> 'w) io, bool) op" where
  "CMOS_HandleIO now x s =
     (if io_Port x \<noteq> cmosIndexPort \<and> io_Port x \<noteq> cmosDataPort then (Inr False, s)
      else if io_Size x = 0 \<or> io_Count x = 0 then (Inr True, s)
      else io_elements x (CMOS_element now x) s)"

fun CMOS_ReadIO :: "'w clock \<Rightarrow> u16 \<Rightarrow> ((cmosrtc \<times> 'w) option io, bool) op" where
  "CMOS_ReadIO now port (None, data) = (Inr False, (None, data))"
| "CMOS_ReadIO now port (Some (r, w), data) =
     (if port \<noteq> cmosIndexPort \<and> port \<noteq> cmosDataPort then (Inr False, (Some (r, w), data))
      else if port = cmosDataPort then
        (case now w of (t, w1) \<Rightarrow>
           (Inr True, (Some (r, w1), map (\<lambda>_. readRegisterLocked t (cmos_index r)) data)))
      else (Inr True, (Some (r, w), map (\<lambda>_. cmos_index r) data)))"

fun CMOS_WriteIO :: "u16 \<Rightarrow> ((cmosrtc \<times> 'w) option io, bool) op" where
  "CMOS_WriteIO port (None, data) = (Inr False, (None, data))"
| "CMOS_WriteIO port (Some (r, w), data) =
     (if port \<noteq> cmosIndexPort \<and> port \<noteq> cmosDataPort then (Inr False, (Some (r, w), data))
      else if port = cmosIndexPort \<and> data \<noteq> [] then
        (Inr True, (Some (r\<lparr>cmos_index := hd data AND 0x7f\<rparr>, w), data))
      else (Inr True, (Some (r, w), data)))"

section \<open>The power management block\<close>

definition acpiPM1EventPort :: u16 where "acpiPM1EventPort = 0x400"
definition acpiPM1ControlPort :: u16 where "acpiPM1ControlPort = 0x404"

record acpipm =
  pm_status :: u16
  pm_enable :: u16
  pm_control :: u16

definition NewACPIPM :: acpipm where
  "NewACPIPM = \<lparr>pm_status = 0, pm_enable = 0, pm_control = 0\<rparr>"

text \<open>The shifts \<^verbatim>\<open>8 * (port - base)\<close> are of 16 bits.\<close>

definition byte_shift :: "u16 \<Rightarrow> u16 \<Rightarrow> nat" where
  "byte_shift port base = unat (8 * (port - base))"

definition ACPIPM_value :: "u16 \<Rightarrow> acpipm \<Rightarrow> u16" where
  "ACPIPM_value port p =
     (if acpiPM1EventPort \<le> port \<and> port < acpiPM1EventPort + 2 then
        drop_bit (byte_shift port acpiPM1EventPort) (pm_status p)
      else if acpiPM1EventPort + 2 \<le> port \<and> port < acpiPM1EventPort + 4 then
        drop_bit (byte_shift port (acpiPM1EventPort + 2)) (pm_enable p)
      else if acpiPM1ControlPort \<le> port \<and> port < acpiPM1ControlPort + 2 then
        drop_bit (byte_shift port acpiPM1ControlPort) (pm_control p)
      else 0)"

definition ACPIPM_read :: "nat \<Rightarrow> u16 \<Rightarrow> acpipm \<Rightarrow> bytes" where
  "ACPIPM_read n port p = map (\<lambda>i. ucast (drop_bit (8 * i) (ACPIPM_value port p))) [0..<n]"

text \<open>The value and the mask of the written bytes, gathered by two loops.\<close>

fun gather_value :: "nat \<Rightarrow> bytes \<Rightarrow> u16" where
  "gather_value i [] = 0"
| "gather_value i (b # bs) = push_bit (8 * i) (ucast b) OR gather_value (Suc i) bs"

fun gather_mask :: "nat \<Rightarrow> bytes \<Rightarrow> u16" where
  "gather_mask i [] = 0"
| "gather_mask i (b # bs) = push_bit (8 * i) 0xff OR gather_mask (Suc i) bs"

definition ACPIPM_write :: "u16 \<Rightarrow> bytes \<Rightarrow> acpipm \<Rightarrow> acpipm" where
  "ACPIPM_write port src p =
     (let val = gather_value 0 src; mask = gather_mask 0 src
      in if acpiPM1EventPort \<le> port \<and> port < acpiPM1EventPort + 2 then
           let shift = byte_shift port acpiPM1EventPort; shiftedMask = push_bit shift mask
           in p\<lparr>pm_status := pm_status p AND NOT (push_bit shift val AND shiftedMask)\<rparr>
         else if acpiPM1EventPort + 2 \<le> port \<and> port < acpiPM1EventPort + 4 then
           let shift = byte_shift port (acpiPM1EventPort + 2); shiftedMask = push_bit shift mask
           in p\<lparr>pm_enable := (pm_enable p AND NOT shiftedMask) OR (push_bit shift val AND shiftedMask)\<rparr>
         else if acpiPM1ControlPort \<le> port \<and> port < acpiPM1ControlPort + 2 then
           let shift = byte_shift port acpiPM1ControlPort; shiftedMask = push_bit shift mask
           in p\<lparr>pm_control := (pm_control p AND NOT shiftedMask) OR (push_bit shift val AND shiftedMask)\<rparr>
         else p)"

text \<open>Sleep enable with sleep type 5.\<close>

definition powered_off :: "acpipm \<Rightarrow> bool" where
  "powered_off p \<longleftrightarrow> pm_control p AND push_bit 13 1 \<noteq> 0 \<and> drop_bit 10 (pm_control p) AND 7 = 5"

fun ACPIPM_element :: "io_exit \<Rightarrow> nat \<Rightarrow> (acpipm io, unit) op" where
  "ACPIPM_element x off (p, data) =
     (let port = io_Port x + of_nat off
      in if \<not> in_data x off data then (Inl Panic, (p, data))
         else if io_Write x then
           let p1 = ACPIPM_write port (slice data off (off + unat (io_Size x))) p
           in if powered_off p1 then (Inl GuestPoweroff, (p1, data)) else (Inr (), (p1, data))
         else (Inr (), (p, splice data off (ACPIPM_read (unat (io_Size x)) port p))))"

definition ACPIPM_HandleIO :: "io_exit \<Rightarrow> (acpipm io, bool) op" where
  "ACPIPM_HandleIO x s =
     (if io_Port x < acpiPM1EventPort \<or> acpiPM1ControlPort + 2 \<le> io_Port x then (Inr False, s)
      else if io_Size x = 0 \<or> io_Count x = 0 then (Inr True, s)
      else io_elements x (ACPIPM_element x) s)"

fun ACPIPM_ReadIO :: "u16 \<Rightarrow> (acpipm option io, bool) op" where
  "ACPIPM_ReadIO port (None, data) = (Inr False, (None, data))"
| "ACPIPM_ReadIO port (Some p, data) =
     (if port < acpiPM1EventPort \<or> acpiPM1ControlPort + 2 \<le> port then (Inr False, (Some p, data))
      else (Inr True, (Some p, map (\<lambda>i. ucast (drop_bit (8 * i) (ACPIPM_value port p))) [0..<length data])))"

fun ACPIPM_WriteIO :: "u16 \<Rightarrow> (acpipm option io, bool) op" where
  "ACPIPM_WriteIO port (None, data) = (Inr False, (None, data))"
| "ACPIPM_WriteIO port (Some p, data) =
     (if port < acpiPM1EventPort \<or> acpiPM1ControlPort + 2 \<le> port then (Inr False, (Some p, data))
      else
        let val = gather_value 0 data; mask = gather_mask 0 data
        in if acpiPM1EventPort \<le> port \<and> port < acpiPM1EventPort + 2 then
             let shift = byte_shift port acpiPM1EventPort; shiftedMask = push_bit shift mask
             in (Inr True, (Some (p\<lparr>pm_status := pm_status p AND NOT (push_bit shift val AND shiftedMask)\<rparr>), data))
           else if acpiPM1EventPort + 2 \<le> port \<and> port < acpiPM1EventPort + 4 then
             let shift = byte_shift port (acpiPM1EventPort + 2); shiftedMask = push_bit shift mask
             in (Inr True, (Some (p\<lparr>pm_enable := (pm_enable p AND NOT shiftedMask) OR
                  (push_bit shift val AND shiftedMask)\<rparr>), data))
           else if acpiPM1ControlPort \<le> port \<and> port < acpiPM1ControlPort + 2 then
             let shift = byte_shift port acpiPM1ControlPort; shiftedMask = push_bit shift mask;
                 p1 = p\<lparr>pm_control := (pm_control p AND NOT shiftedMask) OR (push_bit shift val AND shiftedMask)\<rparr>
             in if powered_off p1 then (Inl GuestPoweroff, (Some p1, data)) else (Inr True, (Some p1, data))
           else (Inr True, (Some p, data)))"

section \<open>The arm64 clock\<close>

text \<open>
  A \<^verbatim>\<open>time.Time\<close> is its Unix second with the reading of the monotonic clock in nanoseconds;
  \<^verbatim>\<open>time.Since\<close> is the difference of two readings, saturated at the width of a
  \<^verbatim>\<open>time.Duration\<close>. The zero time is \<open>None\<close>. The \<^verbatim>\<open>int64\<close> seconds are kept as 64 bit words.
\<close>

record go_time =
  unix :: u64
  mono :: int

definition time_Since :: "go_time \<Rightarrow> go_time \<Rightarrow> int" where
  "time_Since start now = max (- (2 ^ 63)) (min (2 ^ 63 - 1) (mono now - mono start))"

definition pl031DR :: u64 where "pl031DR = 0x00"
definition pl031LR :: u64 where "pl031LR = 0x08"
definition pl031CR :: u64 where "pl031CR = 0x0c"
definition pl031RIS :: u64 where "pl031RIS = 0x14"
definition pl031MIS :: u64 where "pl031MIS = 0x18"
definition pl031CRStart :: u32 where "pl031CRStart = 1"
definition RTCSize :: u64 where "RTCSize = 0x1000"

lemmas pl031_regs = pl031DR_def pl031LR_def pl031CR_def pl031RIS_def pl031MIS_def

record pl031 =
  pl_Base :: u64
  pl_Size :: u64
  pl_start :: go_time
  pl_baseUnix :: u64
  pl_control :: u32
  pl_interrupt :: u32

definition NewPL031 :: "go_time \<Rightarrow> u64 \<Rightarrow> u64 \<Rightarrow> go_time option \<Rightarrow> pl031" where
  "NewPL031 timeNow base sz now =
     (let t = (case now of None \<Rightarrow> timeNow | Some t \<Rightarrow> t)
      in \<lparr>pl_Base = base, pl_Size = (if sz = 0 then RTCSize else sz), pl_start = t,
          pl_baseUnix = unix t, pl_control = pl031CRStart, pl_interrupt = 0\<rparr>)"

fun PL031_Contains :: "pl031 option \<Rightarrow> u64 \<Rightarrow> int \<Rightarrow> bool" where
  "PL031_Contains None addr sz = False"
| "PL031_Contains (Some r) addr sz =
     (if sz \<le> 0 then False
      else pl_Base r \<le> addr \<and> addr + of_int sz \<le> pl_Base r + pl_Size r)"

definition currentUnix :: "go_time \<Rightarrow> pl031 \<Rightarrow> u64" where
  "currentUnix now r =
     (if pl_control r AND pl031CRStart = 0 then pl_baseUnix r
      else pl_baseUnix r + word_of_int (time_Since (pl_start r) now sdiv 1000000000))"

definition truncatePL031 :: "u64 \<Rightarrow> int \<Rightarrow> u64" where
  "truncatePL031 val sz =
     (if 8 \<le> sz then val else if sz \<le> 0 then 0
      else val AND (push_bit (nat sz * 8) 1 - 1))"

fun PL031_Read :: "go_time \<Rightarrow> pl031 option \<Rightarrow> u64 \<Rightarrow> int \<Rightarrow> u64" where
  "PL031_Read now None addr sz = 0"
| "PL031_Read now (Some r) addr sz =
     (let reg = addr - pl_Base r
      in if reg = pl031DR then truncatePL031 (currentUnix now r) sz
         else if reg = pl031LR then truncatePL031 (pl_baseUnix r) sz
         else if reg = pl031CR then truncatePL031 (ucast (pl_control r)) sz
         else if reg = pl031RIS \<or> reg = pl031MIS then truncatePL031 (ucast (pl_interrupt r)) sz
         else 0)"

fun PL031_Write :: "go_time \<Rightarrow> u64 \<Rightarrow> int \<Rightarrow> u64 \<Rightarrow> pl031 option \<Rightarrow> pl031 option" where
  "PL031_Write now addr sz val None = None"
| "PL031_Write now addr sz val (Some r) =
     (let reg = addr - pl_Base r
      in if reg = pl031LR then Some (r\<lparr>pl_baseUnix := ucast (ucast val :: u32), pl_start := now\<rparr>)
         else if reg = pl031CR then Some (r\<lparr>pl_control := ucast val AND pl031CRStart\<rparr>)
         else Some r)"

declare I8042_element.simps [simp del] CMOS_element.simps [simp del] ACPIPM_element.simps [simp del]

section \<open>The two backends\<close>

text \<open>
  A string access as the Windows backend sees it: one access per element, in order, up to
  the first error.
\<close>

fun string_access :: "('d option io, bool) op \<Rightarrow> nat \<Rightarrow> nat \<Rightarrow> ('d io, bool) op" where
  "string_access acc sz 0 (d, data) = (Inr True, (d, data))"
| "string_access acc sz (Suc n) (d, data) =
     (case acc (Some d, take sz data) of
        (Inl e, (d1, buf)) \<Rightarrow> (Inl e, (case d1 of None \<Rightarrow> d | Some d1 \<Rightarrow> d1, buf @ drop sz data))
      | (Inr _, (d1, buf)) \<Rightarrow>
          (case string_access acc sz n (case d1 of None \<Rightarrow> d | Some d1 \<Rightarrow> d1, drop sz data) of
             (r, (d2, rest)) \<Rightarrow> (r, (d2, buf @ rest))))"

lemma string_access_numeral [simp]:
  "string_access acc sz (numeral k) s = string_access acc sz (Suc (pred_numeral k)) s"
  by (simp add: numeral_eq_Suc)

text \<open>
  What relates the two backends of a device: on a port of the device, the element loop of
  the KVM handler treats its element as the Windows handler treats an access.
\<close>

locale two_backends =
  fixes claims :: "u16 \<Rightarrow> bool"
    and element :: "io_exit \<Rightarrow> nat \<Rightarrow> ('d io, unit) op"
    and readio writeio :: "u16 \<Rightarrow> ('d option io, bool) op"
  assumes element_ok: "claims (io_Port x) \<Longrightarrow> io_Size x \<noteq> 0 \<Longrightarrow> in_data x off data \<Longrightarrow>
      (if io_Write x then writeio else readio) (io_Port x) (Some d, slice data off (off + unat (io_Size x))) =
        (r, (d1, buf)) \<Longrightarrow>
      r = Inr True \<and> d1 \<noteq> None \<and> length buf = unat (io_Size x) \<and>
      element x off (d, data) = (Inr (), (the d1, splice data off buf))"
begin

lemma elements_string:
  assumes "claims (io_Port x)" and "io_Size x \<noteq> 0" and "length rest = unat (io_Size x) * n"
    and "length front = unat (io_Size x) * k"
  shows "bindE (each (\<lambda>i. element x (i * unat (io_Size x))) [k..<k + n]) (\<lambda>_. retE True) (d, front @ rest) =
    (case string_access ((if io_Write x then writeio else readio) (io_Port x)) (unat (io_Size x)) n (d, rest) of
       (r, (d1, rest1)) \<Rightarrow> (r, (d1, front @ rest1)))"
  using assms(3,4)
proof (induction n arbitrary: k d front rest)
  case 0
  then show ?case by (simp add: bindE_def)
next
  case (Suc n)
  let ?acc = "(if io_Write x then writeio else readio) (io_Port x)" and ?z = "unat (io_Size x)"
  obtain r d1 buf where acc: "?acc (Some d, take ?z rest) = (r, (d1, buf))" by (rule prod_cases3)
  have sl: "slice (front @ rest) (k * ?z) (k * ?z + ?z) = take ?z rest"
    using Suc.prems by (simp add: slice_def mult.commute)
  have "in_data x (k * ?z) (front @ rest)" using Suc.prems by (simp add: in_data_def mult.commute)
  from element_ok [OF assms(1,2) this, of d r d1 buf, unfolded sl] acc obtain d' where
    e: "r = Inr True" "d1 = Some d'" "length buf = ?z"
      "element x (k * ?z) (d, front @ rest) = (Inr (), (d', splice (front @ rest) (k * ?z) buf))"
    by auto
  have sp: "splice (front @ rest) (k * ?z) buf = (front @ buf) @ drop ?z rest"
    using Suc.prems e(3) by (simp add: splice_def mult.commute)
  have up: "[k..<k + Suc n] = k # [Suc k..<Suc k + n]" by (simp add: upt_rec)
  have IH: "bindE (each (\<lambda>i. element x (i * ?z)) [Suc k..<Suc k + n]) (\<lambda>_. retE True) (d', (front @ buf) @ drop ?z rest) =
      (case string_access ?acc ?z n (d', drop ?z rest) of (r, (d1, rest1)) \<Rightarrow> (r, (d1, (front @ buf) @ rest1)))"
    using Suc.prems e(3) by (intro Suc.IH) simp_all
  have "bindE (each (\<lambda>i. element x (i * ?z)) [k..<k + Suc n]) (\<lambda>_. retE True) (d, front @ rest) =
      bindE (each (\<lambda>i. element x (i * ?z)) [Suc k..<Suc k + n]) (\<lambda>_. retE True) (d', (front @ buf) @ drop ?z rest)"
    unfolding up each_Cons bindE_assoc by (rule bindE_Inr) (simp only: e(4) sp)
  then show ?case unfolding IH
    by (simp only: string_access.simps acc e(1,2) prod.case sum.case option.case append_assoc split_beta fst_conv snd_conv)
qed

lemma handle_string:
  assumes "claims (io_Port x)" and "io_Size x \<noteq> 0" and "length data = unat (io_Size x) * unat (io_Count x)"
  shows "io_elements x (element x) (d, data) =
    string_access ((if io_Write x then writeio else readio) (io_Port x)) (unat (io_Size x)) (unat (io_Count x)) (d, data)"
  using elements_string [OF assms(1,2,3), of "[]" 0 d] by (simp add: io_elements_def split: prod.splits)

end

lemma splice_slice: "off + n \<le> length data \<Longrightarrow> splice data off (slice data off (off + n)) = data"
  by (simp add: splice_def slice_def) (metis append_take_drop_id add.commute drop_drop)

lemma map_const_slice:
  "off + n \<le> length data \<Longrightarrow> map (\<lambda>_. v) (slice data off (off + n)) = replicate n v"
  by (simp add: map_replicate_const)

lemma slice_not_Nil: "off + n \<le> length data \<Longrightarrow> n \<noteq> 0 \<Longrightarrow> slice data off (off + n) \<noteq> []"
  by (simp add: slice_def)

lemma hd_slice: "off + n \<le> length data \<Longrightarrow> n \<noteq> 0 \<Longrightarrow> hd (slice data off (off + n)) = data ! off"
  by (simp add: slice_def hd_drop_conv_nth)

interpretation kbc: two_backends "\<lambda>p. p = i8042DataPort \<or> p = i8042StatusPort" I8042_element I8042_ReadIO I8042_WriteIO
proof
  fix x off data and d :: i8042 and r d1 buf
  assume p: "io_Port x = i8042DataPort \<or> io_Port x = i8042StatusPort" and z: "io_Size x \<noteq> 0" and i: "in_data x off data"
    and acc: "(if io_Write x then I8042_WriteIO else I8042_ReadIO) (io_Port x)
      (Some d, slice data off (off + unat (io_Size x))) = (r, (d1, buf))"
  have n: "unat (io_Size x) \<noteq> 0" using z by (simp add: unat_eq_0)
  note i' = i [unfolded in_data_def]
  have ne: "i8042DataPort \<noteq> i8042StatusPort" by (simp add: i8042DataPort_def i8042StatusPort_def)
  show "r = Inr True \<and> d1 \<noteq> None \<and> length buf = unat (io_Size x) \<and>
      I8042_element x off (d, data) = (Inr (), (the d1, splice data off buf))"
  proof (cases "io_Write x")
    case True
    then show ?thesis
      using acc p ne i i' splice_slice [OF i'] slice_not_Nil [OF i' n]
      by (auto simp: I8042_element.simps I8042_write_def split: if_splits)
  next
    case False
    then show ?thesis
      using acc p ne i i'
      by (auto simp: map_const_slice I8042_element.simps I8042_read_def split: list.splits if_splits)
  qed
qed

interpretation rtc: two_backends "\<lambda>p. p = cmosIndexPort \<or> p = cmosDataPort" "CMOS_element now" "CMOS_ReadIO now" CMOS_WriteIO
  for now :: "'w clock"
proof
  fix x off data and d :: "cmosrtc \<times> 'w" and r d1 buf
  assume p: "io_Port x = cmosIndexPort \<or> io_Port x = cmosDataPort" and z: "io_Size x \<noteq> 0" and i: "in_data x off data"
    and acc: "(if io_Write x then CMOS_WriteIO else CMOS_ReadIO now) (io_Port x)
      (Some d, slice data off (off + unat (io_Size x))) = (r, (d1, buf))"
  obtain c w where d: "d = (c, w)" by (rule prod.exhaust)
  have n: "unat (io_Size x) \<noteq> 0" using z by (simp add: unat_eq_0)
  note i' = i [unfolded in_data_def]
  have ne: "cmosIndexPort \<noteq> cmosDataPort" by (simp add: cmosIndexPort_def cmosDataPort_def)
  have l: "off < length data" using i' n by simp
  show "r = Inr True \<and> d1 \<noteq> None \<and> length buf = unat (io_Size x) \<and>
      CMOS_element now x off (d, data) = (Inr (), (the d1, splice data off buf))"
  proof (cases "io_Write x")
    case True
    then show ?thesis
      using acc p ne i i' l splice_slice [OF i'] slice_not_Nil [OF i' n] hd_slice [OF i' n]
      by (auto simp: d CMOS_element.simps split: if_splits)
  next
    case False
    then show ?thesis
      using acc p ne i i'
      by (auto simp: map_const_slice d CMOS_element.simps split: prod.splits if_splits)
  qed
qed

text \<open>
  C24 (equivalence). The keyboard controllers of the two backends behave the same: handling
  a string access of any size and count in the KVM backend gives the result, the device and
  the data that one access per element gives in the Windows backend.
\<close>

theorem I8042_backends_agree:
  assumes "io_Port x = i8042DataPort \<or> io_Port x = i8042StatusPort" and "io_Size x \<noteq> 0" and "io_Count x \<noteq> 0"
    and "length data = unat (io_Size x) * unat (io_Count x)"
  shows "I8042_HandleIO x (c, data) =
    string_access ((if io_Write x then I8042_WriteIO else I8042_ReadIO) (io_Port x))
      (unat (io_Size x)) (unat (io_Count x)) (c, data)"
  using assms(1-3) kbc.handle_string [OF assms(1,2,4)] by (auto simp: I8042_HandleIO_def)

theorem I8042_backends_agree_witness:
  "I8042_HandleIO \<lparr>io_Port = 0x60, io_Size = 1, io_Count = 2, io_Write = False\<rparr> (\<lparr>kbc_queue = [0xfc, 0]\<rparr>, [7, 7]) =
     (Inr True, (\<lparr>kbc_queue = []\<rparr>, [0xfc, 0]))"
  by (subst I8042_backends_agree) (simp_all add: i8042DataPort_def)

text \<open>
  C25 (equivalence). The CMOS clocks of the two backends behave the same, whatever the host
  clock they read: a string access in the KVM backend is one access per element in the
  Windows backend.
\<close>

theorem CMOS_backends_agree:
  assumes "io_Port x = cmosIndexPort \<or> io_Port x = cmosDataPort" and "io_Size x \<noteq> 0" and "io_Count x \<noteq> 0"
    and "length data = unat (io_Size x) * unat (io_Count x)"
  shows "CMOS_HandleIO now x (c, data) =
    string_access ((if io_Write x then CMOS_WriteIO else CMOS_ReadIO now) (io_Port x))
      (unat (io_Size x)) (unat (io_Count x)) (c, data)"
  using assms(1-3) rtc.handle_string [OF assms(1,2,4), of now c] by (auto simp: CMOS_HandleIO_def)

definition demo_clock :: "civil clock" where
  "demo_clock t = (t, t\<lparr>Second := Second t + 1\<rparr>)"

definition demo_time :: civil where
  "demo_time = \<lparr>Second = 41, Minute = 59, Hour = 23, Weekday = 6, Day = 31, Month = 12, Year = 1999\<rparr>"

theorem CMOS_backends_agree_witness:
  "CMOS_HandleIO demo_clock \<lparr>io_Port = 0x71, io_Size = 1, io_Count = 2, io_Write = False\<rparr> ((NewCMOSRTC, demo_time), [0, 0]) =
     (Inr True, ((NewCMOSRTC, demo_time\<lparr>Second := 43\<rparr>), [0x41, 0x42]))"
  by (subst CMOS_backends_agree)
    (simp_all add: cmosDataPort_def cmosIndexPort_def demo_clock_def demo_time_def NewCMOSRTC_def
      readRegisterLocked_def bcdByte_def cmosRegSeconds_def)

section \<open>Power management\<close>

lemma io_elements_one: "io_Count x = 1 \<Longrightarrow> io_elements x elem s = (case elem 0 s of (Inl e, t) \<Rightarrow> (Inl e, t) | (Inr _, t) \<Rightarrow> (Inr True, t))"
  by (auto simp: io_elements_def bindE_def split: prod.splits sum.splits)

lemma le16_bits: "le16 [a, b] = ucast a OR push_bit 8 (ucast b)"
proof -
  have "le16 [a, b] = ucast a + push_bit 8 (ucast b)"
    by (simp add: le16_def push_bit_eq_mult mult.commute flip: unsigned_of_nat [where 'a = 16])
  also have "\<dots> = ucast a OR push_bit 8 (ucast b)"
    by (rule disjunctive_add) (auto simp: bit_simps dest: bit_imp_le_length)
  finally show ?thesis .
qed

lemma sleep_bits:
  "(le16 [b0, b1] AND push_bit 13 1 \<noteq> 0 \<and> drop_bit 10 (le16 [b0, b1]) AND 7 = 5) =
     (bit b1 5 \<and> drop_bit 2 b1 AND 7 = 5)"
proof -
  have d: "drop_bit 10 (le16 [b0, b1]) = (ucast (drop_bit 2 b1) :: u16)"
    unfolding le16_bits by (rule bit_word_eqI) (auto simp: bit_simps dest: bit_imp_le_length)
  have rt: "ucast (ucast y :: u16) = y" for y :: u8
    by (rule bit_word_eqI) (auto simp: bit_simps)
  have "(ucast x AND 7 = (5 :: u16)) = (ucast (x AND 7) = (ucast (5 :: u8) :: u16))" for x :: u8
    by (simp add: unsigned_and_eq)
  then have f: "(ucast x AND 7 = (5 :: u16)) = (x AND 7 = 5)" for x :: u8
    by (metis rt)
  have b: "(le16 [b0, b1] AND push_bit 13 1 \<noteq> 0) = bit b1 5"
    unfolding push_bit_of_1 and_exp_eq_0_iff_not_bit le16_bits by (auto simp: bit_simps dest: bit_imp_le_length)
  show ?thesis unfolding b d f ..
qed

lemma mask_word: "gather_mask 0 [b0, b1] = mask 16"
  by (simp add: mask_eq_exp_minus_1)

lemma value_word: "gather_value 0 [b0, b1] = le16 [b0, b1]"
  by (simp add: le16_bits)

lemmas acpi_ports = acpiPM1EventPort_def acpiPM1ControlPort_def byte_shift_def

text \<open>
  C26 (equivalence). The power management blocks of the two backends agree on every single
  access to a block that has not been powered off: same result, same registers, same data,
  and both stop the guest at the same write.
\<close>

theorem ACPIPM_backends_agree:
  assumes "acpiPM1EventPort \<le> io_Port x" and "io_Port x < acpiPM1ControlPort + 2"
    and "io_Size x \<noteq> 0" and "io_Count x = 1" and "length data = unat (io_Size x)" and "\<not> powered_off p"
  shows "ACPIPM_HandleIO x (p, data) =
    string_access ((if io_Write x then ACPIPM_WriteIO else ACPIPM_ReadIO) (io_Port x)) (unat (io_Size x)) 1 (p, data)"
proof -
  have off: "powered_off (p\<lparr>pm_status := a\<rparr>) = powered_off p" "powered_off (p\<lparr>pm_enable := a\<rparr>) = powered_off p" for a
    by (simp_all add: powered_off_def)
  have h: "ACPIPM_HandleIO x (p, data) = io_elements x (ACPIPM_element x) (p, data)"
    using assms(1-4) by (auto simp: ACPIPM_HandleIO_def)
  have s: "splice data 0 (ACPIPM_read (length data) (io_Port x) p) = ACPIPM_read (length data) (io_Port x) p"
    by (simp add: splice_def ACPIPM_read_def)
  show ?thesis
  proof (cases "io_Write x")
    case True
    then show ?thesis unfolding h
      using assms off by (auto simp: io_elements_one ACPIPM_element.simps in_data_def ACPIPM_write_def Let_def not_less not_le)
  next
    case False
    then show ?thesis unfolding h
      using assms s by (auto simp: io_elements_one ACPIPM_element.simps in_data_def not_less not_le ACPIPM_read_def)
  qed
qed

theorem ACPIPM_backends_agree_witness:
  "ACPIPM_HandleIO \<lparr>io_Port = 0x405, io_Size = 1, io_Count = 1, io_Write = True\<rparr> (NewACPIPM, [0x34]) =
     (Inl GuestPoweroff, (NewACPIPM\<lparr>pm_control := 0x3400\<rparr>, [0x34]))"
  by (subst ACPIPM_backends_agree)
    (simp_all add: acpi_ports NewACPIPM_def powered_off_def Let_def)

text \<open>
  C27 (functional). A 16 bit write to the control register stores the value and stops the
  guest exactly when it has sleep enable set and sleep type 5.
\<close>

theorem ACPIPM_poweroff:
  "ACPIPM_HandleIO \<lparr>io_Port = acpiPM1ControlPort, io_Size = 2, io_Count = 1, io_Write = True\<rparr> (p, [b0, b1]) =
     (if bit b1 5 \<and> drop_bit 2 b1 AND 7 = 5 then Inl GuestPoweroff else Inr True, (p\<lparr>pm_control := le16 [b0, b1]\<rparr>, [b0, b1]))"
proof -
  have v: "(pm_control p AND NOT (gather_mask 0 [b0, b1])) OR (gather_value 0 [b0, b1] AND gather_mask 0 [b0, b1]) = le16 [b0, b1]"
    unfolding mask_word value_word by (rule bit_word_eqI) (auto simp: bit_simps)
  show ?thesis
    using v sleep_bits [of b0 b1] by (simp add: ACPIPM_HandleIO_def io_elements_one ACPIPM_element.simps in_data_def ACPIPM_write_def
        acpi_ports powered_off_def Let_def slice_def)
qed

text \<open>
  The registers are byte addressable: writing the two bytes of a register
  one after the other is writing them at once, for the status register (where a one clears
  the bit), the enable register and the control register.
\<close>

lemma ACPIPM_bytewise:
  assumes "base = acpiPM1EventPort \<or> base = acpiPM1EventPort + 2 \<or> base = acpiPM1ControlPort"
  shows "ACPIPM_write (base + 1) [b1] (ACPIPM_write base [b0] p) = ACPIPM_write base [b0, b1] p"
proof -
  define m where "m = (mask 8 :: u16)"
  define m2 where "m2 = (mask 16 :: u16)"
  have low: "gather_value 0 [b] = ucast b" "gather_mask 0 [b] = m" for b
    by (simp_all add: m_def mask_eq_exp_minus_1)
  have m2: "gather_mask 0 [b0, b1] = m2" by (simp only: mask_word m2_def)
  have e: "(a AND NOT (ucast b0 AND m)) AND NOT (push_bit 8 (ucast b1) AND push_bit 8 m) = a AND NOT (le16 [b0, b1] AND m2)"
    for a :: u16
    unfolding le16_bits m_def m2_def by (rule bit_word_eqI) (auto simp: bit_simps dest: bit_imp_le_length)
  have f: "(((a AND NOT m) OR (ucast b0 AND m)) AND NOT (push_bit 8 m)) OR (push_bit 8 (ucast b1) AND push_bit 8 m) =
      (a AND NOT m2) OR (le16 [b0, b1] AND m2)" for a :: u16
    unfolding le16_bits m_def m2_def by (rule bit_word_eqI) (auto simp: bit_simps dest: bit_imp_le_length)
  from assms show ?thesis
    by (elim disjE)
      (simp_all add: ACPIPM_write_def acpi_ports low m2 value_word e f Let_def
        del: gather_value.simps gather_mask.simps bit.de_Morgan_conj)
qed

lemma ACPIPM_bytewise_witness:
  "ACPIPM_write 0x405 [0x34] (ACPIPM_write 0x404 [1] NewACPIPM) = NewACPIPM\<lparr>pm_control := 0x3401\<rparr>"
  using ACPIPM_bytewise [of acpiPM1ControlPort "0x34" 1 NewACPIPM]
  by (simp add: acpi_ports ACPIPM_write_def NewACPIPM_def)

section \<open>The time\<close>

text \<open>What a guest reads: the register is selected through the index port, then read.\<close>

definition cmos_get :: "'w clock \<Rightarrow> u8 \<Rightarrow> cmosrtc \<times> 'w \<Rightarrow> u8" where
  "cmos_get now reg s =
     (case CMOS_HandleIO now \<lparr>io_Port = cmosIndexPort, io_Size = 1, io_Count = 1, io_Write = True\<rparr> (s, [reg]) of
        (_, (s1, _)) \<Rightarrow>
     (case CMOS_HandleIO now \<lparr>io_Port = cmosDataPort, io_Size = 1, io_Count = 1, io_Write = False\<rparr> (s1, [0]) of
        (_, (_, data)) \<Rightarrow> hd data))"

definition unbcd :: "u8 \<Rightarrow> int" where
  "unbcd b = 10 * uint (drop_bit 4 b) + uint (b AND 0x0f)"

lemma sdiv_nonneg: "0 \<le> k \<Longrightarrow> 0 < l \<Longrightarrow> k sdiv l = k div l" for k l :: int
  by (cases "k = 0") (simp_all add: signed_divide_int_def)

lemma smod_nonneg: "0 \<le> k \<Longrightarrow> 0 < l \<Longrightarrow> k smod l = k mod l" for k l :: int
  by (cases "k = 0") (simp_all add: signed_modulo_int_def sdiv_nonneg minus_div_mult_eq_mod)

lemma ucast_down_add: "(ucast (a + b :: u64) :: u32) = ucast a + ucast b"
  by (rule unsigned_word_eqI [where 'a = int])
    (simp add: unsigned_ucast_eq uint_plus_simple_iff uint_word_ariths take_bit_eq_mod mod_simps mod_mod_cancel)

lemma ucast_down_up: "(ucast (ucast (a :: u32) :: u64) :: u32) = a"
  by (rule bit_word_eqI) (auto simp: bit_simps)

lemma ucast_down_of_int: "(ucast (word_of_int k :: u64) :: u32) = word_of_int k"
  by (rule unsigned_word_eqI [where 'a = int]) (simp add: unsigned_ucast_eq unsigned_of_int)

lemma unbcd_bcdByte: "0 \<le> v \<Longrightarrow> v < 100 \<Longrightarrow> unbcd (bcdByte v) = v"
proof -
  have "list_all (\<lambda>v. unbcd (bcdByte v) = v) [0..99]" by code_simp
  then show "0 \<le> v \<Longrightarrow> v < 100 \<Longrightarrow> unbcd (bcdByte v) = v" by (simp add: list_all_iff)
qed

lemma cmos_get_register: "reg AND 0x7f = reg \<Longrightarrow> cmos_get now reg (r, w) = readRegisterLocked (fst (now w)) reg"
  by (simp add: cmos_get_def CMOS_HandleIO_def io_elements_one CMOS_element.simps in_data_def splice_def
      cmosIndexPort_def cmosDataPort_def case_prod_beta)

text \<open>
  C28 (roundtrip). A guest that reads the clock registers and decodes them as the status
  register tells it (binary coded decimal, 24 hours) gets the time of the host.
\<close>

theorem CMOS_reports_time:
  assumes "fst (now w) = t" and "0 \<le> Second t" "Second t < 60" and "0 \<le> Minute t" "Minute t < 60"
    and "0 \<le> Hour t" "Hour t < 24" and "0 \<le> Weekday t" "Weekday t < 7" and "1 \<le> Day t" "Day t \<le> 31"
    and "1 \<le> Month t" "Month t \<le> 12" and "0 \<le> Year t" "Year t < 10000"
  shows "unbcd (cmos_get now 0x00 (r, w)) = Second t \<and> unbcd (cmos_get now 0x02 (r, w)) = Minute t \<and>
    unbcd (cmos_get now 0x04 (r, w)) = Hour t \<and> unbcd (cmos_get now 0x06 (r, w)) = Weekday t + 1 \<and>
    unbcd (cmos_get now 0x07 (r, w)) = Day t \<and> unbcd (cmos_get now 0x08 (r, w)) = Month t \<and>
    100 * unbcd (cmos_get now 0x32 (r, w)) + unbcd (cmos_get now 0x09 (r, w)) = Year t \<and>
    cmos_get now 0x0b (r, w) AND 0x06 = 0x02"
  using assms
  by (simp add: cmos_get_register readRegisterLocked_def cmos_regs unbcd_bcdByte sdiv_nonneg smod_nonneg)

theorem CMOS_reports_time_witness:
  "unbcd (cmos_get demo_clock 0x00 (NewCMOSRTC, demo_time)) = 41 \<and>
   100 * unbcd (cmos_get demo_clock 0x32 (NewCMOSRTC, demo_time)) + unbcd (cmos_get demo_clock 0x09 (NewCMOSRTC, demo_time)) = 1999"
  using CMOS_reports_time [of demo_clock demo_time demo_time NewCMOSRTC] by (simp add: demo_clock_def demo_time_def)

lemma truncatePL031_word: "truncatePL031 v 4 = ucast (ucast v :: u32)"
proof -
  have "(push_bit (nat 4 * 8) 1 - 1 :: u64) = mask 32" by (simp add: mask_eq_exp_minus_1)
  then have "truncatePL031 v 4 = v AND mask 32" by (simp only: truncatePL031_def) simp
  also have "\<dots> = ucast (ucast v :: u32)" by (rule bit_word_eqI) (auto simp: bit_simps)
  finally show ?thesis .
qed

text \<open>
  A running arm64 clock that was set to a second count shows, \<open>e\<close>
  nanoseconds later, the count with the whole seconds of \<open>e\<close> added, modulo 32 bits; a
  stopped one shows the count it was set to.
\<close>

lemma PL031_counts:
  assumes "Some r1 = PL031_Write t0 (pl_Base r + pl031LR) 4 v (Some r)"
    and "0 \<le> mono t1 - mono t0" and "mono t1 - mono t0 < 2 ^ 63"
  shows "PL031_Read t1 (Some r1) (pl_Base r + pl031DR) 4 =
    ucast (ucast v + (if pl_control r AND pl031CRStart = 0 then 0 else word_of_int ((mono t1 - mono t0) div 1000000000)) :: u32)"
proof -
  have r1: "r1 = r\<lparr>pl_baseUnix := ucast (ucast v :: u32), pl_start := t0\<rparr>"
    using assms(1) by (simp add: pl031_regs)
  have since: "time_Since t0 t1 = mono t1 - mono t0" using assms(2,3) by (simp add: time_Since_def)
  have d: "(mono t1 - mono t0) sdiv 1000000000 = (mono t1 - mono t0) div 1000000000"
    using assms(2) by (simp add: sdiv_nonneg)
  have a: "(ucast (ucast (ucast (ucast v :: u32) + e :: u64) :: u32) :: u64) = ucast (ucast v + ucast e :: u32)" for e :: u64
    unfolding ucast_down_add ucast_down_up by (rule refl)
  show ?thesis
    by (simp add: r1 currentUnix_def truncatePL031_word since d a pl031_regs ucast_down_up ucast_down_of_int)
qed

lemma PL031_counts_witness:
  "PL031_Read \<lparr>unix = 0, mono = 3500000000\<rparr>
     (PL031_Write \<lparr>unix = 0, mono = 0\<rparr> 0x9010008 4 0xffffffff (Some (NewPL031 \<lparr>unix = 0, mono = 0\<rparr> 0x9010000 0 None)))
     0x9010000 4 = 2"
proof -
  let ?r = "NewPL031 \<lparr>unix = 0, mono = 0\<rparr> 0x9010000 0 None"
  have b: "pl_Base ?r = 0x9010000" "pl_control ?r = 1" by (simp_all add: NewPL031_def Let_def pl031CRStart_def)
  obtain r1 where w: "Some r1 = PL031_Write \<lparr>unix = 0, mono = 0\<rparr> (pl_Base ?r + pl031LR) 4 0xffffffff (Some ?r)"
    by (simp add: Let_def)
  show ?thesis
    using PL031_counts [OF w, of "\<lparr>unix = 0, mono = 3500000000\<rparr>"] w
    by (simp add: b pl031LR_def pl031DR_def pl031CRStart_def)
qed

end
