(* ===== verification/Tcp.thy ===== *)
theory Tcp
  imports Prelude "HOL-Library.Signed_Division" "HOL-Library.Multiset"
begin

text \<open>
  The TCP support of the user space network stack (\<^verbatim>\<open>internal/netstack/tcp.go\<close>): option
  parsing, the retransmission queue, out of order reassembly, the retransmission timer and
  congestion control. The lemmas show for which option lists the parser returns and that it
  reads what the stack writes, that acknowledgements release a prefix of the sent stream,
  that reassembly delivers the received stream in order, that the timer stays within its
  bounds and that congestion control never divides by zero.

  Times are nanoseconds of the host clock, an argument of the operations that read it. A
  \<^verbatim>\<open>time.Duration\<close> is an \<^verbatim>\<open>int64\<close>: \<open>wrap64\<close> is its overflow. Releasing a payload returns its
  buffer to a pool of the process and has no effect on the structures of this theory.
\<close>

section \<open>Options\<close>

definition tcpOptEnd :: u8 where "tcpOptEnd = 0"
definition tcpOptNOP :: u8 where "tcpOptNOP = 1"
definition tcpOptMSS :: u8 where "tcpOptMSS = 2"
definition tcpOptWndScale :: u8 where "tcpOptWndScale = 3"

lemmas tcp_kinds = tcpOptEnd_def tcpOptNOP_def tcpOptMSS_def tcpOptWndScale_def

record tcpOptions =
  opt_mss :: u16
  opt_wndScale :: u8
  hasMSS :: bool
  hasWndScale :: bool

definition no_options :: tcpOptions where
  "no_options = \<lparr>opt_mss = 0, opt_wndScale = 0, hasMSS = False, hasWndScale = False\<rparr>"

text \<open>
  The body of the loop at index \<open>i\<close>: the options so far with the next index, or with
  \<open>None\<close> where the body returns.
\<close>

definition option_step :: "bytes \<Rightarrow> nat \<Rightarrow> tcpOptions \<Rightarrow> nat option \<times> tcpOptions" where
  "option_step options i opts =
     (let kind = options ! i
      in if kind = tcpOptEnd then (None, opts)
         else if kind = tcpOptNOP then (Some (i + 1), opts)
         else if kind = tcpOptMSS then
           let opts1 = (if i + 4 \<le> length options \<and> options ! (i + 1) = 4
                        then opts\<lparr>opt_mss := be16 (slice options (i + 2) (i + 4)), hasMSS := True\<rparr> else opts)
           in (if i + 1 < length options then (Some (i + unat (options ! (i + 1))), opts1) else (None, opts1))
         else if kind = tcpOptWndScale then
           let opts1 = (if i + 3 \<le> length options \<and> options ! (i + 1) = 3
                        then opts\<lparr>opt_wndScale := options ! (i + 2), hasWndScale := True\<rparr> else opts)
           in (if i + 1 < length options then (Some (i + unat (options ! (i + 1))), opts1) else (None, opts1))
         else if length options \<le> i + 1 then (None, opts)
         else if unat (options ! (i + 1)) < 2 then (None, opts)
         else (Some (i + unat (options ! (i + 1))), opts))"

text \<open>The loop itself may not end: its value is \<open>None\<close> then.\<close>

partial_function (option) parse_options_from :: "bytes \<Rightarrow> nat \<Rightarrow> tcpOptions \<Rightarrow> tcpOptions option" where
  [code]: "parse_options_from options i opts =
     (if length options \<le> i then Some opts
      else case option_step options i opts of
        (None, opts1) \<Rightarrow> Some opts1
      | (Some j, opts1) \<Rightarrow> parse_options_from options j opts1)"

definition parseTCPOptions :: "bytes \<Rightarrow> tcpOptions option" where
  "parseTCPOptions options = parse_options_from options 0 no_options"

definition buildSynAckOptions :: "u16 \<Rightarrow> u8 \<Rightarrow> bool \<Rightarrow> bytes" where
  "buildSynAckOptions mss wndScale peerHasWndScale =
     (if peerHasWndScale then
        [tcpOptMSS, 4] @ put_be16 mss @ [tcpOptNOP, tcpOptWndScale, 3, wndScale]
      else [tcpOptMSS, 4] @ put_be16 mss)"

section \<open>Sequence numbers\<close>

definition seqLT :: "u32 \<Rightarrow> u32 \<Rightarrow> bool" where "seqLT a b \<longleftrightarrow> sint (a - b) < 0"
definition seqLTE :: "u32 \<Rightarrow> u32 \<Rightarrow> bool" where "seqLTE a b \<longleftrightarrow> sint (a - b) \<le> 0"
definition seqGT :: "u32 \<Rightarrow> u32 \<Rightarrow> bool" where "seqGT a b \<longleftrightarrow> sint (a - b) > 0"

definition seqOverlap :: "u32 \<Rightarrow> u32 \<Rightarrow> u32 \<Rightarrow> u32 \<Rightarrow> bool" where
  "seqOverlap aStart aEnd bStart bEnd \<longleftrightarrow> seqLT aStart bEnd \<and> seqLT bStart aEnd"

section \<open>The retransmission queue\<close>

record tcpSendSegment =
  s_seqStart :: u32
  s_seqEnd :: u32
  s_payload :: bytes
  s_sentAt :: int
  s_retxCount :: int

record tcpSendBuffer =
  sb_segments :: "tcpSendSegment list"
  sb_capacity :: int
  sb_used :: int

definition newTCPSendBuffer :: "int \<Rightarrow> tcpSendBuffer" where
  "newTCPSendBuffer capacity = \<lparr>sb_segments = [], sb_capacity = capacity, sb_used = 0\<rparr>"

definition SendBuffer_append :: "tcpSendSegment \<Rightarrow> tcpSendBuffer \<Rightarrow> bool \<times> tcpSendBuffer" where
  "SendBuffer_append seg sb =
     (let payloadLen = int (length (s_payload seg))
      in if sb_used sb + payloadLen > sb_capacity sb then (False, sb)
         else (True, sb\<lparr>sb_segments := sb_segments sb @ [seg], sb_used := sb_used sb + payloadLen\<rparr>))"

text \<open>The loop of \<^verbatim>\<open>ack\<close>, with the bytes acknowledged, the bytes in use and the round trip sample.\<close>

fun ack_loop :: "int \<Rightarrow> u32 \<Rightarrow> tcpSendSegment list \<Rightarrow> int \<times> int \<times> int option \<Rightarrow> tcpSendSegment list \<Rightarrow>
    (int \<times> int \<times> int option) \<times> tcpSendSegment list" where
  "ack_loop now ackNum [] (bytesAcked, used, rtt) newSegs = ((bytesAcked, used, rtt), newSegs)"
| "ack_loop now ackNum (seg # segs) (bytesAcked, used, rtt) newSegs =
     (if seqLTE (s_seqEnd seg) ackNum then
        ack_loop now ackNum segs
          (bytesAcked + int (length (s_payload seg)), used - int (length (s_payload seg)),
           if s_retxCount seg = 0 \<and> rtt = None then Some (now - s_sentAt seg) else rtt) newSegs
      else ack_loop now ackNum segs (bytesAcked, used, rtt) (newSegs @ [seg]))"

definition SendBuffer_ack :: "int \<Rightarrow> u32 \<Rightarrow> tcpSendBuffer \<Rightarrow> (int \<times> int option) \<times> tcpSendBuffer" where
  "SendBuffer_ack now ackNum sb =
     (case ack_loop now ackNum (sb_segments sb) (0, sb_used sb, None) [] of
        ((bytesAcked, used, rtt), newSegs) \<Rightarrow> ((bytesAcked, rtt), sb\<lparr>sb_segments := newSegs, sb_used := used\<rparr>))"

definition SendBuffer_oldest :: "tcpSendBuffer \<Rightarrow> tcpSendSegment option" where
  "SendBuffer_oldest sb = (case sb_segments sb of [] \<Rightarrow> None | seg # _ \<Rightarrow> Some seg)"

fun markRetransmittedN_loop :: "int \<Rightarrow> int \<Rightarrow> tcpSendSegment list \<Rightarrow> tcpSendSegment list" where
  "markRetransmittedN_loop now n [] = []"
| "markRetransmittedN_loop now n (seg # segs) =
     (if 0 < n then seg\<lparr>s_retxCount := s_retxCount seg + 1, s_sentAt := now\<rparr> # markRetransmittedN_loop now (n - 1) segs
      else seg # segs)"

definition markRetransmittedN :: "int \<Rightarrow> int \<Rightarrow> tcpSendBuffer \<Rightarrow> tcpSendBuffer" where
  "markRetransmittedN now n sb = sb\<lparr>sb_segments := markRetransmittedN_loop now n (sb_segments sb)\<rparr>"

definition oldestCoalesced :: "int \<Rightarrow> tcpSendBuffer \<Rightarrow> (tcpSendSegment \<times> int) option" where
  "oldestCoalesced maxSize sb = (case sb_segments sb of [] \<Rightarrow> None | seg # _ \<Rightarrow> Some (seg, 1))"

definition SendBuffer_len :: "tcpSendBuffer \<Rightarrow> int" where
  "SendBuffer_len sb = int (length (sb_segments sb))"

definition inFlight :: "tcpSendBuffer \<Rightarrow> int" where
  "inFlight sb = sb_used sb"

definition SendBuffer_clear :: "tcpSendBuffer \<Rightarrow> tcpSendBuffer" where
  "SendBuffer_clear sb = sb\<lparr>sb_segments := [], sb_used := 0\<rparr>"

section \<open>Reassembly\<close>

record tcpOOOSegment =
  o_seqStart :: u32
  o_seqEnd :: u32
  o_payload :: bytes

record tcpRecvBuffer =
  rb_segments :: "tcpOOOSegment list"
  rb_maxGaps :: int

definition newTCPRecvBuffer :: "int \<Rightarrow> tcpRecvBuffer" where
  "newTCPRecvBuffer maxGaps = \<lparr>rb_segments = [], rb_maxGaps = maxGaps\<rparr>"

text \<open>The search of \<^verbatim>\<open>insert\<close>: \<open>None\<close> for an overlap, otherwise the insertion index.\<close>

fun insert_search :: "tcpOOOSegment \<Rightarrow> nat \<Rightarrow> nat \<Rightarrow> nat \<Rightarrow> tcpOOOSegment list \<Rightarrow> nat option" where
  "insert_search seg len i insertIdx [] = Some insertIdx"
| "insert_search seg len i insertIdx (existing # rest) =
     (if seqOverlap (o_seqStart seg) (o_seqEnd seg) (o_seqStart existing) (o_seqEnd existing) then None
      else insert_search seg len (i + 1)
        (if seqLT (o_seqStart seg) (o_seqStart existing) \<and> insertIdx = len then i else insertIdx) rest)"

definition RecvBuffer_insert :: "tcpOOOSegment \<Rightarrow> tcpRecvBuffer \<Rightarrow> bool \<times> tcpRecvBuffer" where
  "RecvBuffer_insert seg rb =
     (let segs = rb_segments rb
      in case insert_search seg (length segs) 0 (length segs) segs of
           None \<Rightarrow> (False, rb)
         | Some insertIdx \<Rightarrow>
             if rb_maxGaps rb \<le> int (length segs) then (False, rb)
             else (True, rb\<lparr>rb_segments := take insertIdx segs @ seg # drop insertIdx segs\<rparr>))"

text \<open>One pass of \<^verbatim>\<open>collectContiguous\<close> over the buffered segments.\<close>

fun collect_pass :: "u32 \<Rightarrow> tcpOOOSegment list \<Rightarrow> bytes list \<times> u32 \<times> tcpOOOSegment list" where
  "collect_pass nextSeq [] = ([], nextSeq, [])"
| "collect_pass nextSeq (seg # segs) =
     (if o_seqStart seg = nextSeq then
        (case collect_pass (o_seqEnd seg) segs of (col, n, new) \<Rightarrow> (o_payload seg # col, n, new))
      else (case collect_pass nextSeq segs of (col, n, new) \<Rightarrow> (col, n, seg # new)))"

lemma collect_pass_length:
  "collect_pass nextSeq segs = (col, n, new) \<Longrightarrow> length col + length new = length segs"
  by (induction segs arbitrary: nextSeq col n new) (auto split: if_splits prod.splits)

lemma collect_pass_shrinks:
  "collect_pass nextSeq segs = (col, n, new) \<Longrightarrow> col \<noteq> [] \<Longrightarrow> length new < length segs"
  using collect_pass_length [of nextSeq segs col n new] by (cases col) simp_all

function collect_loop :: "u32 \<Rightarrow> tcpOOOSegment list \<Rightarrow> bytes list \<times> u32 \<times> tcpOOOSegment list" where
  "collect_loop nextSeq segs =
     (case collect_pass nextSeq segs of
        (col, n, new) \<Rightarrow>
          if col = [] then ([], n, new)
          else (case collect_loop n new of (col1, n1, new1) \<Rightarrow> (col @ col1, n1, new1)))"
  by pat_completeness auto
termination
  by (relation "measure (\<lambda>(_, segs). length segs)") (auto dest: collect_pass_shrinks [OF sym])

declare collect_loop.simps [simp del]

definition collectContiguous :: "u32 \<Rightarrow> tcpRecvBuffer \<Rightarrow> bytes list \<times> u32 \<times> tcpRecvBuffer" where
  "collectContiguous nextSeq rb =
     (case collect_loop nextSeq (rb_segments rb) of (col, n, new) \<Rightarrow> (col, n, rb\<lparr>rb_segments := new\<rparr>))"

definition RecvBuffer_len :: "tcpRecvBuffer \<Rightarrow> int" where
  "RecvBuffer_len rb = int (length (rb_segments rb))"

definition RecvBuffer_clear :: "tcpRecvBuffer \<Rightarrow> tcpRecvBuffer" where
  "RecvBuffer_clear rb = rb\<lparr>rb_segments := []\<rparr>"

section \<open>The retransmission timer\<close>

definition wrap64 :: "int \<Rightarrow> int" where
  "wrap64 k = signed_take_bit 63 k"

definition minRTO :: int where "minRTO = 50 * 1000000"
definition maxRTO :: int where "maxRTO = 60 * 1000000000"
definition initialRTO :: int where "initialRTO = 500 * 1000000"
definition maxBackoffCount :: int where "maxBackoffCount = 5"

record tcpRTTEstimator =
  srtt :: int
  rttVar :: int
  rto :: int
  hasInitial :: bool
  backoffCount :: int

definition newTCPRTTEstimator :: tcpRTTEstimator where
  "newTCPRTTEstimator = \<lparr>srtt = 0, rttVar = 0, rto = initialRTO, hasInitial = False, backoffCount = 0\<rparr>"

definition RTT_update :: "int \<Rightarrow> tcpRTTEstimator \<Rightarrow> tcpRTTEstimator" where
  "RTT_update rtt r =
     (let r1 = (if \<not> hasInitial r then r\<lparr>srtt := rtt, rttVar := rtt sdiv 2, hasInitial := True\<rparr>
                else
                  let delta = wrap64 (srtt r - rtt);
                      delta1 = (if delta < 0 then wrap64 (- delta) else delta)
                  in r\<lparr>rttVar := wrap64 (wrap64 (3 * rttVar r) + delta1) sdiv 4,
                      srtt := wrap64 (wrap64 (7 * srtt r) + rtt) sdiv 8\<rparr>);
          r2 = r1\<lparr>rto := wrap64 (srtt r1 + wrap64 (4 * rttVar r1))\<rparr>;
          r3 = (if rto r2 < minRTO then r2\<lparr>rto := minRTO\<rparr> else r2)
      in if maxRTO < rto r3 then r3\<lparr>rto := maxRTO\<rparr> else r3)"

definition RTT_backoff :: "tcpRTTEstimator \<Rightarrow> tcpRTTEstimator" where
  "RTT_backoff r =
     (let r1 = (if backoffCount r < maxBackoffCount
                then r\<lparr>rto := wrap64 (rto r * 3) sdiv 2, backoffCount := backoffCount r + 1\<rparr> else r)
      in if maxRTO < rto r1 then r1\<lparr>rto := maxRTO\<rparr> else r1)"

definition resetBackoff :: "tcpRTTEstimator \<Rightarrow> tcpRTTEstimator" where
  "resetBackoff r = r\<lparr>backoffCount := 0\<rparr>"

definition getRTO :: "tcpRTTEstimator \<Rightarrow> int" where
  "getRTO r = rto r"

section \<open>Congestion control\<close>

record tcpCongestionControl =
  cwnd :: u32
  ssthresh :: u32
  cc_mss :: u16
  dupAcks :: int

definition initialCwndSegments :: u32 where "initialCwndSegments = 10"
definition fastRetransmitThreshold :: int where "fastRetransmitThreshold = 3"

definition newTCPCongestionControl :: "u16 \<Rightarrow> tcpCongestionControl" where
  "newTCPCongestionControl mss =
     \<lparr>cwnd = initialCwndSegments * ucast mss, ssthresh = NOT 0, cc_mss = mss, dupAcks = 0\<rparr>"

definition onAck :: "int \<Rightarrow> tcpCongestionControl \<Rightarrow> error + tcpCongestionControl" where
  "onAck bytesAcked cc =
     (let cc1 = cc\<lparr>dupAcks := 0\<rparr>; mss = ucast (cc_mss cc) :: u32
      in if cwnd cc1 < ssthresh cc1 then Inr (cc1\<lparr>cwnd := cwnd cc1 + word_of_int bytesAcked\<rparr>)
         else if cwnd cc1 = 0 then Inl Panic
         else
           let increment = (mss * mss) div cwnd cc1;
               increment1 = (if increment < 1 then 1 else increment)
           in Inr (cc1\<lparr>cwnd := cwnd cc1 + increment1\<rparr>))"

definition halve_ssthresh :: "tcpCongestionControl \<Rightarrow> tcpCongestionControl" where
  "halve_ssthresh cc =
     (let cc1 = cc\<lparr>ssthresh := cwnd cc div 2\<rparr>
      in if ssthresh cc1 < 2 * ucast (cc_mss cc1) then cc1\<lparr>ssthresh := 2 * ucast (cc_mss cc1)\<rparr> else cc1)"

definition onDupAck :: "tcpCongestionControl \<Rightarrow> bool \<times> tcpCongestionControl" where
  "onDupAck cc =
     (let cc1 = cc\<lparr>dupAcks := dupAcks cc + 1\<rparr>
      in if dupAcks cc1 = fastRetransmitThreshold then
           let cc2 = halve_ssthresh cc1
           in (True, cc2\<lparr>cwnd := ssthresh cc2 + word_of_int fastRetransmitThreshold * ucast (cc_mss cc2)\<rparr>)
         else if fastRetransmitThreshold < dupAcks cc1 then (False, cc1\<lparr>cwnd := cwnd cc1 + ucast (cc_mss cc1)\<rparr>)
         else (False, cc1))"

definition onTimeout :: "tcpCongestionControl \<Rightarrow> tcpCongestionControl" where
  "onTimeout cc = (let cc1 = halve_ssthresh cc in cc1\<lparr>cwnd := ucast (cc_mss cc1), dupAcks := 0\<rparr>)"

definition getCwnd :: "tcpCongestionControl \<Rightarrow> u32" where
  "getCwnd cc = cwnd cc"

section \<open>When option parsing returns\<close>

text \<open>The indices the loop visits.\<close>

inductive at_option :: "bytes \<Rightarrow> nat \<Rightarrow> bool" for options where
  at_start: "at_option options 0"
| at_next: "at_option options i \<Longrightarrow> i < length options \<Longrightarrow> option_step options i opts = (Some j, opts1) \<Longrightarrow>
    at_option options j"

text \<open>A segment size or window scale option whose length byte is zero.\<close>

definition zero_length_option :: "bytes \<Rightarrow> nat \<Rightarrow> bool" where
  "zero_length_option options i \<longleftrightarrow> i + 1 < length options \<and>
     (options ! i = tcpOptMSS \<or> options ! i = tcpOptWndScale) \<and> options ! (i + 1) = 0"

lemma option_step_index: "fst (option_step options i opts) = fst (option_step options i opts')"
  by (simp add: option_step_def Let_def)

lemma option_step_zero:
  "zero_length_option options i \<Longrightarrow> fst (option_step options i opts) = Some i"
  by (auto simp: zero_length_option_def option_step_def Let_def tcp_kinds)

lemma option_step_advances:
  assumes "option_step options i opts = (Some j, opts1)" and "\<not> zero_length_option options i"
  shows "i < j"
proof -
  have "b \<noteq> 0 \<Longrightarrow> i < i + unat b" for b :: u8 by (simp add: unat_gt_0)
  then show ?thesis using assms
    by (auto simp: option_step_def zero_length_option_def Let_def split: if_splits)
qed

lemma parse_options_from_zero:
  assumes "parse_options_from options i opts = Some r"
  shows "\<not> zero_length_option options i"
  using _ assms
proof (rule parse_options_from.raw_induct [where P = "\<lambda>options i opts r. \<not> zero_length_option options i"])
  fix f options i opts r
  assume IH: "\<And>options i opts r. f options i opts = Some r \<Longrightarrow> \<not> zero_length_option options i"
    and body: "(if length options \<le> i then Some opts
      else case option_step options i opts of
        (None, opts1) \<Rightarrow> Some opts1 | (Some j, opts1) \<Rightarrow> f options j opts1) = Some (r :: tcpOptions)"
  show "\<not> zero_length_option options i"
  proof
    assume z: "zero_length_option options i"
    then have "i < length options" by (simp add: zero_length_option_def)
    moreover obtain opts1 where "option_step options i opts = (Some i, opts1)"
      using option_step_zero [OF z, of opts] by (cases "option_step options i opts") auto
    ultimately have "f options i opts1 = Some r" using body by simp
    from IH [OF this] z show False by blast
  qed
qed

lemma parse_options_reached:
  assumes "at_option options i" and "parseTCPOptions options = Some r"
  shows "\<exists>opts. parse_options_from options i opts = Some r"
  using assms(1)
proof induction
  case at_start
  then show ?case using assms(2) by (auto simp: parseTCPOptions_def)
next
  case (at_next i opts j opts1)
  then obtain opts' where "parse_options_from options i opts' = Some r" by blast
  moreover obtain opts1' where "option_step options i opts' = (Some j, opts1')"
    using option_step_index [of options i opts' opts] at_next.hyps(3)
    by (cases "option_step options i opts'") auto
  ultimately show ?case using at_next.hyps(2) by (subst (asm) parse_options_from.simps) auto
qed

lemma parse_options_total:
  assumes "\<forall>i. at_option options i \<longrightarrow> \<not> zero_length_option options i" and "at_option options i"
  shows "\<exists>r. parse_options_from options i opts = Some r"
  using assms(2)
proof (induction "length options - i" arbitrary: i opts rule: less_induct)
  case less
  show ?case
  proof (cases "i < length options")
    case True
    obtain n opts1 where st: "option_step options i opts = (n, opts1)" by (rule prod.exhaust)
    show ?thesis
    proof (cases n)
      case None
      with True st show ?thesis by (subst parse_options_from.simps) simp
    next
      case (Some j)
      have "i < j" using option_step_advances st Some assms(1) less.prems by blast
      moreover have "at_option options j" using at_next less.prems True st Some by blast
      ultimately have "\<exists>r. parse_options_from options j opts1 = Some r"
        using less.hyps [of j] True by simp
      with True st Some show ?thesis by (subst parse_options_from.simps) simp
    qed
  qed (subst parse_options_from.simps, simp)
qed

text \<open>
  C7 (termination). Parsing the options of a segment returns exactly when the loop reaches
  no segment size or window scale option whose length byte is zero. On such an option the
  index does not move and the loop never ends; the length check that other options get is
  missing for these two.
\<close>

theorem parseTCPOptions_returns:
  "(\<exists>r. parseTCPOptions options = Some r) \<longleftrightarrow> (\<forall>i. at_option options i \<longrightarrow> \<not> zero_length_option options i)"
proof
  assume "\<exists>r. parseTCPOptions options = Some r"
  then show "\<forall>i. at_option options i \<longrightarrow> \<not> zero_length_option options i"
    using parse_options_reached parse_options_from_zero by blast
next
  assume "\<forall>i. at_option options i \<longrightarrow> \<not> zero_length_option options i"
  then show "\<exists>r. parseTCPOptions options = Some r"
    unfolding parseTCPOptions_def by (rule parse_options_total) (rule at_start)
qed

theorem parseTCPOptions_returns_witness: "parseTCPOptions [2, 0, 5, 180] = None"
proof -
  have "at_option [2, 0, 5, 180] 0" by (rule at_start)
  moreover have "zero_length_option [2, 0, 5, 180] 0" by (simp add: zero_length_option_def tcp_kinds)
  ultimately have "\<not> (\<exists>r. parseTCPOptions [2, 0, 5, 180] = Some r)"
    unfolding parseTCPOptions_returns by blast
  then show ?thesis by simp
qed

text \<open>
  The parser reads back the segment size and the window scale the stack
  writes into a SYN-ACK.
\<close>

lemma parse_buildSynAckOptions:
  "parseTCPOptions (buildSynAckOptions mss ws b) =
     Some \<lparr>opt_mss = mss, opt_wndScale = if b then ws else 0, hasMSS = True, hasWndScale = b\<rparr>"
proof -
  have "length (put_be16 mss) = Suc (Suc 0)" by (simp only: length_put numeral_2_eq_2)
  then obtain h l where hl: "put_be16 mss = [h, l]" by (auto simp only: length_Suc_conv length_0_conv)
  have m: "be16 [h, l] = mss" unfolding hl [symmetric] by simp
  show ?thesis
    unfolding parseTCPOptions_def buildSynAckOptions_def hl
    by (cases b; (subst parse_options_from.simps, simp add: option_step_def tcp_kinds slice_def no_options_def m)+)
qed

section \<open>Sequence numbers in a window\<close>

text \<open>
  Sequence numbers are positions of a byte stream counted from a number \<open>s\<close>, modulo 32
  bits. Positions less than \<open>2 ^ 31\<close> apart compare as the positions do.
\<close>

lemma seq_diff:
  assumes "\<bar>int a - int b\<bar> < 2 ^ 31"
  shows "sint ((s + of_nat a) - (s + of_nat b) :: u32) = int a - int b"
proof -
  have "(s + of_nat a) - (s + of_nat b) = (word_of_int (int a - int b) :: u32)" by simp
  moreover have "signed_take_bit 31 (int a - int b) = int a - int b"
    using assms by (intro signed_take_bit_int_eq_self) auto
  ultimately show ?thesis by (simp only: signed_of_int) simp
qed

lemma seqLTE_iff: "\<bar>int a - int b\<bar> < 2 ^ 31 \<Longrightarrow> seqLTE (s + of_nat a) (s + of_nat b) \<longleftrightarrow> a \<le> b"
  unfolding seqLTE_def by (subst seq_diff) auto

lemma seqLT_iff: "\<bar>int a - int b\<bar> < 2 ^ 31 \<Longrightarrow> seqLT (s + of_nat a) (s + of_nat b) \<longleftrightarrow> a < b"
  unfolding seqLT_def by (subst seq_diff) auto

lemma seqGT_iff: "\<bar>int a - int b\<bar> < 2 ^ 31 \<Longrightarrow> seqGT (s + of_nat a) (s + of_nat b) \<longleftrightarrow> b < a"
  unfolding seqGT_def by (subst seq_diff) auto

section \<open>Acknowledgement\<close>

definition payload_bytes :: "tcpSendSegment list \<Rightarrow> nat" where
  "payload_bytes segs = sum_list (map (\<lambda>seg. length (s_payload seg)) segs)"

lemma payload_bytes_simps [simp]:
  "payload_bytes [] = 0" "payload_bytes (seg # segs) = length (s_payload seg) + payload_bytes segs"
  "payload_bytes (segs @ segs') = payload_bytes segs + payload_bytes segs'"
  by (simp_all add: payload_bytes_def)

text \<open>The queue holds the stream from position \<open>pos\<close> on, without gaps.\<close>

fun in_sequence :: "u32 \<Rightarrow> nat \<Rightarrow> tcpSendSegment list \<Rightarrow> bool" where
  "in_sequence s pos [] = True"
| "in_sequence s pos (seg # segs) =
     (s_seqStart seg = s + of_nat pos \<and> s_seqEnd seg = s + of_nat (pos + length (s_payload seg)) \<and>
      in_sequence s (pos + length (s_payload seg)) segs)"

text \<open>The round trip sample: of the first segment that was never retransmitted.\<close>

definition first_sample :: "int \<Rightarrow> tcpSendSegment list \<Rightarrow> int option" where
  "first_sample now segs = (case filter (\<lambda>seg. s_retxCount seg = 0) segs of [] \<Rightarrow> None | seg # _ \<Rightarrow> Some (now - s_sentAt seg))"

lemma ack_loop_filter:
  "ack_loop now a segs (b, u, r) new =
     ((b + int (payload_bytes (filter (\<lambda>seg. seqLTE (s_seqEnd seg) a) segs)),
       u - int (payload_bytes (filter (\<lambda>seg. seqLTE (s_seqEnd seg) a) segs)),
       if r = None then first_sample now (filter (\<lambda>seg. seqLTE (s_seqEnd seg) a) segs) else r),
      new @ filter (\<lambda>seg. \<not> seqLTE (s_seqEnd seg) a) segs)"
  by (induction now a segs "(b, u, r)" new arbitrary: b u r rule: ack_loop.induct)
    (auto simp: first_sample_def split: option.splits)

lemma none_acked:
  assumes "in_sequence s pos segs" and "a < pos" and "pos + payload_bytes segs < a + 2 ^ 31"
  shows "filter (\<lambda>seg. seqLTE (s_seqEnd seg) (s + of_nat a)) segs = [] \<and>
    filter (\<lambda>seg. \<not> seqLTE (s_seqEnd seg) (s + of_nat a)) segs = segs"
  using assms
proof (induction segs arbitrary: pos)
  case (Cons seg segs)
  let ?e = "pos + length (s_payload seg)"
  have "\<bar>int ?e - int a\<bar> < 2 ^ 31" using Cons.prems(2,3) by auto
  then have "\<not> seqLTE (s_seqEnd seg) (s + of_nat a)"
    using Cons.prems(1,2) seqLTE_iff [of ?e a s] by simp
  then show ?case using Cons.IH [of ?e] Cons.prems by simp
qed simp

lemma acked_prefix:
  assumes "in_sequence s pos segs" and "pos \<le> a" and "pos + payload_bytes segs < pos + 2 ^ 31" and "a < pos + 2 ^ 31"
  shows "\<exists>acked rest. segs = acked @ rest \<and> filter (\<lambda>seg. seqLTE (s_seqEnd seg) (s + of_nat a)) segs = acked \<and>
    filter (\<lambda>seg. \<not> seqLTE (s_seqEnd seg) (s + of_nat a)) segs = rest \<and>
    pos + payload_bytes acked \<le> a \<and> in_sequence s (pos + payload_bytes acked) rest \<and>
    (rest \<noteq> [] \<longrightarrow> a < pos + payload_bytes acked + length (s_payload (hd rest)))"
  using assms
proof (induction segs arbitrary: pos)
  case (Cons seg segs)
  let ?e = "pos + length (s_payload seg)"
  have "\<bar>int ?e - int a\<bar> < 2 ^ 31" using Cons.prems(2-4) by auto
  then have le: "seqLTE (s_seqEnd seg) (s + of_nat a) \<longleftrightarrow> ?e \<le> a"
    using Cons.prems(1) seqLTE_iff [of ?e a s] by simp
  show ?case
  proof (cases "?e \<le> a")
    case True
    have "in_sequence s ?e segs" "?e + payload_bytes segs < ?e + 2 ^ 31" "a < ?e + 2 ^ 31"
      using Cons.prems by auto
    from Cons.IH [OF this(1) True this(2,3)] obtain acked rest where
      "segs = acked @ rest" "filter (\<lambda>seg. seqLTE (s_seqEnd seg) (s + of_nat a)) segs = acked"
      "filter (\<lambda>seg. \<not> seqLTE (s_seqEnd seg) (s + of_nat a)) segs = rest"
      "?e + payload_bytes acked \<le> a" "in_sequence s (?e + payload_bytes acked) rest"
      "rest \<noteq> [] \<longrightarrow> a < ?e + payload_bytes acked + length (s_payload (hd rest))" by blast
    with True le show ?thesis by (intro exI [of _ "seg # acked"] exI [of _ rest]) (simp add: add.assoc)
  next
    case False
    then have "filter (\<lambda>seg. seqLTE (s_seqEnd seg) (s + of_nat a)) segs = [] \<and>
        filter (\<lambda>seg. \<not> seqLTE (s_seqEnd seg) (s + of_nat a)) segs = segs"
      using Cons.prems by (intro none_acked [of s ?e]) auto
    with False le Cons.prems show ?thesis by (intro exI [of _ "[]"] exI [of _ "seg # segs"]) simp
  qed
qed simp

text \<open>
  C12 (functional). Acknowledging position \<open>a\<close> of the sent stream releases exactly the
  segments that end at or before it: they are a prefix of the queue, the byte count returned
  is theirs, the queue goes on without a gap with the first segment that reaches past \<open>a\<close>,
  and the round trip sample is that of a segment that was never retransmitted. Sequence
  numbers may wrap around on the way.
\<close>

theorem SendBuffer_ack_releases:
  assumes "in_sequence s pos (sb_segments sb)" and "pos \<le> a" and "a \<le> pos + payload_bytes (sb_segments sb)"
    and "payload_bytes (sb_segments sb) < 2 ^ 31" and "sb_used sb = int (payload_bytes (sb_segments sb))"
  shows "\<exists>acked rest. sb_segments sb = acked @ rest \<and>
    SendBuffer_ack now (s + of_nat a) sb =
      ((int (payload_bytes acked), first_sample now acked),
       sb\<lparr>sb_segments := rest, sb_used := int (payload_bytes rest)\<rparr>) \<and>
    pos + payload_bytes acked \<le> a \<and> in_sequence s (pos + payload_bytes acked) rest \<and>
    (rest \<noteq> [] \<longrightarrow> a < pos + payload_bytes acked + length (s_payload (hd rest)))"
proof -
  have b: "pos + payload_bytes (sb_segments sb) < pos + 2 ^ 31" "a < pos + 2 ^ 31" using assms(3,4) by simp_all
  obtain acked rest where *: "sb_segments sb = acked @ rest"
      "filter (\<lambda>seg. seqLTE (s_seqEnd seg) (s + of_nat a)) (sb_segments sb) = acked"
      "filter (\<lambda>seg. \<not> seqLTE (s_seqEnd seg) (s + of_nat a)) (sb_segments sb) = rest"
      "pos + payload_bytes acked \<le> a" "in_sequence s (pos + payload_bytes acked) rest"
      "rest \<noteq> [] \<longrightarrow> a < pos + payload_bytes acked + length (s_payload (hd rest))"
    using acked_prefix [OF assms(1,2) b] by blast
  have "sb_used sb - int (payload_bytes acked) = int (payload_bytes rest)" using assms(5) *(1) by simp
  then have "SendBuffer_ack now (s + of_nat a) sb =
      ((int (payload_bytes acked), first_sample now acked), sb\<lparr>sb_segments := rest, sb_used := int (payload_bytes rest)\<rparr>)"
    by (simp add: SendBuffer_ack_def ack_loop_filter *(2,3))
  with *(1,4-6) show ?thesis by blast
qed

theorem SendBuffer_ack_releases_witness:
  "SendBuffer_ack 9 2 \<lparr>sb_segments =
      [\<lparr>s_seqStart = 0xfffffffe, s_seqEnd = 1, s_payload = [7, 8, 9], s_sentAt = 5, s_retxCount = 0\<rparr>,
       \<lparr>s_seqStart = 1, s_seqEnd = 3, s_payload = [1, 2], s_sentAt = 6, s_retxCount = 0\<rparr>],
      sb_capacity = 10, sb_used = 5\<rparr> =
    ((3, Some 4), \<lparr>sb_segments =
      [\<lparr>s_seqStart = 1, s_seqEnd = 3, s_payload = [1, 2], s_sentAt = 6, s_retxCount = 0\<rparr>], sb_capacity = 10, sb_used = 2\<rparr>)"
  (is "SendBuffer_ack 9 2 \<lparr>sb_segments = [?x, ?y], sb_capacity = 10, sb_used = 5\<rparr> = _")
proof -
  let ?sb = "\<lparr>sb_segments = [?x, ?y], sb_capacity = 10, sb_used = 5\<rparr>"
  have "in_sequence 0xfffffffe 0 (sb_segments ?sb)" by simp
  moreover have e: "(0xfffffffe :: u32) + of_nat 4 = 2" by simp
  ultimately obtain acked rest where
    r: "[?x, ?y] = acked @ rest" "SendBuffer_ack 9 2 ?sb =
      ((int (payload_bytes acked), first_sample 9 acked), ?sb\<lparr>sb_segments := rest, sb_used := int (payload_bytes rest)\<rparr>)"
      "payload_bytes acked \<le> 4" "rest \<noteq> [] \<longrightarrow> 4 < payload_bytes acked + length (s_payload (hd rest))"
    using SendBuffer_ack_releases [of "0xfffffffe" 0 ?sb 4 9, unfolded e] by auto
  then have "acked = [?x] \<and> rest = [?y]" by (auto simp: Cons_eq_append_conv)
  with r(2) show ?thesis by (simp add: first_sample_def)
qed

section \<open>The use of the retransmission queue\<close>

datatype send_event = SendAppend tcpSendSegment | SendAck int u32 | SendMark int int | SendClear

fun send_step :: "send_event \<Rightarrow> tcpSendBuffer \<Rightarrow> tcpSendBuffer" where
  "send_step (SendAppend seg) sb = snd (SendBuffer_append seg sb)"
| "send_step (SendAck now a) sb = snd (SendBuffer_ack now a sb)"
| "send_step (SendMark now n) sb = markRetransmittedN now n sb"
| "send_step SendClear sb = SendBuffer_clear sb"

definition accounted :: "tcpSendBuffer \<Rightarrow> bool" where
  "accounted sb \<longleftrightarrow> sb_used sb = int (payload_bytes (sb_segments sb)) \<and> sb_used sb \<le> sb_capacity sb"

lemma payload_bytes_filter:
  "payload_bytes (filter P segs) + payload_bytes (filter (\<lambda>x. \<not> P x) segs) = payload_bytes segs"
  by (induction segs) auto

lemma payload_bytes_mark: "payload_bytes (markRetransmittedN_loop now n segs) = payload_bytes segs"
  by (induction now n segs rule: markRetransmittedN_loop.induct) auto

lemma send_step_accounted: "0 \<le> sb_capacity sb \<Longrightarrow> accounted sb \<Longrightarrow>
    accounted (send_step ev sb) \<and> sb_capacity (send_step ev sb) = sb_capacity sb"
proof (cases ev)
  case (SendAck now a)
  assume "accounted sb"
  then show ?thesis
    using payload_bytes_filter [of "\<lambda>seg. seqLTE (s_seqEnd seg) a" "sb_segments sb"]
    by (auto simp: SendAck accounted_def SendBuffer_ack_def ack_loop_filter)
qed (auto simp: accounted_def SendBuffer_append_def SendBuffer_clear_def markRetransmittedN_def payload_bytes_mark Let_def)

text \<open>
  C29 (invariant). Whatever is appended, acknowledged, retransmitted or cleared, the queue
  accounts for exactly the bytes it holds and never holds more than its capacity.
\<close>

theorem SendBuffer_accounts:
  assumes "0 \<le> capacity"
  shows "inFlight (fold send_step evs (newTCPSendBuffer capacity)) =
      int (payload_bytes (sb_segments (fold send_step evs (newTCPSendBuffer capacity)))) \<and>
    inFlight (fold send_step evs (newTCPSendBuffer capacity)) \<le> capacity"
proof -
  have "0 \<le> sb_capacity sb \<Longrightarrow> accounted sb \<Longrightarrow>
      accounted (fold send_step evs sb) \<and> sb_capacity (fold send_step evs sb) = sb_capacity sb" for sb
    by (induction evs arbitrary: sb) (use send_step_accounted in auto)
  from this [of "newTCPSendBuffer capacity"] assms show ?thesis
    by (simp add: accounted_def newTCPSendBuffer_def inFlight_def)
qed

theorem SendBuffer_accounts_witness:
  "inFlight (fold send_step [SendAppend \<lparr>s_seqStart = 0, s_seqEnd = 2, s_payload = [1, 2], s_sentAt = 0, s_retxCount = 0\<rparr>]
     (newTCPSendBuffer 4)) \<le> 4"
  by (rule conjunct2 [OF SendBuffer_accounts]) simp

section \<open>Reassembly delivers the stream\<close>

text \<open>
  A segment carries the bytes of the stream \<open>f\<close> from position \<open>pos\<close> on. Positions are
  counted from the sequence number \<open>s\<close> and stay below \<open>2 ^ 32\<close>.
\<close>

definition carries :: "(nat \<Rightarrow> u8) \<Rightarrow> u32 \<Rightarrow> tcpOOOSegment \<Rightarrow> nat \<Rightarrow> bool" where
  "carries f s seg pos \<longleftrightarrow> o_seqStart seg = s + of_nat pos \<and>
     o_seqEnd seg = s + of_nat (pos + length (o_payload seg)) \<and>
     o_payload seg = map f [pos..<pos + length (o_payload seg)] \<and> pos + length (o_payload seg) < 2 ^ 32"

definition stream_segment :: "(nat \<Rightarrow> u8) \<Rightarrow> u32 \<Rightarrow> tcpOOOSegment \<Rightarrow> bool" where
  "stream_segment f s seg \<longleftrightarrow> (\<exists>pos. carries f s seg pos)"

lemma of_nat_u32_inj: "a < 2 ^ 32 \<Longrightarrow> b < 2 ^ 32 \<Longrightarrow> (of_nat a :: u32) = of_nat b \<Longrightarrow> a = b"
  by (drule arg_cong [where f = unat]) (simp add: unat_of_nat take_bit_eq_mod)

lemma carries_next:
  assumes "stream_segment f s seg" and "o_seqStart seg = s + of_nat n" and "n < 2 ^ 32"
  shows "o_seqEnd seg = s + of_nat (n + length (o_payload seg)) \<and>
    o_payload seg = map f [n..<n + length (o_payload seg)] \<and> n + length (o_payload seg) < 2 ^ 32"
proof -
  obtain pos where pos: "carries f s seg pos" using assms(1) by (auto simp: stream_segment_def)
  then have "pos = n" using assms(2,3) by (intro of_nat_u32_inj) (auto simp: carries_def)
  with pos show ?thesis by (simp add: carries_def)
qed

lemma map_upt_append: "n \<le> m \<Longrightarrow> m \<le> k \<Longrightarrow> map f [n..<m] @ map f [m..<k] = map f [n..<k]"
  using upt_add_eq_append [of n m "k - m"] by (simp flip: map_append)

lemma collect_pass_stream:
  assumes "\<forall>seg\<in>set segs. stream_segment f s seg" and "n < 2 ^ 32"
    and "collect_pass (s + of_nat n) segs = (col, next1, new)"
  shows "\<exists>m\<ge>n. m < 2 ^ 32 \<and> next1 = s + of_nat m \<and> concat col = map f [n..<m] \<and> set new \<subseteq> set segs \<and>
    (col = [] \<longrightarrow> new = segs \<and> m = n \<and> (\<forall>seg\<in>set segs. o_seqStart seg \<noteq> s + of_nat n))"
  using assms
proof (induction segs arbitrary: n col next1 new)
  case (Cons seg segs)
  show ?case
  proof (cases "o_seqStart seg = s + of_nat n")
    case True
    let ?m = "n + length (o_payload seg)"
    have c: "o_seqEnd seg = s + of_nat ?m" "o_payload seg = map f [n..<?m]" "?m < 2 ^ 32"
      using carries_next [OF _ True Cons.prems(2)] Cons.prems(1) by auto
    obtain col1 where r: "collect_pass (s + of_nat ?m) segs = (col1, next1, new)" "col = o_payload seg # col1"
      using Cons.prems(3) True c(1) by (auto split: prod.splits)
    from Cons.IH [OF _ c(3) r(1)] Cons.prems(1) obtain m where
      m: "m \<ge> ?m" "m < 2 ^ 32" "next1 = s + of_nat m" "concat col1 = map f [?m..<m]" "set new \<subseteq> set segs" by auto
    have "concat col = map f [n..<m]" using r(2) c(2) m(1,4) map_upt_append [of n ?m m f] by simp
    with m r(2) show ?thesis by (intro exI [of _ m]) auto
  next
    case False
    obtain new1 where r: "collect_pass (s + of_nat n) segs = (col, next1, new1)" "new = seg # new1"
      using Cons.prems(3) False by (auto split: prod.splits)
    from Cons.IH [OF _ Cons.prems(2) r(1)] Cons.prems(1) obtain m where
      "m \<ge> n" "m < 2 ^ 32" "next1 = s + of_nat m" "concat col = map f [n..<m]" "set new1 \<subseteq> set segs"
      "col = [] \<longrightarrow> new1 = segs \<and> m = n \<and> (\<forall>seg\<in>set segs. o_seqStart seg \<noteq> s + of_nat n)" by auto
    with False r(2) show ?thesis by (intro exI [of _ m]) auto
  qed
qed simp

lemma collect_loop_stream:
  assumes "\<forall>seg\<in>set segs. stream_segment f s seg" and "n < 2 ^ 32"
    and "collect_loop (s + of_nat n) segs = (col, next1, new)"
  shows "\<exists>m\<ge>n. m < 2 ^ 32 \<and> next1 = s + of_nat m \<and> concat col = map f [n..<m] \<and> set new \<subseteq> set segs \<and>
    (\<forall>seg\<in>set new. o_seqStart seg \<noteq> next1)"
  using assms
proof (induction "length segs" arbitrary: n segs col next1 new rule: less_induct)
  case less
  obtain col1 n1 new1 where p: "collect_pass (s + of_nat n) segs = (col1, n1, new1)" by (rule prod_cases3)
  from collect_pass_stream [OF less.prems(1,2) p] obtain m where
    m: "m \<ge> n" "m < 2 ^ 32" "n1 = s + of_nat m" "concat col1 = map f [n..<m]" "set new1 \<subseteq> set segs"
      "col1 = [] \<longrightarrow> new1 = segs \<and> m = n \<and> (\<forall>seg\<in>set segs. o_seqStart seg \<noteq> s + of_nat n)" by auto
  show ?case
  proof (cases "col1 = []")
    case True
    with less.prems(3) p have "(col, next1, new) = ([], n1, new1)" by (subst (asm) collect_loop.simps) simp
    with True m show ?thesis by auto
  next
    case False
    obtain col2 where r: "collect_loop (s + of_nat m) new1 = (col2, next1, new)" "col = col1 @ col2"
      using less.prems(3) p False m(3) by (subst (asm) collect_loop.simps) (auto split: prod.splits)
    have "length new1 < length segs" by (rule collect_pass_shrinks [OF p False])
    from less.hyps [OF this _ m(2) r(1)] m(5) less.prems(1) obtain k where
      k: "k \<ge> m" "k < 2 ^ 32" "next1 = s + of_nat k" "concat col2 = map f [m..<k]" "set new \<subseteq> set new1"
        "\<forall>seg\<in>set new. o_seqStart seg \<noteq> next1" by auto
    then show ?thesis using m map_upt_append [of n m k f] r(2) by (intro exI [of _ k]) auto
  qed
qed



section \<open>Buffering out of order\<close>

lemma insert_search_spec:
  "insert_search seg len i idx segs =
     (if \<exists>x\<in>set segs. seqOverlap (o_seqStart seg) (o_seqEnd seg) (o_seqStart x) (o_seqEnd x) then None
      else Some (if idx = len \<and> i + length segs \<le> len
                 then (if \<exists>x\<in>set segs. seqLT (o_seqStart seg) (o_seqStart x)
                       then i + length (takeWhile (\<lambda>x. \<not> seqLT (o_seqStart seg) (o_seqStart x)) segs) else len)
                 else idx))" if "i + length segs \<le> len" and "idx = len \<or> idx < i"
  using that
proof (induction segs arbitrary: i idx)
  case (Cons x segs)
  show ?case
  proof (cases "idx = len")
    case True
    with Cons.prems have "i < len" by simp
    with Cons True show ?thesis by simp
  next
    case False
    with Cons show ?thesis by simp
  qed
qed simp

text \<open>
  C19 (invariant). A segment is buffered exactly when it overlaps nothing that is buffered
  and a slot is free; then the buffer holds one segment more, in the order of the stream, and
  still no two segments overlap. Positions of the buffered segments are within \<open>2 ^ 31\<close> of
  each other, and no segment is empty.
\<close>

theorem RecvBuffer_insert_keeps_order:
  assumes "sorted_wrt (\<lambda>x y. p x < p y) (rb_segments rb)"
    and "\<forall>x\<in>insert seg (set (rb_segments rb)). o_seqStart x = s + of_nat (p x) \<and>
      o_seqEnd x = s + of_nat (p x + length (o_payload x)) \<and> o_payload x \<noteq> [] \<and> p x + length (o_payload x) < 2 ^ 31"
    and "RecvBuffer_insert seg rb = (ok, rb1)"
  shows "(ok \<longleftrightarrow> int (length (rb_segments rb)) < rb_maxGaps rb \<and>
      (\<forall>x\<in>set (rb_segments rb). p seg + length (o_payload seg) \<le> p x \<or> p x + length (o_payload x) \<le> p seg)) \<and>
    (\<not> ok \<longrightarrow> rb1 = rb) \<and>
    (ok \<longrightarrow> mset (rb_segments rb1) = add_mset seg (mset (rb_segments rb)) \<and> sorted_wrt (\<lambda>x y. p x < p y) (rb_segments rb1))"
proof -
  let ?segs = "rb_segments rb"
  define ends where "ends x = p x + length (o_payload x)" for x
  have w: "o_seqStart x = s + of_nat (p x)" "o_seqEnd x = s + of_nat (ends x)" "p x < ends x" "ends x < 2 ^ 31"
    if "x \<in> insert seg (set ?segs)" for x using assms(2) that by (auto simp: ends_def)
  have lt: "seqLT (o_seqStart seg) (o_seqStart x) \<longleftrightarrow> p seg < p x" if "x \<in> set ?segs" for x
    using w [of seg] w [of x] that seqLT_iff [of "p seg" "p x" s] by auto
  have ov: "seqOverlap (o_seqStart seg) (o_seqEnd seg) (o_seqStart x) (o_seqEnd x) \<longleftrightarrow> p seg < ends x \<and> p x < ends seg"
    if "x \<in> set ?segs" for x
    using w [of seg] w [of x] that seqLT_iff [of "p seg" "ends x" s] seqLT_iff [of "p x" "ends seg" s]
    by (auto simp: seqOverlap_def)
  define free where "free \<longleftrightarrow> (\<forall>x\<in>set ?segs. ends seg \<le> p x \<or> ends x \<le> p seg)"
  have search: "insert_search seg (length ?segs) 0 (length ?segs) ?segs =
      (if free then Some (length (takeWhile (\<lambda>x. p x \<le> p seg) ?segs)) else None)"
  proof -
    have 1: "(\<exists>x\<in>set ?segs. seqOverlap (o_seqStart seg) (o_seqEnd seg) (o_seqStart x) (o_seqEnd x)) \<longleftrightarrow> \<not> free"
      using ov by (auto simp: free_def not_le)
    have 2: "(\<exists>x\<in>set ?segs. seqLT (o_seqStart seg) (o_seqStart x)) \<longleftrightarrow> \<not> (\<forall>x\<in>set ?segs. p x \<le> p seg)"
      using lt by (auto simp: not_le)
    have 3: "takeWhile (\<lambda>x. \<not> seqLT (o_seqStart seg) (o_seqStart x)) ?segs = takeWhile (\<lambda>x. p x \<le> p seg) ?segs"
      using lt by (intro takeWhile_cong) (auto simp: not_less)
    have 4: "\<forall>x\<in>set ?segs. p x \<le> p seg \<Longrightarrow> length (takeWhile (\<lambda>x. p x \<le> p seg) ?segs) = length ?segs"
      by (metis takeWhile_eq_all_conv)
    show ?thesis
      using insert_search_spec [of 0 ?segs "length ?segs" "length ?segs" seg, unfolded 1 2 3] 4
      by (cases "\<forall>x\<in>set ?segs. p x \<le> p seg") auto
  qed
  let ?new = "takeWhile (\<lambda>x. p x \<le> p seg) ?segs @ seg # dropWhile (\<lambda>x. p x \<le> p seg) ?segs"
  have sorted: "sorted_wrt (\<lambda>x y. p x < p y) ?new" if free
  proof -
    have before: "p x < p seg" if "x \<in> set (takeWhile (\<lambda>x. p x \<le> p seg) ?segs)" for x
      using that set_takeWhileD [OF that] \<open>free\<close> w [of x] w [of seg] by (fastforce simp: free_def)
    have s: "sorted_wrt (\<lambda>x y. p x < p y) (takeWhile (\<lambda>x. p x \<le> p seg) ?segs @ dropWhile (\<lambda>x. p x \<le> p seg) ?segs)"
      using assms(1) by simp
    have after: "p seg < p x" if x: "x \<in> set (dropWhile (\<lambda>x. p x \<le> p seg) ?segs)" for x
    proof -
      obtain y ys where y: "dropWhile (\<lambda>x. p x \<le> p seg) ?segs = y # ys" using x by (rule list.set_cases)
      then have "p seg < p y" using hd_dropWhile [of "\<lambda>x. p x \<le> p seg" ?segs] by auto
      with x s y show ?thesis by (auto simp: sorted_wrt_append)
    qed
    show ?thesis using s before after by (fastforce simp: sorted_wrt_append)
  qed
  have mset: "mset ?new = add_mset seg (mset ?segs)"
    by simp (metis mset_append takeWhile_dropWhile_id)
  have "RecvBuffer_insert seg rb =
      (if free \<and> int (length ?segs) < rb_maxGaps rb then (True, rb\<lparr>rb_segments := ?new\<rparr>) else (False, rb))"
    using takeWhile_eq_take [of "\<lambda>x. p x \<le> p seg" ?segs] dropWhile_eq_drop [of "\<lambda>x. p x \<le> p seg" ?segs]
    by (auto simp: RecvBuffer_insert_def search Let_def)
  with assms(3) sorted mset show ?thesis
    by (auto simp: free_def ends_def split: if_splits)
qed

theorem RecvBuffer_insert_keeps_order_witness:
  "sorted_wrt (\<lambda>x y. unat (o_seqStart x + 2) < unat (o_seqStart y + 2))
     (rb_segments (snd (RecvBuffer_insert \<lparr>o_seqStart = 0xffffffff, o_seqEnd = 1, o_payload = [1, 2]\<rparr>
       \<lparr>rb_segments = [\<lparr>o_seqStart = 3, o_seqEnd = 4, o_payload = [5]\<rparr>], rb_maxGaps = 2\<rparr>)))"
proof -
  let ?seg = "\<lparr>o_seqStart = 0xffffffff, o_seqEnd = 1, o_payload = [1, 2]\<rparr>"
    and ?rb = "\<lparr>rb_segments = [\<lparr>o_seqStart = 3, o_seqEnd = 4, o_payload = [5]\<rparr>], rb_maxGaps = 2\<rparr>"
    and ?p = "\<lambda>x. unat (o_seqStart x + 2)"
  have a: "sorted_wrt (\<lambda>x y. ?p x < ?p y) (rb_segments ?rb)" by simp
  have b: "\<forall>x\<in>insert ?seg (set (rb_segments ?rb)). o_seqStart x = 0xfffffffe + of_nat (?p x) \<and>
      o_seqEnd x = 0xfffffffe + of_nat (?p x + length (o_payload x)) \<and> o_payload x \<noteq> [] \<and>
      ?p x + length (o_payload x) < 2 ^ 31" by simp
  obtain ok rb1 where r: "RecvBuffer_insert ?seg ?rb = (ok, rb1)" by (rule prod.exhaust)
  from RecvBuffer_insert_keeps_order [OF a b r] a show ?thesis unfolding r by auto
qed

section \<open>The timer\<close>

datatype rtt_event = RttSample int | RttBackoff | RttReset

fun rtt_step :: "rtt_event \<Rightarrow> tcpRTTEstimator \<Rightarrow> tcpRTTEstimator" where
  "rtt_step (RttSample d) r = RTT_update d r"
| "rtt_step RttBackoff r = RTT_backoff r"
| "rtt_step RttReset r = resetBackoff r"

lemma rtt_step_bounds:
  assumes "minRTO \<le> rto r" and "rto r \<le> maxRTO"
  shows "minRTO \<le> rto (rtt_step ev r) \<and> rto (rtt_step ev r) \<le> maxRTO"
proof (cases ev)
  case RttBackoff
  have w: "wrap64 (rto r * 3) = rto r * 3"
    unfolding wrap64_def using assms by (intro signed_take_bit_int_eq_self) (auto simp: minRTO_def maxRTO_def)
  have "(rto r * 3) sdiv 2 = rto r * 3 div 2"
    using assms by (simp add: signed_divide_int_def minRTO_def)
  moreover have "rto r \<le> rto r * 3 div 2" using assms by (simp add: minRTO_def)
  ultimately show ?thesis using assms by (auto simp: RttBackoff RTT_backoff_def Let_def w)
qed (use assms in \<open>auto simp: RTT_update_def resetBackoff_def Let_def minRTO_def maxRTO_def\<close>)

text \<open>
  C30 (bounds). Whatever round trip times are measured, including values for which the
  estimator's arithmetic overflows, and however often the timer backs off, the
  retransmission timeout stays between its minimum and its maximum.
\<close>

theorem RTO_bounded:
  "minRTO \<le> getRTO (fold rtt_step evs newTCPRTTEstimator) \<and> getRTO (fold rtt_step evs newTCPRTTEstimator) \<le> maxRTO"
proof -
  have "minRTO \<le> rto r \<Longrightarrow> rto r \<le> maxRTO \<Longrightarrow> minRTO \<le> rto (fold rtt_step evs r) \<and> rto (fold rtt_step evs r) \<le> maxRTO" for r
    by (induction evs arbitrary: r) (use rtt_step_bounds in auto)
  from this [of newTCPRTTEstimator] show ?thesis
    by (simp add: getRTO_def newTCPRTTEstimator_def initialRTO_def minRTO_def maxRTO_def)
qed

section \<open>Congestion control never panics\<close>

datatype cc_event = CcAck int | CcDup | CcTimeout

fun cc_step :: "cc_event \<Rightarrow> tcpCongestionControl \<Rightarrow> error + tcpCongestionControl" where
  "cc_step (CcAck n) cc = onAck n cc"
| "cc_step CcDup cc = Inr (snd (onDupAck cc))"
| "cc_step CcTimeout cc = Inr (onTimeout cc)"

fun cc_run :: "cc_event list \<Rightarrow> tcpCongestionControl \<Rightarrow> error + tcpCongestionControl" where
  "cc_run [] cc = Inr cc"
| "cc_run (ev # evs) cc = (case cc_step ev cc of Inl e \<Rightarrow> Inl e | Inr cc1 \<Rightarrow> cc_run evs cc1)"

definition cc_ok :: "tcpCongestionControl \<Rightarrow> bool" where
  "cc_ok cc \<longleftrightarrow> cc_mss cc \<noteq> 0 \<and> 2 * ucast (cc_mss cc) \<le> ssthresh cc"

lemma two_mss: "m \<noteq> 0 \<Longrightarrow> (0 :: u32) < 2 * ucast (m :: u16)"
proof -
  have "unat m < 65536" using unat_lt2p [of m] by simp
  then have "unat (2 * ucast m :: u32) = 2 * unat m"
    by (simp add: unat_word_ariths unsigned_ucast_eq take_bit_eq_mod)
  then show "m \<noteq> 0 \<Longrightarrow> (0 :: u32) < 2 * ucast m" by (simp add: word_less_nat_alt unat_gt_0)
qed

lemma halve_ssthresh_ok: "cc_mss cc \<noteq> 0 \<Longrightarrow> cc_ok (halve_ssthresh cc)"
  by (auto simp: cc_ok_def halve_ssthresh_def Let_def not_less)

lemma cc_step_ok:
  assumes "cc_ok cc"
  shows "\<exists>cc1. cc_step ev cc = Inr cc1 \<and> cc_ok cc1"
proof (cases ev)
  case (CcAck n)
  have "0 < ssthresh cc" using assms two_mss [of "cc_mss cc"] by (auto simp: cc_ok_def)
  then have "\<not> cwnd cc < ssthresh cc \<Longrightarrow> cwnd cc \<noteq> 0" by auto
  with assms show ?thesis by (auto simp: CcAck onAck_def Let_def cc_ok_def)
next
  case CcDup
  have "cc_ok (halve_ssthresh (cc\<lparr>dupAcks := d\<rparr>))" for d using assms by (intro halve_ssthresh_ok) (simp add: cc_ok_def)
  with assms show ?thesis by (auto simp: CcDup onDupAck_def Let_def cc_ok_def)
next
  case CcTimeout
  have "cc_ok (halve_ssthresh cc)" using assms by (intro halve_ssthresh_ok) (simp add: cc_ok_def)
  then show ?thesis by (auto simp: CcTimeout onTimeout_def Let_def cc_ok_def)
qed

text \<open>
  C32 (safety). With a segment size other than zero the congestion window is never divided
  by when it is zero, even after it overflowed: no sequence of acknowledgements, duplicate
  acknowledgements and timeouts panics.
\<close>

theorem congestion_control_safe:
  assumes "mss \<noteq> 0"
  shows "\<exists>cc. cc_run evs (newTCPCongestionControl mss) = Inr cc"
proof -
  have "cc_ok cc \<Longrightarrow> \<exists>cc1. cc_run evs cc = Inr cc1" for cc
  proof (induction evs arbitrary: cc)
    case (Cons ev evs)
    then show ?case using cc_step_ok [OF Cons.prems, of ev] by auto
  qed simp
  moreover have "cc_ok (newTCPCongestionControl mss)" using assms by (simp add: cc_ok_def newTCPCongestionControl_def)
  ultimately show ?thesis by blast
qed

theorem congestion_control_safe_witness:
  "\<exists>cc. cc_run [CcAck 1460, CcTimeout, CcAck (- 1460), CcAck 1] (newTCPCongestionControl 1460) = Inr cc"
  by (rule congestion_control_safe) simp

end
