(* ===== verification/Packets.thy ===== *)
theory Packets
  imports Prelude
begin

text \<open>
  Packets of the user space network stack: addresses, the internet checksum, the IPv4 and
  TCP headers, the frame a TCP segment is sent in (\<^verbatim>\<open>internal/netstack/netstack.go\<close>), and
  the filter that binds a guest's frames to its addresses
  (\<^verbatim>\<open>internal/netstack/source_validation.go\<close>). The lemmas show that every frame the stack
  sends carries valid checksums and is read back as it was meant, whatever was left in the
  reused buffer, and that a frame the filter lets through has the guest's source address
  where the stack reads it.

  A \<^verbatim>\<open>net.IP\<close> and a \<^verbatim>\<open>net.HardwareAddr\<close> are byte slices.
\<close>

section \<open>Addresses\<close>

definition v4InV6Prefix :: bytes where
  "v4InV6Prefix = replicate 10 0 @ [0xff, 0xff]"

text \<open>The methods of \<^verbatim>\<open>net.IP\<close> the stack uses, of the Go standard library.\<close>

definition To4 :: "bytes \<Rightarrow> bytes option" where
  "To4 ip = (if length ip = 4 then Some ip
     else if length ip = 16 \<and> take 12 ip = v4InV6Prefix then Some (drop 12 ip) else None)"

definition IP_Equal :: "bytes \<Rightarrow> bytes \<Rightarrow> bool" where
  "IP_Equal a b =
     (if length a = length b then a = b
      else if length a = 4 \<and> length b = 16 then take 12 b = v4InV6Prefix \<and> a = drop 12 b
      else if length a = 16 \<and> length b = 4 then take 12 a = v4InV6Prefix \<and> drop 12 a = b
      else False)"

definition IPv4zero :: bytes where
  "IPv4zero = v4InV6Prefix @ [0, 0, 0, 0]"

definition macMask :: u64 where "macMask = push_bit 48 1 - 1"
definition macUnset :: u64 where "macUnset = NOT 0"

definition macIsSet :: "u64 \<Rightarrow> bool" where "macIsSet v \<longleftrightarrow> v \<noteq> macUnset"

definition macToUint64 :: "bytes \<Rightarrow> u64 option" where
  "macToUint64 mac =
     (if length mac \<noteq> 6 then None
      else Some (push_bit 40 (ucast (mac ! 0)) OR push_bit 32 (ucast (mac ! 1)) OR push_bit 24 (ucast (mac ! 2)) OR
        push_bit 16 (ucast (mac ! 3)) OR push_bit 8 (ucast (mac ! 4)) OR ucast (mac ! 5)))"

definition mac_bytes :: "u64 \<Rightarrow> bytes" where
  "mac_bytes v = [ucast (drop_bit 40 v), ucast (drop_bit 32 v), ucast (drop_bit 24 v), ucast (drop_bit 16 v),
     ucast (drop_bit 8 v), ucast v]"

definition macFromUint64 :: "u64 \<Rightarrow> bytes option" where
  "macFromUint64 v = (if v = macUnset then None else Some (mac_bytes (v AND macMask)))"

definition macEqualUint64 :: "bytes \<Rightarrow> u64 \<Rightarrow> bool" where
  "macEqualUint64 addr mac =
     (if \<not> macIsSet mac then False
      else case macToUint64 addr of None \<Rightarrow> False | Some v \<Rightarrow> v = mac AND macMask)"

text \<open>\<^verbatim>\<open>writeMAC\<close> on the six bytes at an offset of a buffer.\<close>

definition writeMAC :: "bytes \<Rightarrow> nat \<Rightarrow> u64 \<Rightarrow> bytes" where
  "writeMAC buf off mac = (if \<not> macIsSet mac then buf else splice buf off (mac_bytes mac))"

definition isBroadcast :: "bytes \<Rightarrow> bool" where
  "isBroadcast addr = list_all (\<lambda>b. b = 0xff) addr"

section \<open>The internet checksum\<close>

text \<open>The sum of the big endian words of the data, an odd last byte padded with zero.\<close>

fun sum_words :: "bytes \<Rightarrow> u32 \<Rightarrow> u32" where
  "sum_words (a # b # data) acc = sum_words data (acc + ucast (be16 [a, b]))"
| "sum_words [a] acc = acc + push_bit 8 (ucast a)"
| "sum_words [] acc = acc"

lemma unat_halves:
  fixes s :: u32
  shows "unat (s AND 0xffff) = unat s mod 65536" "unat (drop_bit 16 s) = unat s div 65536"
proof -
  have "s AND 0xffff = take_bit 16 s" by (simp add: take_bit_eq_mask mask_eq_exp_minus_1)
  then show "unat (s AND 0xffff) = unat s mod 65536"
    by (simp only: unsigned_take_bit_eq) (simp add: take_bit_eq_mod)
  show "unat (drop_bit 16 s) = unat s div 65536"
    by (simp only: unsigned_drop_bit_eq) (simp add: drop_bit_eq_div take_bit_eq_mod)
qed

lemma unat_fold: "unat ((s AND 0xffff) + drop_bit 16 s :: u32) = unat s mod 65536 + unat s div 65536"
proof -
  have "unat s < 65536 * 65536" using unat_lt2p [of s] by simp
  then have "unat s div 65536 < 65536" by (simp only: less_mult_imp_div_less)
  moreover have "unat s mod 65536 < 65536" by simp
  ultimately have "unat s mod 65536 + unat s div 65536 < 4294967296" by linarith
  then show ?thesis by (simp add: unat_word_ariths unat_halves)
qed

lemma high_half: "drop_bit 16 s \<noteq> 0 \<longleftrightarrow> (0xffff :: u32) < s"
proof -
  have "drop_bit 16 s \<noteq> 0 \<longleftrightarrow> unat s div 65536 \<noteq> 0" using unat_halves(2) [of s] by (metis unat_eq_0)
  also have "\<dots> \<longleftrightarrow> 65535 < unat s" by (auto simp: div_eq_0_iff)
  finally show ?thesis by (simp add: word_less_nat_alt)
qed

lemma fold_decreases: "drop_bit 16 s \<noteq> 0 \<Longrightarrow> unat ((s AND 0xffff) + drop_bit 16 s :: u32) < unat s"
proof -
  assume "drop_bit 16 s \<noteq> 0"
  then have "unat s div 65536 \<noteq> 0" using unat_halves(2) [of s] by (metis unat_eq_0)
  then show ?thesis using div_mult_mod_eq [of "unat s" 65536] unfolding unat_fold by linarith
qed

function fold_sum :: "u32 \<Rightarrow> u32" where
  "fold_sum s = (if drop_bit 16 s \<noteq> 0 then fold_sum ((s AND 0xffff) + drop_bit 16 s) else s)"
  by pat_completeness auto
termination
  by (relation "measure unat") (auto simp: fold_decreases)

declare fold_sum.simps [simp del]

definition checksumWithInitial :: "bytes \<Rightarrow> u32 \<Rightarrow> u16" where
  "checksumWithInitial data initial = NOT (ucast (fold_sum (sum_words data initial)))"

definition checksum :: "bytes \<Rightarrow> u16" where
  "checksum data = NOT (ucast (fold_sum (sum_words data 0)))"

text \<open>The loop of \<^verbatim>\<open>ipv4Checksum\<close> is written with a comparison instead of a shift.\<close>

function ipv4_fold :: "u32 \<Rightarrow> u32" where
  "ipv4_fold s = (if 0xffff < s then ipv4_fold (drop_bit 16 s + (s AND 0xffff)) else s)"
  by pat_completeness auto
termination
  by (relation "measure unat") (use fold_decreases high_half in \<open>auto simp: add.commute\<close>)

declare ipv4_fold.simps [simp del]

definition ipv4Checksum :: "bytes \<Rightarrow> u16" where
  "ipv4Checksum data = NOT (ucast (ipv4_fold (sum_words data 0)))"

text \<open>The address slices \<^verbatim>\<open>ip4[0:2]\<close> panic for an address that is not IPv4.\<close>

definition pseudoHeaderChecksum :: "bytes \<Rightarrow> bytes \<Rightarrow> u8 \<Rightarrow> nat \<Rightarrow> error + u32" where
  "pseudoHeaderChecksum src dst protocol len =
     (case (To4 src, To4 dst) of
        (Some ip4, Some dst4) \<Rightarrow>
          Inr (ucast (be16 (slice ip4 0 2)) + ucast (be16 (slice ip4 2 4)) + ucast (be16 (slice dst4 0 2)) +
               ucast (be16 (slice dst4 2 4)) + ucast protocol + of_nat len)
      | _ \<Rightarrow> Inl Panic)"

definition tcpProtocolNumber :: u8 where "tcpProtocolNumber = 6"
definition udpProtocolNumber :: u8 where "udpProtocolNumber = 17"
definition icmpProtocol :: u8 where "icmpProtocol = 1"

definition tcpChecksum :: "bytes \<Rightarrow> bytes \<Rightarrow> bytes \<Rightarrow> error + u16" where
  "tcpChecksum src dst payload =
     (case pseudoHeaderChecksum src dst tcpProtocolNumber (length payload) of
        Inl e \<Rightarrow> Inl e | Inr ps \<Rightarrow> Inr (checksumWithInitial payload ps))"

definition udpChecksum :: "bytes \<Rightarrow> bytes \<Rightarrow> bytes \<Rightarrow> error + u16" where
  "udpChecksum src dst payload =
     (case pseudoHeaderChecksum src dst udpProtocolNumber (length payload) of
        Inl e \<Rightarrow> Inl e | Inr ps \<Rightarrow> Inr (checksumWithInitial payload ps))"

section \<open>The IPv4 header\<close>

definition ipv4HeaderLen :: nat where "ipv4HeaderLen = 20"
definition tcpHeaderLen :: nat where "tcpHeaderLen = 20"
definition udpHeaderLen :: nat where "udpHeaderLen = 8"
definition ethernetHeaderLen :: nat where "ethernetHeaderLen = 14"

lemmas header_lens = ipv4HeaderLen_def tcpHeaderLen_def udpHeaderLen_def ethernetHeaderLen_def

record ipv4Header =
  ip_version :: u8
  ip_ihl :: u8
  ip_tos :: u8
  ip_length :: u16
  ip_id :: u16
  ip_flags :: u16
  ip_ttl :: u8
  ip_protocol :: u8
  ip_checksum :: u16
  ip_src :: bytes
  ip_dst :: bytes
  ip_options :: bytes
  ip_payload :: bytes

definition parseIPv4Header :: "bytes \<Rightarrow> error + ipv4Header" where
  "parseIPv4Header data =
     (if length data < ipv4HeaderLen then Inl HeaderTooShort
      else let version = drop_bit 4 (data ! 0); ihl = (data ! 0) AND 0x0f
      in if version \<noteq> 4 then Inl UnsupportedVersion
         else let headerLen = unat ihl * 4
         in if length data < headerLen then Inl HeaderLengthMismatch
            else Inr \<lparr>ip_version = version, ip_ihl = ihl, ip_tos = data ! 1, ip_length = be16 (slice data 2 4),
              ip_id = be16 (slice data 4 6), ip_flags = be16 (slice data 6 8), ip_ttl = data ! 8,
              ip_protocol = data ! 9, ip_checksum = be16 (slice data 10 12), ip_src = slice data 12 16,
              ip_dst = slice data 16 20,
              ip_options = (if ipv4HeaderLen < headerLen then slice data ipv4HeaderLen headerLen else []),
              ip_payload = drop headerLen data\<rparr>)"

text \<open>\<^verbatim>\<open>copy(packet[off:off+4], ip.To4())\<close>: nothing is copied from a nil slice.\<close>

definition copy_ip :: "bytes \<Rightarrow> nat \<Rightarrow> bytes \<Rightarrow> bytes" where
  "copy_ip packet off ip = (case To4 ip of None \<Rightarrow> packet | Some ip4 \<Rightarrow> splice packet off ip4)"

definition buildIPv4HeaderInto :: "bytes \<Rightarrow> bytes \<Rightarrow> bytes \<Rightarrow> u8 \<Rightarrow> nat \<Rightarrow> error + bytes" where
  "buildIPv4HeaderInto packet src dst protocol payloadLen =
     (if length packet < ipv4HeaderLen then Inl Panic
      else
        let totalLen = ipv4HeaderLen + payloadLen;
            p1 = splice packet 0 ([0x45, 0] @ put_be16 (of_nat totalLen) @ put_be16 0 @ put_be16 0 @ [64, protocol]);
            p2 = copy_ip p1 12 src;
            p3 = copy_ip p2 16 dst;
            p4 = splice p3 10 [0, 0];
            check = ipv4Checksum (take ipv4HeaderLen p4)
        in Inr (splice p4 10 (put_be16 check)))"

definition etherTypeIPv4 :: u16 where "etherTypeIPv4 = 0x0800"
definition etherTypeARP :: u16 where "etherTypeARP = 0x0806"

definition buildEthernetHeaderInto :: "bytes \<Rightarrow> u64 \<Rightarrow> u64 \<Rightarrow> u16 \<Rightarrow> error + bytes" where
  "buildEthernetHeaderInto buf dstMac srcMac etherType =
     (if length buf < ethernetHeaderLen then Inl Panic
      else Inr (splice (writeMAC (writeMAC buf 0 dstMac) 6 srcMac) 12 (put_be16 etherType)))"

section \<open>The TCP header and the frames of a connection\<close>

definition tcpFlagFIN :: u16 where "tcpFlagFIN = 0x01"
definition tcpFlagSYN :: u16 where "tcpFlagSYN = 0x02"
definition tcpFlagRST :: u16 where "tcpFlagRST = 0x04"
definition tcpFlagPSH :: u16 where "tcpFlagPSH = 0x08"
definition tcpFlagACK :: u16 where "tcpFlagACK = 0x10"

record tcpHeader =
  h_srcPort :: u16
  h_dstPort :: u16
  h_seq :: u32
  h_ack :: u32
  h_dataOff :: u8
  h_flags :: u16
  h_window :: u16
  h_checksum :: u16
  h_urgent :: u16
  h_options :: bytes
  h_payload :: bytes

definition parseTCPHeader :: "bytes \<Rightarrow> error + tcpHeader" where
  "parseTCPHeader data =
     (if length data < tcpHeaderLen then Inl HeaderTooShort
      else let hdrLen = drop_bit 4 (data ! 12) * 4 :: u8
      in if length data < unat hdrLen then Inl HeaderLengthMismatch
         else Inr \<lparr>h_srcPort = be16 (slice data 0 2), h_dstPort = be16 (slice data 2 4),
           h_seq = be32 (slice data 4 8), h_ack = be32 (slice data 8 12), h_dataOff = data ! 12,
           h_flags = ucast (data ! 13), h_window = be16 (slice data 14 16), h_checksum = be16 (slice data 16 18),
           h_urgent = be16 (slice data 18 20),
           h_options = (if tcpHeaderLen < unat hdrLen then slice data tcpHeaderLen (unat hdrLen) else []),
           h_payload = drop (unat hdrLen) data\<rparr>)"

record tcpFourTuple =
  k_srcIP :: bytes
  k_dstIP :: bytes
  k_srcPort :: u16
  k_dstPort :: u16

text \<open>The addresses of the stack that a frame depends on.\<close>

record stack_macs =
  hostMAC :: u64
  guestMAC :: u64
  observedGuestMAC :: u64

definition guestMACForTransmit :: "stack_macs \<Rightarrow> u64" where
  "guestMACForTransmit ns =
     (if macIsSet (observedGuestMAC ns) then observedGuestMAC ns
      else if macIsSet (guestMAC ns) then guestMAC ns else macUnset)"

text \<open>
  Padding of the options to a multiple of four bytes, the TCP segment, and the frame: the
  buffer comes from a pool and still holds the bytes of the frame it was last used for.
\<close>

definition pad_options :: "bytes \<Rightarrow> bytes" where
  "pad_options options =
     (if length options mod 4 \<noteq> 0 then options @ replicate ((length options + 3) div 4 * 4 - length options) 0
      else options)"

definition tcp_segment :: "bytes \<Rightarrow> u16 \<Rightarrow> u16 \<Rightarrow> u32 \<Rightarrow> u32 \<Rightarrow> u16 \<Rightarrow> bytes \<Rightarrow> bytes \<Rightarrow> bytes" where
  "tcp_segment packet srcPort dstPort seq ack flags payload options =
     (let headerLen = tcpHeaderLen + length options;
          p0 = splice packet 0 (replicate headerLen 0);
          p1 = splice p0 0 (put_be16 srcPort @ put_be16 dstPort @ put_be32 seq @ put_be32 ack @
                 [push_bit 4 (of_nat (headerLen div 4)), ucast flags] @ put_be16 0xffff);
          p2 = (if 0 < length options then splice p1 tcpHeaderLen options else p1);
          p3 = splice p2 headerLen payload
      in splice p3 16 (put_be16 0))"

definition sendTCPPacketWithOptions ::
    "stack_macs \<Rightarrow> (nat \<Rightarrow> bytes) \<Rightarrow> bytes \<Rightarrow> tcpFourTuple \<Rightarrow> u32 \<Rightarrow> u32 \<Rightarrow> u16 \<Rightarrow> bytes \<Rightarrow> bytes \<Rightarrow> error + bytes" where
  "sendTCPPacketWithOptions ns getEthernetFrameBuffer localIPv4 key seq ack flags payload options0 =
     (let srcIP = localIPv4; dstIP = k_srcIP key; srcPort = k_dstPort key; dstPort = k_srcPort key;
          options = pad_options options0;
          headerLen = tcpHeaderLen + length options;
          tcpLen = headerLen + length payload;
          frame = getEthernetFrameBuffer (ipv4HeaderLen + tcpLen);
          start = ethernetHeaderLen + ipv4HeaderLen;
          packet = tcp_segment (slice frame start (start + tcpLen)) srcPort dstPort seq ack flags payload options
      in (case tcpChecksum srcIP dstIP packet of
           Inl e \<Rightarrow> Inl e
         | Inr check \<Rightarrow>
             let frame1 = splice frame start (splice packet 16 (put_be16 check))
             in (case buildIPv4HeaderInto (slice frame1 ethernetHeaderLen start) srcIP dstIP tcpProtocolNumber (length packet) of
                  Inl e \<Rightarrow> Inl e
                | Inr iphdr \<Rightarrow>
                    let frame2 = splice frame1 ethernetHeaderLen iphdr; dstMAC = guestMACForTransmit ns
                    in if \<not> macIsSet dstMAC then Inl MACUnknown
                       else (case buildEthernetHeaderInto (take ethernetHeaderLen frame2) dstMAC (hostMAC ns) etherTypeIPv4 of
                              Inl e \<Rightarrow> Inl e
                            | Inr eth \<Rightarrow> Inr (splice frame2 0 eth)))))"

section \<open>Source validation\<close>

definition arpHardwareEthernet :: u16 where "arpHardwareEthernet = 1"
definition arpProtoIPv4 :: u16 where "arpProtoIPv4 = 0x0800"

datatype SourceViolation =
    SourceValid | SourceMalformed | SourceMACViolation | SourceARPViolation | SourceIPv4Violation
  | SourceUnsupportedProtocol

definition equalHardwareAddr :: "bytes \<Rightarrow> bytes \<Rightarrow> bool" where
  "equalHardwareAddr a b \<longleftrightarrow> length a = 6 \<and> length b = 6 \<and> list_all (\<lambda>i. a ! i = b ! i) [0..<6]"

definition validateARPSource :: "bytes \<Rightarrow> bytes \<Rightarrow> bytes \<Rightarrow> SourceViolation" where
  "validateARPSource packet expectedMAC expectedIPv4 =
     (if length packet < 28 \<or> be16 (slice packet 0 2) \<noteq> arpHardwareEthernet \<or> be16 (slice packet 2 4) \<noteq> arpProtoIPv4 \<or>
        packet ! 4 \<noteq> 6 \<or> packet ! 5 \<noteq> 4 then SourceMalformed
      else if \<not> equalHardwareAddr (slice packet 8 14) expectedMAC then SourceARPViolation
      else if IP_Equal (slice packet 14 18) expectedIPv4 then SourceValid
      else if IP_Equal (slice packet 14 18) IPv4zero \<and> IP_Equal (slice packet 24 28) expectedIPv4 then SourceValid
      else SourceARPViolation)"

definition validateIPv4Source :: "bytes \<Rightarrow> bytes \<Rightarrow> SourceViolation" where
  "validateIPv4Source packet expectedIPv4 =
     (if length packet < ipv4HeaderLen \<or> drop_bit 4 (packet ! 0) \<noteq> 4 then SourceMalformed
      else let headerLen = unat (packet ! 0 AND 0x0f) * 4
      in if headerLen < ipv4HeaderLen \<or> length packet < headerLen then SourceMalformed
         else if IP_Equal (slice packet 12 16) expectedIPv4 then SourceValid
         else if \<not> IP_Equal (slice packet 12 16) IPv4zero \<or> packet ! 9 \<noteq> udpProtocolNumber \<or>
                length packet < headerLen + udpHeaderLen then SourceIPv4Violation
         else if be16 (slice packet headerLen (headerLen + 2)) = 68 \<and>
                be16 (slice packet (headerLen + 2) (headerLen + 4)) = 67 then SourceValid
         else SourceIPv4Violation)"

definition ValidateGuestSource :: "bytes \<Rightarrow> bytes \<Rightarrow> bytes \<Rightarrow> SourceViolation" where
  "ValidateGuestSource frame expectedMAC expectedIPv4 =
     (if length frame < ethernetHeaderLen \<or> length expectedMAC \<noteq> 6 then SourceMalformed
      else case To4 expectedIPv4 of
        None \<Rightarrow> SourceMalformed
      | Some ip4 \<Rightarrow>
          if \<not> equalHardwareAddr (slice frame 6 12) expectedMAC then SourceMACViolation
          else let etherType = be16 (slice frame 12 14)
          in if etherType = etherTypeARP then validateARPSource (drop ethernetHeaderLen frame) expectedMAC ip4
             else if etherType = etherTypeIPv4 then validateIPv4Source (drop ethernetHeaderLen frame) ip4
             else if etherType = 0x86dd then SourceUnsupportedProtocol
             else SourceValid)"

section \<open>Arithmetic of the checksum\<close>

fun word_sum :: "bytes \<Rightarrow> nat" where
  "word_sum (a # b # data) = unat a * 256 + unat b + word_sum data"
| "word_sum [a] = unat a * 256"
| "word_sum [] = 0"

lemma unat_be16: "unat (be16 [a, b]) = unat a * 256 + unat b"
proof -
  have "unat a < 256" "unat b < 256" using unat_lt2p [of a] unat_lt2p [of b] by simp_all
  moreover have "unat (be16 [a, b]) = (unat b + 256 * unat a) mod 65536"
    unfolding be16_def unat_of_nat by (simp add: be_nat_def take_bit_eq_mod)
  ultimately show ?thesis by simp
qed

lemma word_sum_le: "word_sum data \<le> 65535 * ((length data + 1) div 2)"
proof (induction data rule: word_sum.induct)
  case (1 a b data)
  have "unat a < 256" "unat b < 256" using unat_lt2p [of a] unat_lt2p [of b] by simp_all
  with 1 show ?case by simp
next
  case (2 a)
  have "unat a < 256" using unat_lt2p [of a] by simp
  then show ?case by simp
qed simp

lemma unat_sum_words:
  "unat acc + word_sum data < 2 ^ 32 \<Longrightarrow> unat (sum_words data acc) = unat acc + word_sum data"
proof (induction data acc rule: sum_words.induct)
  case (1 a b data acc)
  have "unat (ucast (be16 [a, b]) :: u32) = unat a * 256 + unat b"
    using unat_lt2p [of "be16 [a, b]"] unat_be16 [of a b] by (simp add: unsigned_ucast_eq take_bit_eq_mod)
  then have "unat (acc + ucast (be16 [a, b])) = unat acc + (unat a * 256 + unat b)"
    using "1.prems" by (simp add: unat_word_ariths)
  with 1 show ?case by simp
next
  case (2 a acc)
  have "unat a < 256" using unat_lt2p [of a] by simp
  then have "unat (push_bit 8 (ucast a) :: u32) = unat a * 256"
    by (simp add: push_bit_eq_mult unat_word_ariths unsigned_ucast_eq take_bit_eq_mod mult.commute)
  with 2 show ?case by (simp add: unat_word_ariths)
qed simp

lemma word_sum_append: "even (length xs) \<Longrightarrow> word_sum (xs @ ys) = word_sum xs + word_sum ys"
  by (induction xs rule: word_sum.induct) auto

text \<open>The folded sum is the one's complement sum: the residue modulo 65535, with 65535 for a nonzero multiple.\<close>

definition ones_sum :: "nat \<Rightarrow> nat" where
  "ones_sum n = (if n = 0 then 0 else if 65535 dvd n then 65535 else n mod 65535)"

lemma ones_sum_fold: "ones_sum (n mod 65536 + n div 65536) = ones_sum n"
proof -
  define q r where "q = n div 65536" and "r = n mod 65536"
  then have n: "n = 65535 * q + (r + q)" by (simp flip: mult_Suc)
  have "n mod 65535 = (r + q) mod 65535" unfolding n by (rule mod_mult_self4)
  moreover have "r + q = 0 \<longleftrightarrow> n = 0" unfolding n by auto
  ultimately have "ones_sum (r + q) = ones_sum n" by (simp only: ones_sum_def dvd_eq_mod_eq_0)
  then show ?thesis by (simp only: q_def r_def)
qed

lemma unat_fold_sum: "unat (fold_sum s) = ones_sum (unat s)"
proof (induction s rule: fold_sum.induct)
  case (1 s)
  show ?case
  proof (cases "drop_bit 16 s = 0")
    case True
    then have "unat s < 65536" using high_half [of s] by (simp add: word_less_nat_alt)
    moreover have "ones_sum n = n" if "n < 65536" for n
    proof -
      have "n \<le> 65535" using that by simp
      then have "n = 65535 \<or> n < 65535" by linarith
      then show ?thesis by (auto simp: ones_sum_def)
    qed
    ultimately show ?thesis using True by (subst fold_sum.simps) simp
  next
    case False
    with 1 show ?thesis by (subst fold_sum.simps) (simp add: unat_fold ones_sum_fold)
  qed
qed

lemma ipv4_fold_eq: "ipv4_fold s = fold_sum s"
proof (induction s rule: fold_sum.induct)
  case (1 s)
  show ?case
  proof (cases "drop_bit 16 s = 0")
    case True
    then show ?thesis using high_half [of s] by (subst ipv4_fold.simps, subst fold_sum.simps) simp
  next
    case False
    with 1 show ?thesis using high_half [of s] by (subst ipv4_fold.simps, subst fold_sum.simps) (simp add: add.commute)
  qed
qed

lemma ipv4Checksum_eq: "ipv4Checksum data = checksumWithInitial data 0"
  by (simp add: ipv4Checksum_def checksumWithInitial_def ipv4_fold_eq)

lemma ones_sum_less: "ones_sum n < 65536"
  by (auto simp: ones_sum_def intro: less_trans [of _ 65535])

lemma ones_sum_complement: "65535 dvd n + (65535 - ones_sum n)"
proof -
  define q r where "q = n div 65535" and "r = n mod 65535"
  then have n: "n = 65535 * q + r" "r < 65535" by simp_all
  then have "n + (65535 - r) = 65535 * (q + 1)" by (simp only: n(1)) simp
  then have "65535 dvd n + (65535 - r)" by (simp only: dvd_triv_left)
  then have "65535 dvd n + (65535 - n mod 65535)" by (simp only: r_def)
  then show ?thesis by (auto simp: ones_sum_def)
qed

lemma unat_checksum:
  assumes "unat init + word_sum data < 2 ^ 32"
  shows "unat (checksumWithInitial data init) = 65535 - ones_sum (unat init + word_sum data)"
proof -
  let ?w = "ucast (fold_sum (sum_words data init)) :: u16"
  have "unat ?w = ones_sum (unat init + word_sum data)"
    using ones_sum_less [of "unat init + word_sum data"]
    by (simp add: unsigned_ucast_eq take_bit_eq_mod unat_fold_sum unat_sum_words [OF assms])
  moreover have "unat (NOT w) = 65535 - unat w" for w :: u16
  proof -
    have "NOT w = of_nat (65535 - unat w)"
      using unat_lt2p [of w] by (simp add: not_eq_complement of_nat_diff)
    then show ?thesis by (simp add: unat_of_nat take_bit_eq_mod)
  qed
  ultimately show ?thesis by (simp add: checksumWithInitial_def)
qed

lemma checksum_verifies:
  assumes "even off" and "off + 2 \<le> length p" and "slice p off (off + 2) = [0, 0]"
    and "unat init + word_sum p + 65535 < 2 ^ 32"
  shows "checksumWithInitial (splice p off (put_be16 (checksumWithInitial p init))) init = 0"
proof -
  define n where "n = unat init + word_sum p"
  define c where "c = checksumWithInitial p init"
  have c: "unat c = 65535 - ones_sum n" using assms(4) unfolding c_def n_def by (intro unat_checksum) simp
  have "length (put_be16 c) = Suc (Suc 0)" by (simp only: length_put numeral_2_eq_2)
  then obtain h l where hl: "put_be16 c = [h, l]" by (auto simp only: length_Suc_conv length_0_conv)
  have "be16 [h, l] = c" unfolding hl [symmetric] by simp
  then have w: "word_sum [h, l] = unat c" using unat_be16 [of h l] by simp
  have p: "p = take off p @ [0, 0] @ drop (off + 2) p"
    using assms(2,3) append_take_drop_id [of off p] append_take_drop_id [of 2 "drop off p"]
    by (simp add: slice_def add.commute)
  have e: "even (length (take off p))" using assms(1,2) by simp
  have "word_sum p = word_sum (take off p) + word_sum (drop (off + 2) p)"
    by (subst p) (simp add: word_sum_append [OF e])
  moreover have "word_sum (splice p off [h, l]) = word_sum (take off p) + (unat c + word_sum (drop (off + 2) p))"
    using w by (simp add: splice_def word_sum_append [OF e])
  ultimately have s: "unat init + word_sum (splice p off [h, l]) = n + unat c" by (simp add: n_def)
  have u: "unat c \<le> 65535" using c by simp
  have "unat (checksumWithInitial (splice p off [h, l]) init) = 65535 - ones_sum (n + unat c)"
    using assms(4) u s by (subst unat_checksum) (simp_all add: n_def add.assoc)
  also have "ones_sum (n + unat c) = 65535"
  proof -
    have "n + unat c \<noteq> 0" using c by (auto simp: ones_sum_def)
    moreover have "65535 dvd n + (65535 - ones_sum n)"
      by (rule ones_sum_complement)
    ultimately show ?thesis using c by (simp add: ones_sum_def)
  qed
  finally show ?thesis unfolding c_def [symmetric] hl by (simp add: unat_eq_0)
qed

section \<open>The frames of the stack\<close>

lemma splice_here: "length xs = i \<Longrightarrow> length data = length ys \<Longrightarrow> splice (xs @ ys @ zs) i data = xs @ data @ zs"
  by (simp add: splice_def)

lemma put_be16_pair: obtains h l where "put_be16 w = [h, l]" "be16 [h, l] = w"
proof -
  have "length (put_be16 w) = Suc (Suc 0)" by (simp only: length_put numeral_2_eq_2)
  then obtain h l where hl: "put_be16 w = [h, l]" by (auto simp only: length_Suc_conv length_0_conv)
  moreover have "be16 [h, l] = w" unfolding hl [symmetric] by simp
  ultimately show thesis by (rule that)
qed

lemma put_be32_quad: obtains a b c d where "put_be32 w = [a, b, c, d]" "be32 [a, b, c, d] = w"
proof -
  have "length (put_be32 w) = Suc (Suc (Suc (Suc 0)))" by simp
  then obtain a b c d where q: "put_be32 w = [a, b, c, d]" by (auto simp only: length_Suc_conv length_0_conv)
  moreover have "be32 [a, b, c, d] = w" unfolding q [symmetric] by simp
  ultimately show thesis by (rule that)
qed

text \<open>The first sixteen bytes of a TCP header.\<close>

definition tcp_front :: "u16 \<Rightarrow> u16 \<Rightarrow> u32 \<Rightarrow> u32 \<Rightarrow> u16 \<Rightarrow> nat \<Rightarrow> bytes" where
  "tcp_front srcPort dstPort seq ack flags headerLen =
     put_be16 srcPort @ put_be16 dstPort @ put_be32 seq @ put_be32 ack @
     [push_bit 4 (of_nat (headerLen div 4)), ucast flags] @ put_be16 0xffff"

lemma length_tcp_front [simp]: "length (tcp_front sp dp sq ak fl n) = 16"
  by (simp add: tcp_front_def)

lemma tcp_segment_eq:
  assumes "length packet = tcpHeaderLen + length options + length payload"
  shows "tcp_segment packet sp dp sq ak fl payload options =
    tcp_front sp dp sq ak fl (tcpHeaderLen + length options) @ [0, 0] @ [0, 0] @ options @ payload"
proof -
  let ?n = "length options" and ?F = "tcp_front sp dp sq ak fl (tcpHeaderLen + length options)"
  define rest where "rest = drop (20 + ?n) packet"
  have rest: "length rest = length payload" using assms by (simp add: rest_def tcpHeaderLen_def)
  have p0: "splice packet 0 (replicate (20 + ?n) 0) = replicate 16 0 @ [0, 0, 0, 0] @ replicate ?n 0 @ rest"
    by (simp add: splice_def rest_def replicate_add numeral_eq_Suc)
  have p1: "splice (replicate 16 0 @ [0, 0, 0, 0] @ replicate ?n 0 @ rest) 0 ?F = ?F @ [0, 0, 0, 0] @ replicate ?n 0 @ rest"
    using splice_here [of "[]" 0 ?F "replicate 16 0"] by simp
  have p2: "(if 0 < ?n then splice (?F @ [0, 0, 0, 0] @ replicate ?n 0 @ rest) 20 options
      else ?F @ [0, 0, 0, 0] @ replicate ?n 0 @ rest) = ?F @ [0, 0, 0, 0] @ options @ rest"
    using splice_here [of "?F @ [0, 0, 0, 0]" 20 options "replicate ?n 0" rest] by auto
  have p3: "splice (?F @ [0, 0, 0, 0] @ options @ rest) (20 + ?n) payload = ?F @ [0, 0, 0, 0] @ options @ payload"
    using splice_here [of "?F @ [0, 0, 0, 0] @ options" "20 + ?n" payload rest "[]"] rest by simp
  have p4: "splice (?F @ [0, 0, 0, 0] @ options @ payload) 16 (put_be16 0) = ?F @ [0, 0] @ [0, 0] @ options @ payload"
    using splice_here [of ?F 16 "put_be16 0" "[0, 0]" "[0, 0] @ options @ payload"]
    by (simp add: put_be16_def be_bytes_def numeral_2_eq_2)
  show ?thesis
    unfolding tcp_segment_def Let_def using p0 p1 p2 p3 p4
    by (simp only: tcpHeaderLen_def tcp_front_def)
qed

lemma data_offset:
  assumes "n mod 4 = 0" and "n \<le> 60"
  shows "unat (drop_bit 4 (push_bit 4 (of_nat (n div 4))) * 4 :: u8) = n"
proof -
  have d: "n div 4 < 16" using assms(2) by simp
  have "drop_bit 4 (push_bit 4 w) = w" if "unat w < 16" for w :: u8
  proof -
    have "take_bit 4 w = w"
      using that by (intro unsigned_word_eqI [where 'a = nat]) (simp only: unsigned_take_bit_eq, simp add: take_bit_eq_mod)
    then have "bit w i \<Longrightarrow> i < 4" for i by (metis bit_take_bit_iff)
    then show ?thesis by (intro bit_word_eqI) (auto simp: bit_simps)
  qed
  moreover have "unat (of_nat (n div 4) :: u8) = n div 4" using d by (simp add: unat_of_nat take_bit_eq_mod)
  ultimately have "drop_bit 4 (push_bit 4 (of_nat (n div 4) :: u8)) = of_nat (n div 4)" using d by simp
  then have "unat (drop_bit 4 (push_bit 4 (of_nat (n div 4))) * 4 :: u8) = n div 4 * 4"
    using d by (simp add: unat_word_ariths unat_of_nat take_bit_eq_mod)
  then show ?thesis using assms(1) by auto
qed

lemma parse_tcp_segment:
  assumes "length options mod 4 = 0" and "length options \<le> 40"
  shows "parseTCPHeader (tcp_front sp dp sq ak fl (tcpHeaderLen + length options) @ put_be16 c @ [0, 0] @ options @ payload) =
    Inr \<lparr>h_srcPort = sp, h_dstPort = dp, h_seq = sq, h_ack = ak,
      h_dataOff = push_bit 4 (of_nat ((tcpHeaderLen + length options) div 4)),
      h_flags = ucast (ucast fl :: u8), h_window = 0xffff, h_checksum = c, h_urgent = 0,
      h_options = options, h_payload = payload\<rparr>"
proof -
  obtain a1 a2 where a: "put_be16 sp = [a1, a2]" "be16 [a1, a2] = sp" by (rule put_be16_pair)
  obtain b1 b2 where b: "put_be16 dp = [b1, b2]" "be16 [b1, b2] = dp" by (rule put_be16_pair)
  obtain c1 c2 c3 c4 where cc: "put_be32 sq = [c1, c2, c3, c4]" "be32 [c1, c2, c3, c4] = sq" by (rule put_be32_quad)
  obtain d1 d2 d3 d4 where dd: "put_be32 ak = [d1, d2, d3, d4]" "be32 [d1, d2, d3, d4] = ak" by (rule put_be32_quad)
  obtain e1 e2 where e: "put_be16 0xffff = [e1, e2]" "be16 [e1, e2] = 0xffff" by (rule put_be16_pair)
  obtain f1 f2 where f: "put_be16 c = [f1, f2]" "be16 [f1, f2] = c" by (rule put_be16_pair)
  have z: "be16 [0, 0] = 0" by (simp add: be16_def be_nat_def)
  define n where "n = tcpHeaderLen + length options"
  define o1 where "o1 = (push_bit 4 (of_nat (n div 4)) :: u8)"
  have n: "unat (drop_bit 4 o1 * 4) = n" "20 \<le> n" "n = 20 + length options"
    unfolding o1_def using assms data_offset [of n] by (auto simp: n_def tcpHeaderLen_def)
  define front where "front = [a1, a2, b1, b2, c1, c2, c3, c4, d1, d2, d3, d4, o1, ucast fl, e1, e2, f1, f2, 0, 0]"
  have l: "length front = 20" by (simp add: front_def)
  have list: "tcp_front sp dp sq ak fl n @ put_be16 c @ [0, 0] @ options @ payload = front @ options @ payload"
    by (simp add: tcp_front_def a(1) b(1) cc(1) dd(1) e(1) f(1) o1_def front_def)
  have s: "slice (front @ options @ payload) i k = slice front i k" if "k \<le> 20" for i k
    using that l by (intro slice_append_left) simp
  have x: "(front @ options @ payload) ! i = front ! i" if "i < 20" for i
    using that l by (simp add: nth_append)
  have t: "slice (front @ options @ payload) 20 n = options" "drop n (front @ options @ payload) = payload"
    using l n(3) by (simp_all add: slice_def)
  have f12: "front ! 12 = o1" by (simp add: front_def)
  have len: "\<not> length options + (length payload + 20) < n" using n(3) by simp
  have o: "options = []" if "\<not> 20 < n" using that n(3) by simp
  show ?thesis
    unfolding n_def [symmetric] unfolding list o1_def [symmetric] parseTCPHeader_def Let_def tcpHeaderLen_def
    using o l len by (simp add: s x t f12 n(1)) (simp add: front_def slice_def a(2) b(2) cc(2) dd(2) e(2) f(2) z n(3))
qed

definition ip_front :: "u8 \<Rightarrow> nat \<Rightarrow> bytes" where
  "ip_front protocol n = [0x45, 0] @ put_be16 (of_nat (ipv4HeaderLen + n)) @ put_be16 0 @ put_be16 0 @ [64, protocol]"

lemma length_ip_front [simp]: "length (ip_front protocol n) = 10"
  by (simp add: ip_front_def)

lemma split_at: "n \<le> length xs \<Longrightarrow> \<exists>ys zs. xs = ys @ zs \<and> length ys = n"
  by (intro exI [of _ "take n xs"] exI [of _ "drop n xs"]) simp

lemma ipv4_header_built:
  assumes "length buf = ipv4HeaderLen" and "length src = 4" and "length dst = 4"
  shows "\<exists>c. buildIPv4HeaderInto buf src dst protocol n = Inr (ip_front protocol n @ put_be16 c @ src @ dst) \<and>
    ipv4Checksum (ip_front protocol n @ put_be16 c @ src @ dst) = 0"
proof -
  let ?F = "ip_front protocol n"
  obtain a b c d where buf: "buf = a @ b @ c @ d" "length a = 10" "length b = 2" "length c = 4" "length d = 4"
    using split_at [of 10 buf] split_at [of 2 "drop 10 buf"] split_at [of 4 "drop 12 buf"] assms(1)
    by (auto simp: ipv4HeaderLen_def)
  have p1: "splice buf 0 ?F = ?F @ b @ c @ d" using splice_here [of "[]" 0 ?F a "b @ c @ d"] buf by simp
  have p2: "copy_ip (?F @ b @ c @ d) 12 src = ?F @ b @ src @ d"
    using splice_here [of "?F @ b" 12 src c d] buf assms(2) by (simp add: copy_ip_def To4_def)
  have p3: "copy_ip (?F @ b @ src @ d) 16 dst = ?F @ b @ src @ dst"
    using splice_here [of "?F @ b @ src" 16 dst d "[]"] buf assms(2,3) by (simp add: copy_ip_def To4_def)
  have p4: "splice (?F @ b @ src @ dst) 10 [0, 0] = ?F @ [0, 0] @ src @ dst"
    using splice_here [of ?F 10 "[0, 0]" b "src @ dst"] buf by simp
  define p where "p = ?F @ [0, 0] @ src @ dst"
  have lp: "length p = 20" using assms(2,3) by (simp add: p_def)
  define check where "check = ipv4Checksum p"
  have p5: "splice p 10 (put_be16 check) = ?F @ put_be16 check @ src @ dst"
    unfolding p_def using splice_here [of ?F 10 "put_be16 check" "[0, 0]" "src @ dst"] by simp
  have "buildIPv4HeaderInto buf src dst protocol n = Inr (splice p 10 (put_be16 check))"
    using assms(1) lp unfolding buildIPv4HeaderInto_def Let_def ip_front_def [symmetric] p1 p2 p3 p4
    by (simp add: check_def p_def ipv4HeaderLen_def)
  moreover have "ipv4Checksum (splice p 10 (put_be16 check)) = 0"
    unfolding check_def ipv4Checksum_eq
  proof (rule checksum_verifies)
    show "slice p 10 (10 + 2) = [0, 0]" by (simp add: p_def slice_def)
    show "unat (0 :: u32) + word_sum p + 65535 < 2 ^ 32" using word_sum_le [of p] lp by simp
  qed (use lp in simp_all)
  ultimately show ?thesis unfolding p5 by blast
qed

lemma parse_ipv4_built:
  assumes "length src = 4" and "length dst = 4"
  shows "parseIPv4Header ((ip_front protocol n @ put_be16 c @ src @ dst) @ payload) =
    Inr \<lparr>ip_version = 4, ip_ihl = 5, ip_tos = 0, ip_length = of_nat (ipv4HeaderLen + n), ip_id = 0, ip_flags = 0,
      ip_ttl = 64, ip_protocol = protocol, ip_checksum = c, ip_src = src, ip_dst = dst, ip_options = [],
      ip_payload = payload\<rparr>"
proof -
  obtain s1 s2 s3 s4 where src: "src = [s1, s2, s3, s4]" using assms(1) by (auto simp: numeral_eq_Suc length_Suc_conv)
  obtain d1 d2 d3 d4 where dst: "dst = [d1, d2, d3, d4]" using assms(2) by (auto simp: numeral_eq_Suc length_Suc_conv)
  obtain a1 a2 where a: "put_be16 (of_nat (ipv4HeaderLen + n)) = [a1, a2]" "be16 [a1, a2] = of_nat (ipv4HeaderLen + n)"
    by (rule put_be16_pair)
  obtain c1 c2 where c: "put_be16 c = [c1, c2]" "be16 [c1, c2] = c" by (rule put_be16_pair)
  have z: "be16 [0, 0] = 0" "put_be16 0 = [0, 0]"
    by (simp_all add: be16_def be_nat_def put_be16_def be_bytes_def numeral_2_eq_2)
  show ?thesis
    unfolding ip_front_def z(2) unfolding a(1) c(1) src dst unfolding parseIPv4Header_def Let_def
    using a(2) by (simp add: ipv4HeaderLen_def slice_def c(2) z(1))
qed

lemma length_mac_bytes [simp]: "length (mac_bytes v) = 6"
  by (simp add: mac_bytes_def)

lemma ethernet_header_built:
  assumes "length buf = ethernetHeaderLen" and "macIsSet dst" and "macIsSet src"
  shows "buildEthernetHeaderInto buf dst src t = Inr (mac_bytes dst @ mac_bytes src @ put_be16 t)"
proof -
  obtain a b c where buf: "buf = a @ b @ c" "length a = 6" "length b = 6" "length c = 2"
    using split_at [of 6 buf] split_at [of 6 "drop 6 buf"] assms(1) by (auto simp: ethernetHeaderLen_def)
  have 1: "splice buf 0 (mac_bytes dst) = mac_bytes dst @ b @ c" using splice_here [of "[]" 0 "mac_bytes dst" a] buf by simp
  have 2: "splice (mac_bytes dst @ b @ c) 6 (mac_bytes src) = mac_bytes dst @ mac_bytes src @ c"
    using splice_here [of "mac_bytes dst" 6 "mac_bytes src" b] buf by simp
  have 3: "splice (mac_bytes dst @ mac_bytes src @ c) 12 (put_be16 t) = mac_bytes dst @ mac_bytes src @ put_be16 t"
    using splice_here [of "mac_bytes dst @ mac_bytes src" 12 "put_be16 t" c "[]"] buf by simp
  show ?thesis using assms by (simp add: buildEthernetHeaderInto_def writeMAC_def 1 2 3)
qed

lemma pad_options_props: "length (pad_options options) mod 4 = 0" "length options \<le> 40 \<Longrightarrow> length (pad_options options) \<le> 40"
proof -
  have "length options \<le> (length options + 3) div 4 * 4" by arith
  then have l: "length (pad_options options) =
      (if length options mod 4 \<noteq> 0 then (length options + 3) div 4 * 4 else length options)"
    by (simp add: pad_options_def)
  then show "length (pad_options options) mod 4 = 0" by simp
  assume "length options \<le> 40"
  then have "(length options + 3) div 4 \<le> 10" by arith
  with l \<open>length options \<le> 40\<close> show "length (pad_options options) \<le> 40" by simp
qed

lemma pseudo_header:
  assumes "length src = 4" and "length dst = 4"
  shows "\<exists>ps. pseudoHeaderChecksum src dst protocol n = Inr ps \<and> (n \<le> 65535 \<longrightarrow> unat ps \<le> 400000)"
proof -
  let ?w = "\<lambda>bs. ucast (be16 bs) :: u32"
  have le: "unat (x + y :: u32) \<le> unat x + unat y" for x y by (simp add: unat_word_ariths)
  have w: "unat (?w bs) \<le> 65535" for bs
    using unat_lt2p [of "be16 bs"] by (simp add: unsigned_ucast_eq take_bit_eq_mod)
  have u: "unat (ucast protocol :: u32) \<le> 255"
    using unat_lt2p [of protocol] by (simp add: unsigned_ucast_eq take_bit_eq_mod)
  have "unat (of_nat n :: u32) \<le> n" by (simp add: unat_of_nat take_bit_eq_mod)
  then have "unat (?w (slice src 0 2) + ?w (slice src 2 4) + ?w (slice dst 0 2) + ?w (slice dst 2 4) + ucast protocol + of_nat n) \<le> 400000"
    if "n \<le> 65535"
    using that u w [of "slice src 0 2"] w [of "slice src 2 4"] w [of "slice dst 0 2"] w [of "slice dst 2 4"]
    by (intro order_trans [OF le] order_trans [OF add_right_mono [OF le]]
        order_trans [OF add_right_mono [OF add_right_mono [OF le]]]
        order_trans [OF add_right_mono [OF add_right_mono [OF add_right_mono [OF le]]]]
        order_trans [OF add_right_mono [OF add_right_mono [OF add_right_mono [OF add_right_mono [OF le]]]]]) linarith
  then show ?thesis using assms by (auto simp: pseudoHeaderChecksum_def To4_def)
qed

text \<open>A frame of the stack, taken apart as a receiver does.\<close>

lemma tcp_frame_parses:
  assumes "\<And>n. length (getbuf n) = ethernetHeaderLen + n"
    and "length localIPv4 = 4" and "length (k_srcIP key) = 4"
    and "macIsSet (hostMAC ns)" and "macIsSet (guestMACForTransmit ns)"
    and "length options \<le> 40" and "length payload \<le> 65000"
  shows "\<exists>frame h t. sendTCPPacketWithOptions ns getbuf localIPv4 key seq ack flags payload options = Inr frame \<and>
    take 14 frame = mac_bytes (guestMACForTransmit ns) @ mac_bytes (hostMAC ns) @ put_be16 etherTypeIPv4 \<and>
    parseIPv4Header (drop 14 frame) = Inr h \<and> ipv4Checksum (take 20 (drop 14 frame)) = 0 \<and>
    unat (ip_length h) = length (drop 14 frame) \<and> ip_src h = localIPv4 \<and> ip_dst h = k_srcIP key \<and>
    ip_protocol h = tcpProtocolNumber \<and> tcpChecksum (ip_src h) (ip_dst h) (ip_payload h) = Inr 0 \<and>
    parseTCPHeader (ip_payload h) = Inr t \<and> h_srcPort t = k_dstPort key \<and> h_dstPort t = k_srcPort key \<and>
    h_seq t = seq \<and> h_ack t = ack \<and> h_flags t = ucast (ucast flags :: u8) \<and> h_options t = pad_options options \<and>
    h_payload t = payload"
proof -
  let ?opts = "pad_options options" and ?dst = "k_srcIP key"
  define hl where "hl = tcpHeaderLen + length ?opts"
  define tl where "tl = hl + length payload"
  define F where "F = tcp_front (k_dstPort key) (k_srcPort key) seq ack flags hl"
  define S where "S = F @ [0, 0] @ [0, 0] @ ?opts @ payload"
  have o: "length ?opts mod 4 = 0" "length ?opts \<le> 40" using pad_options_props assms(6) by auto
  have tl: "length S = tl" "tl \<le> 65060" using o(2) assms(7) by (simp_all add: S_def F_def tl_def hl_def tcpHeaderLen_def)
  have "length (getbuf (20 + tl)) = 34 + tl" using assms(1) [of "20 + tl"] by (simp add: ethernetHeaderLen_def)
  then obtain E I T where buf: "getbuf (20 + tl) = E @ I @ T" "length E = 14" "length I = 20" "length T = tl"
    using split_at [of 14 "getbuf (20 + tl)"] split_at [of 20 "drop 14 (getbuf (20 + tl))"] by auto
  have T: "slice (E @ I @ T) 34 (34 + tl) = T" using buf by (simp add: slice_def)
  have S: "tcp_segment T (k_dstPort key) (k_srcPort key) seq ack flags payload ?opts = S"
    unfolding S_def F_def hl_def by (rule tcp_segment_eq) (simp add: buf(4) tl_def hl_def)
  obtain ps where ps: "pseudoHeaderChecksum localIPv4 ?dst tcpProtocolNumber tl = Inr ps" "unat ps \<le> 400000"
    using pseudo_header [OF assms(2,3), of tcpProtocolNumber tl] tl(2) by auto
  define check where "check = checksumWithInitial S ps"
  define S' where "S' = F @ put_be16 check @ [0, 0] @ ?opts @ payload"
  have C: "tcpChecksum localIPv4 ?dst S = Inr check" by (simp add: tcpChecksum_def tl(1) ps(1) check_def)
  have S': "splice S 16 (put_be16 check) = S'" "length S' = tl"
    using splice_here [of F 16 "put_be16 check" "[0, 0]" "[0, 0] @ ?opts @ payload"] tl(1)
    by (simp_all add: S_def S'_def F_def)
  have f1: "splice (E @ I @ T) 34 S' = E @ I @ S'" using splice_here [of "E @ I" 34 S' T "[]"] buf S'(2) by simp
  obtain c where ip: "buildIPv4HeaderInto I localIPv4 ?dst tcpProtocolNumber tl =
        Inr (ip_front tcpProtocolNumber tl @ put_be16 c @ localIPv4 @ ?dst)"
      "ipv4Checksum (ip_front tcpProtocolNumber tl @ put_be16 c @ localIPv4 @ ?dst) = 0"
    using ipv4_header_built [of I localIPv4 ?dst tcpProtocolNumber tl] buf(3) assms(2,3) by (auto simp: ipv4HeaderLen_def)
  define H where "H = ip_front tcpProtocolNumber tl @ put_be16 c @ localIPv4 @ ?dst"
  have H: "length H = 20" using assms(2,3) by (simp add: H_def)
  have f2: "slice (E @ I @ S') 14 34 = I" "splice (E @ I @ S') 14 H = E @ H @ S'"
    using splice_here [of E 14 H I S'] buf H by (simp_all add: slice_def)
  define eth where "eth = mac_bytes (guestMACForTransmit ns) @ mac_bytes (hostMAC ns) @ put_be16 etherTypeIPv4"
  have f3: "buildEthernetHeaderInto E (guestMACForTransmit ns) (hostMAC ns) etherTypeIPv4 = Inr eth"
    unfolding eth_def using buf(2) assms(4,5) by (intro ethernet_header_built) (simp_all add: ethernetHeaderLen_def)
  have f4: "splice (E @ H @ S') 0 eth = eth @ H @ S'" "length eth = 14"
    using splice_here [of "[]" 0 eth E "H @ S'"] buf by (simp_all add: eth_def)
  have frame: "sendTCPPacketWithOptions ns getbuf localIPv4 key seq ack flags payload options = Inr (eth @ H @ S')"
    unfolding sendTCPPacketWithOptions_def Let_def hl_def [symmetric]
    unfolding tl_def [symmetric] ipv4HeaderLen_def ethernetHeaderLen_def buf(1)
    using T S C S' f1 f2 f3 f4 ip(1) assms(5) buf(2) by (simp add: H_def [symmetric] tl(1))
  have "checksumWithInitial S' ps = 0" unfolding S'(1) [symmetric] check_def
  proof (rule checksum_verifies)
    show "slice S 16 (16 + 2) = [0, 0]" by (simp add: S_def F_def slice_def)
    show "unat ps + word_sum S + 65535 < 2 ^ 32" using ps(2) word_sum_le [of S] tl by simp
  qed (use tl in \<open>simp_all add: S_def F_def\<close>)
  then have "tcpChecksum localIPv4 ?dst S' = Inr 0" by (simp add: tcpChecksum_def S'(2) ps(1))
  moreover obtain h where "parseIPv4Header (H @ S') = Inr h" "ip_length h = of_nat (ipv4HeaderLen + tl)" "ip_src h = localIPv4"
      "ip_dst h = ?dst" "ip_protocol h = tcpProtocolNumber" "ip_payload h = S'"
    using parse_ipv4_built [OF assms(2,3), of tcpProtocolNumber tl c S', folded H_def] by simp
  moreover have "unat (of_nat (ipv4HeaderLen + tl) :: u16) = 20 + tl"
    using tl(2) unfolding unat_of_nat by (simp add: take_bit_eq_mod ipv4HeaderLen_def)
  moreover obtain t where "parseTCPHeader S' = Inr t" "h_srcPort t = k_dstPort key" "h_dstPort t = k_srcPort key"
      "h_seq t = seq" "h_ack t = ack" "h_flags t = ucast (ucast flags :: u8)" "h_options t = ?opts" "h_payload t = payload"
    using parse_tcp_segment [OF o, of "k_dstPort key" "k_srcPort key" seq ack flags check payload, folded hl_def, folded F_def, folded S'_def]
    by simp
  moreover have "take 14 (eth @ H @ S') = eth" "drop 14 (eth @ H @ S') = H @ S'" "take 20 (H @ S') = H" "length (H @ S') = 20 + tl"
    using f4(2) H S'(2) by simp_all
  moreover have "ipv4Checksum H = 0" using ip(2) by (simp only: H_def)
  ultimately show ?thesis unfolding eth_def [symmetric]
    by (intro exI [of _ "eth @ H @ S'"] exI [of _ h] exI [of _ t]) (simp only: frame simp_thms)
qed

text \<open>
  C9 (roundtrip). Every TCP segment the stack sends is a frame that a receiver accepts and
  reads as it was meant, whatever bytes were left in the reused buffer: the Ethernet header
  has the two hardware addresses and the IPv4 type; the IPv4 header has a valid checksum, the
  right total length, source, destination and protocol; the TCP checksum is valid; and the
  TCP header and payload are those asked for.
\<close>

theorem TCP_frame_roundtrip:
  assumes "\<And>n. length (getbuf n) = ethernetHeaderLen + n"
    and "length localIPv4 = 4" and "length (k_srcIP key) = 4"
    and "macIsSet (hostMAC ns)" and "macIsSet (guestMACForTransmit ns)"
    and "length options \<le> 40" and "length payload \<le> 65000"
  shows "\<exists>frame h t. sendTCPPacketWithOptions ns getbuf localIPv4 key seq ack flags payload options = Inr frame \<and>
    take 14 frame = mac_bytes (guestMACForTransmit ns) @ mac_bytes (hostMAC ns) @ put_be16 etherTypeIPv4 \<and>
    parseIPv4Header (drop 14 frame) = Inr h \<and> ipv4Checksum (take 20 (drop 14 frame)) = 0 \<and>
    unat (ip_length h) = length (drop 14 frame) \<and> ip_src h = localIPv4 \<and> ip_dst h = k_srcIP key \<and>
    ip_protocol h = tcpProtocolNumber \<and> tcpChecksum (ip_src h) (ip_dst h) (ip_payload h) = Inr 0 \<and>
    parseTCPHeader (ip_payload h) = Inr t \<and> h_srcPort t = k_dstPort key \<and> h_dstPort t = k_srcPort key \<and>
    h_seq t = seq \<and> h_ack t = ack \<and> h_flags t = ucast (ucast flags :: u8) \<and> h_options t = pad_options options \<and>
    h_payload t = payload"
  using assms by (rule tcp_frame_parses)

theorem TCP_frame_roundtrip_witness:
  "\<exists>frame h t. sendTCPPacketWithOptions \<lparr>hostMAC = 0x020000000001, guestMAC = 0x020000000002, observedGuestMAC = macUnset\<rparr>
      (\<lambda>n. replicate (ethernetHeaderLen + n) 0xaa) [10, 42, 0, 1]
      \<lparr>k_srcIP = [10, 42, 0, 2], k_dstIP = [10, 42, 0, 1], k_srcPort = 40000, k_dstPort = 80\<rparr>
      7 9 0x12 [1, 2, 3] [2, 4, 5, 0xb4, 3] = Inr frame \<and>
    parseIPv4Header (drop 14 frame) = Inr h \<and> parseTCPHeader (ip_payload h) = Inr t \<and> h_payload t = [1, 2, 3]"
proof -
  let ?ns = "\<lparr>hostMAC = 0x020000000001, guestMAC = 0x020000000002, observedGuestMAC = macUnset\<rparr>"
  have m: "macIsSet (hostMAC ?ns)" "macIsSet (guestMACForTransmit ?ns)"
    by (simp_all add: macIsSet_def macUnset_def guestMACForTransmit_def)
  show ?thesis
    using TCP_frame_roundtrip [OF _ _ _ m, of "\<lambda>n. replicate (ethernetHeaderLen + n) 0xaa" "[10, 42, 0, 1]"
      "\<lparr>k_srcIP = [10, 42, 0, 2], k_dstIP = [10, 42, 0, 1], k_srcPort = 40000, k_dstPort = 80\<rparr>"
      "[2, 4, 5, 0xb4, 3]" "[1, 2, 3]" 7 9 "0x12", simplified length_replicate tcpFourTuple.simps, simplified]
    by blast
qed

lemma equalHardwareAddr_iff: "equalHardwareAddr a b \<longleftrightarrow> length a = 6 \<and> a = b"
proof -
  have "a = b" if "length a = 6" "length b = 6" "\<forall>i < 6. a ! i = b ! i" using that by (intro nth_equalityI) auto
  then show ?thesis unfolding equalHardwareAddr_def list_all_iff by auto
qed

lemma IP_Equal_v4: "length a = 4 \<Longrightarrow> length b = 4 \<Longrightarrow> IP_Equal a b \<longleftrightarrow> a = b"
  by (auto simp: IP_Equal_def)

lemma IP_Equal_zero: "length a = 4 \<Longrightarrow> IP_Equal a IPv4zero \<longleftrightarrow> a = [0, 0, 0, 0]"
  by (simp add: IP_Equal_def IPv4zero_def v4InV6Prefix_def)

lemma validateIPv4Source_iff:
  assumes "length ip4 = 4"
  shows "validateIPv4Source p ip4 = SourceValid \<longleftrightarrow>
    (\<exists>h. parseIPv4Header p = Inr h \<and> 5 \<le> unat (ip_ihl h) \<and>
       (ip_src h = ip4 \<or>
        ip_src h = [0, 0, 0, 0] \<and> ip_protocol h = udpProtocolNumber \<and> udpHeaderLen \<le> length (ip_payload h) \<and>
        be16 (slice (ip_payload h) 0 2) = 68 \<and> be16 (slice (ip_payload h) 2 4) = 67))"
proof (cases "length p < 20 \<or> drop_bit 4 (p ! 0) \<noteq> 4")
  case True
  then show ?thesis by (auto simp: validateIPv4Source_def parseIPv4Header_def ipv4HeaderLen_def Let_def)
next
  case False
  define n where "n = unat (p ! 0 AND 0x0f)"
  have l: "length (slice p 12 16) = 4" using False by (simp add: min_def) linarith
  have eq: "IP_Equal (slice p 12 16) ip4 \<longleftrightarrow> slice p 12 16 = ip4"
    "IP_Equal (slice p 12 16) IPv4zero \<longleftrightarrow> slice p 12 16 = [0, 0, 0, 0]"
    using IP_Equal_v4 [OF l assms] IP_Equal_zero [OF l] by (simp_all only:)
  have sl: "slice (drop (n * 4) p) i j = slice p (n * 4 + i) (n * 4 + j)" for i j
    by (simp add: slice_def take_drop add_ac)
  show ?thesis
  proof (cases "5 \<le> n \<and> n * 4 \<le> length p")
    case True
    define h where "h = \<lparr>ip_version = 4, ip_ihl = p ! 0 AND 0x0f, ip_tos = p ! 1, ip_length = be16 (slice p 2 4),
      ip_id = be16 (slice p 4 6), ip_flags = be16 (slice p 6 8), ip_ttl = p ! 8, ip_protocol = p ! 9,
      ip_checksum = be16 (slice p 10 12), ip_src = slice p 12 16, ip_dst = slice p 16 20,
      ip_options = (if 20 < n * 4 then slice p 20 (n * 4) else []), ip_payload = drop (n * 4) p\<rparr>"
    have "parseIPv4Header p = Inr h" using False True by (simp add: parseIPv4Header_def ipv4HeaderLen_def Let_def h_def n_def)
    moreover have "unat (ip_ihl h) = n" "ip_src h = slice p 12 16" "ip_protocol h = p ! 9" "ip_payload h = drop (n * 4) p"
      by (simp_all add: h_def n_def)
    moreover have "udpHeaderLen \<le> length p - n * 4 \<longleftrightarrow> \<not> length p < n * 4 + udpHeaderLen" using True by (auto simp: udpHeaderLen_def)
    ultimately show ?thesis
      using False True eq sl [of 0 2] sl [of 2 4]
      by (simp add: validateIPv4Source_def ipv4HeaderLen_def Let_def flip: n_def)
  next
    case False2: False
    then have "parseIPv4Header p = Inl HeaderLengthMismatch \<or> n < 5 \<and> (\<exists>h. parseIPv4Header p = Inr h \<and> unat (ip_ihl h) = n)"
      using False by (auto simp: parseIPv4Header_def ipv4HeaderLen_def Let_def n_def)
    moreover have "validateIPv4Source p ip4 = SourceMalformed"
      using False False2 by (auto simp: validateIPv4Source_def ipv4HeaderLen_def Let_def n_def)
    ultimately show ?thesis by auto
  qed
qed

text \<open>
  C13 (safety). Source validation and the IPv4 parser agree on what a guest's frame says. An IPv4 frame
  is accepted exactly when it carries the assigned hardware address, its payload parses as an
  IPv4 packet with a header of at least five words, and the source address that the parser
  reports is the lease, or is 0.0.0.0 in a UDP datagram from port 68 to port 67.
\<close>

theorem ValidateGuestSource_binds_IPv4:
  assumes "length frame \<ge> ethernetHeaderLen" and "length expectedMAC = 6" and "To4 lease = Some ip4"
    and "be16 (slice frame 12 14) = etherTypeIPv4"
  shows "ValidateGuestSource frame expectedMAC lease = SourceValid \<longleftrightarrow>
    slice frame 6 12 = expectedMAC \<and>
    (\<exists>h. parseIPv4Header (drop ethernetHeaderLen frame) = Inr h \<and> 5 \<le> unat (ip_ihl h) \<and>
       (ip_src h = ip4 \<or>
        ip_src h = [0, 0, 0, 0] \<and> ip_protocol h = udpProtocolNumber \<and> udpHeaderLen \<le> length (ip_payload h) \<and>
        be16 (slice (ip_payload h) 0 2) = 68 \<and> be16 (slice (ip_payload h) 2 4) = 67))"
proof -
  have ip4: "length ip4 = 4" using assms(3) by (auto simp: To4_def split: if_splits)
  have "ValidateGuestSource frame expectedMAC lease = SourceValid \<longleftrightarrow>
      slice frame 6 12 = expectedMAC \<and> validateIPv4Source (drop ethernetHeaderLen frame) ip4 = SourceValid"
    using assms equalHardwareAddr_iff [of expectedMAC "slice frame 6 12"] equalHardwareAddr_iff [of "slice frame 6 12" expectedMAC]
    by (auto simp: ValidateGuestSource_def etherTypeIPv4_def etherTypeARP_def)
  then show ?thesis using validateIPv4Source_iff [OF ip4, of "drop ethernetHeaderLen frame"] by simp
qed

theorem ValidateGuestSource_binds_IPv4_witness:
  "let frame = replicate 6 0xff @ [2, 0, 0, 0, 0, 2] @ [8, 0] @ [0x45, 0, 0, 28, 0, 0, 0, 0, 64, 17, 0, 0] @ replicate 4 0 @
     replicate 4 0xff @ [0, 68, 0, 67, 0, 8, 0, 0]
   in ValidateGuestSource frame [2, 0, 0, 0, 0, 2] [10, 42, 0, 2] = SourceValid \<and>
     (\<exists>h. parseIPv4Header (drop ethernetHeaderLen frame) = Inr h \<and> 5 \<le> unat (ip_ihl h))"
proof -
  let ?frame = "replicate 6 0xff @ [2, 0, 0, 0, 0, 2] @ [8, 0] @ [0x45, 0, 0, 28, 0, 0, 0, 0, 64, 17, 0, 0] @ replicate 4 0 @
     replicate 4 0xff @ [0, 68, 0, 67, 0, 8, 0, 0]"
  have "ValidateGuestSource ?frame [2, 0, 0, 0, 0, 2] [10, 42, 0, 2] = SourceValid" by code_simp
  moreover have "be16 (slice ?frame 12 14) = etherTypeIPv4" by code_simp
  ultimately show ?thesis
    using ValidateGuestSource_binds_IPv4 [of ?frame "[2, 0, 0, 0, 0, 2]" "[10, 42, 0, 2]" "[10, 42, 0, 2]"]
    unfolding Let_def by (simp add: ethernetHeaderLen_def To4_def) blast
qed

end
