(* ===== verification/TcpConn.thy ===== *)
theory TcpConn
  imports Tcp Packets
begin

text \<open>
  TCP connections of the user-mode network stack: \<^verbatim>\<open>tcpConn\<close> and its methods in
  \<^verbatim>\<open>src/internal/netstack/netstack.go\<close>, over the structures of \<open>Tcp\<close>.

  A connection is the record \<open>tcpConn\<close>. The frames it sends, the clock, the listener it
  is offered to and the table of connections belong to the rest of the stack: they are the
  environment \<open>conn_env\<close> of the methods, which act on a pair of a connection and a
  world. Each method runs without interruption by another one. \<^verbatim>\<open>sendCond.Broadcast\<close> has
  no state; a method that waits on the condition returns, and the caller runs it again.
  The channel \<^verbatim>\<open>recvBuf\<close> is a list of at most 512 chunks, where \<open>None\<close> is the nil chunk
  that signals the end of the stream; \<^verbatim>\<open>Close\<close> closes it in the same critical section that
  sets \<^verbatim>\<open>closed\<close>. The retransmission timer is the duration it was armed with.
\<close>

section \<open>State\<close>

datatype tcpState =
  tcpStateSynRcvd | tcpStateSynSent | tcpStateEstablished | tcpStateFinWait | tcpStateClosed

text \<open>The channels of an active open: none, waiting, or completed with an error or none.\<close>

datatype dial = NoDial | Dialing | Dialed "error option"

record tcpConn =
  c_listener :: bool
  c_key :: tcpFourTuple
  c_onEstablished :: bool
  c_dial :: dial
  c_localIPv4 :: bytes
  c_state :: tcpState
  c_guestSeq :: u32
  c_hostSeq :: u32
  c_sendAcked :: u32
  c_peerWnd :: u16
  c_recvBuf :: "bytes option list"
  c_readPending :: bytes
  c_readDeadline :: "int option"
  c_closed :: bool
  c_writeClosed :: bool
  c_sendBuf :: tcpSendBuffer
  c_rttEst :: tcpRTTEstimator
  c_retxTimer :: "int option"
  c_retxCount :: int
  c_oooRecvBuf :: tcpRecvBuffer
  c_mss :: u16
  c_peerMSS :: u16
  c_peerWndScale :: u8
  c_ourWndScale :: u8
  c_wndScaleOK :: bool
  c_congCtrl :: tcpCongestionControl
  c_dupAcks :: int
  c_nagleEnabled :: bool
  c_nagleBuf :: bytes

text \<open>A segment handed to \<^verbatim>\<open>sendTCPPacketWithOptions\<close>.\<close>

record tcp_out =
  x_seq :: u32
  x_ack :: u32
  x_flags :: u16
  x_payload :: bytes
  x_options :: bytes

record 'w conn_env =
  env_send :: "bytes \<Rightarrow> tcpFourTuple \<Rightarrow> tcp_out \<Rightarrow> ('w, unit) op"
  env_now :: "'w \<Rightarrow> int"
  env_offer :: "tcpFourTuple \<Rightarrow> 'w \<Rightarrow> bool \<times> 'w"
  env_established :: "tcpFourTuple \<Rightarrow> 'w \<Rightarrow> 'w"
  env_forget :: "tcpFourTuple \<Rightarrow> 'w \<Rightarrow> 'w"

type_synonym ('w, 'a) cop = "(tcpConn \<times> 'w, 'a) op"
type_synonym 'w cstate = "tcpConn \<times> 'w"

definition defaultMSS :: u16 where "defaultMSS = 1460"
definition sendBufCapacity :: int where "sendBufCapacity = 256 * 1024"
definition maxOOOSegments :: int where "maxOOOSegments = 16"
definition recvBufCapacity :: nat where "recvBufCapacity = 512"
definition maxPayload :: nat where "maxPayload = 1460"
definition maxRetries :: int where "maxRetries = 10"

definition newTCPConn :: "u32 \<Rightarrow> bool \<Rightarrow> tcpFourTuple \<Rightarrow> u32 \<Rightarrow> u16 \<Rightarrow> bytes \<Rightarrow> bool \<Rightarrow> tcpConn" where
  "newTCPConn initialSeq listener key guestSeq peerWnd localIPv4 onEstablished =
     \<lparr>c_listener = listener, c_key = key, c_onEstablished = onEstablished, c_dial = NoDial, c_localIPv4 = localIPv4,
      c_state = tcpStateSynRcvd, c_guestSeq = guestSeq + 1, c_hostSeq = initialSeq, c_sendAcked = initialSeq,
      c_peerWnd = (if peerWnd = 0 then 0xffff else peerWnd), c_recvBuf = [], c_readPending = [], c_readDeadline = None,
      c_closed = False, c_writeClosed = False, c_sendBuf = newTCPSendBuffer sendBufCapacity,
      c_rttEst = newTCPRTTEstimator, c_retxTimer = None, c_retxCount = 0,
      c_oooRecvBuf = newTCPRecvBuffer maxOOOSegments, c_mss = defaultMSS, c_peerMSS = defaultMSS,
      c_peerWndScale = 0, c_ourWndScale = 0, c_wndScaleOK = False,
      c_congCtrl = newTCPCongestionControl defaultMSS, c_dupAcks = 0, c_nagleEnabled = False, c_nagleBuf = []\<rparr>"

definition completeDial :: "error option \<Rightarrow> tcpConn \<Rightarrow> tcpConn" where
  "completeDial err c = (case c_dial c of Dialing \<Rightarrow> c\<lparr>c_dial := Dialed err\<rparr> | _ \<Rightarrow> c)"

section \<open>Sending control segments\<close>

text \<open>\<^verbatim>\<open>sendTCPPacket\<close> with the result dropped, as most callers do.\<close>

fun send_quiet :: "'w conn_env \<Rightarrow> u32 \<Rightarrow> u32 \<Rightarrow> u16 \<Rightarrow> bytes \<Rightarrow> bytes \<Rightarrow> 'w cstate \<Rightarrow> 'w cstate" where
  "send_quiet E sq ak flags payload options (c, w) =
     (c, snd (env_send E (c_localIPv4 c) (c_key c)
        \<lparr>x_seq = sq, x_ack = ak, x_flags = flags, x_payload = payload, x_options = options\<rparr> w))"

fun sendSyn :: "'w conn_env \<Rightarrow> ('w, unit) cop" where
  "sendSyn E (c, w) =
     (case env_send E (c_localIPv4 c) (c_key c) \<lparr>x_seq = c_hostSeq c, x_ack = 0, x_flags = tcpFlagSYN, x_payload = [],
        x_options = buildSynAckOptions defaultMSS 7 True\<rparr> w of (r, w1) \<Rightarrow> (r, (c\<lparr>c_hostSeq := c_hostSeq c + 1\<rparr>, w1)))"

fun retransmitSyn :: "'w conn_env \<Rightarrow> ('w, unit) cop" where
  "retransmitSyn E (c, w) =
     (if c_closed c \<or> c_state c \<noteq> tcpStateSynSent then (Inl NetClosed, (c, w))
      else case env_send E (c_localIPv4 c) (c_key c) \<lparr>x_seq = c_hostSeq c - 1, x_ack = 0, x_flags = tcpFlagSYN,
        x_payload = [], x_options = buildSynAckOptions defaultMSS 7 True\<rparr> w of (r, w1) \<Rightarrow> (r, (c, w1)))"

fun sendSynAck :: "'w conn_env \<Rightarrow> 'w cstate \<Rightarrow> 'w cstate" where
  "sendSynAck E (c, w) =
     send_quiet E (c_hostSeq c) (c_guestSeq c) (tcpFlagSYN OR tcpFlagACK) []
       (buildSynAckOptions defaultMSS (c_ourWndScale c) (c_wndScaleOK c)) (c\<lparr>c_hostSeq := c_hostSeq c + 1\<rparr>, w)"

fun sendAck :: "'w conn_env \<Rightarrow> 'w cstate \<Rightarrow> 'w cstate" where
  "sendAck E (c, w) = send_quiet E (c_hostSeq c) (c_guestSeq c) tcpFlagACK [] [] (c, w)"

fun sendFin :: "'w conn_env \<Rightarrow> 'w cstate \<Rightarrow> 'w cstate" where
  "sendFin E (c, w) =
     send_quiet E (c_hostSeq c) (c_guestSeq c) (tcpFlagFIN OR tcpFlagACK) [] [] (c\<lparr>c_hostSeq := c_hostSeq c + 1\<rparr>, w)"

definition applyPeerOptions :: "tcpOptions \<Rightarrow> tcpConn \<Rightarrow> tcpConn" where
  "applyPeerOptions opts c =
     (let c1 = (if hasMSS opts then c\<lparr>c_peerMSS := opt_mss opts\<rparr> else c)
      in if hasWndScale opts then c1\<lparr>c_peerWndScale := opt_wndScale opts, c_wndScaleOK := True, c_ourWndScale := 7\<rparr> else c1)"

section \<open>The retransmission timer\<close>

definition startRetxTimer :: "tcpConn \<Rightarrow> tcpConn" where
  "startRetxTimer c = (if c_retxTimer c \<noteq> None then c else c\<lparr>c_retxTimer := Some (getRTO (c_rttEst c))\<rparr>)"

definition restartRetxTimer :: "tcpConn \<Rightarrow> tcpConn" where
  "restartRetxTimer c = c\<lparr>c_retxTimer := Some (getRTO (c_rttEst c))\<rparr>"

definition stopRetxTimer :: "tcpConn \<Rightarrow> tcpConn" where
  "stopRetxTimer c = c\<lparr>c_retxTimer := None\<rparr>"

section \<open>Closing\<close>

text \<open>What \<^verbatim>\<open>Close\<close> does to the connection before it sends a FIN.\<close>

definition mark_closed :: "tcpConn \<Rightarrow> tcpConn" where
  "mark_closed c =
     (let c1 = completeDial (Some NetClosed) (c\<lparr>c_state := tcpStateClosed, c_closed := True\<rparr>);
          c2 = stopRetxTimer (c1\<lparr>c_readPending := []\<rparr>)
      in c2\<lparr>c_sendBuf := SendBuffer_clear (c_sendBuf c2), c_oooRecvBuf := RecvBuffer_clear (c_oooRecvBuf c2)\<rparr>)"

fun Conn_Close :: "'w conn_env \<Rightarrow> 'w cstate \<Rightarrow> 'w cstate" where
  "Conn_Close E (c, w) =
     (if c_closed c then (c, w)
      else
        let needFin = (c_state c = tcpStateEstablished \<and> \<not> c_writeClosed c)
        in (case (if needFin then sendFin E (mark_closed c, w) else (mark_closed c, w)) of
              (c1, w1) \<Rightarrow> (c1, env_forget E (c_key c1) w1)))"

fun CloseWrite :: "'w conn_env \<Rightarrow> ('w, unit) cop" where
  "CloseWrite E (c, w) =
     (if c_closed c \<or> c_writeClosed c then (Inr (), (c, w))
      else if c_state c \<noteq> tcpStateEstablished then (Inl NetClosed, (c, w))
      else (Inr (), sendFin E (c\<lparr>c_writeClosed := True\<rparr>, w)))"

definition SetNoDelay :: "bool \<Rightarrow> tcpConn \<Rightarrow> tcpConn" where
  "SetNoDelay noDelay c = c\<lparr>c_nagleEnabled := \<not> noDelay\<rparr>"

definition SetReadDeadline :: "int option \<Rightarrow> tcpConn \<Rightarrow> tcpConn" where
  "SetReadDeadline t c = c\<lparr>c_readDeadline := t\<rparr>"

section \<open>Receiving\<close>

definition enqueueData :: "bytes option \<Rightarrow> tcpConn \<Rightarrow> tcpConn" where
  "enqueueData data c =
     (if c_closed c then c
      else if length (c_recvBuf c) < recvBufCapacity then c\<lparr>c_recvBuf := c_recvBuf c @ [data]\<rparr> else c)"

text \<open>An acknowledgement of new data.\<close>

fun ack_advances :: "'w conn_env \<Rightarrow> tcpHeader \<Rightarrow> ('w, unit) cop" where
  "ack_advances E hdr (c, w) =
     (let bytesAcked = int (unat (h_ack hdr - c_sendAcked c)); c1 = c\<lparr>c_sendAcked := h_ack hdr, c_dupAcks := 0\<rparr>
      in case onAck bytesAcked (c_congCtrl c1) of
           Inl e \<Rightarrow> (Inl e, (c1, w))
         | Inr cc \<Rightarrow>
             (case SendBuffer_ack (env_now E w) (h_ack hdr) (c_sendBuf c1) of
                ((_, rttSample), sb) \<Rightarrow>
                  let c2 = c1\<lparr>c_congCtrl := cc, c_sendBuf := sb,
                        c_rttEst := (case rttSample of None \<Rightarrow> c_rttEst c | Some r \<Rightarrow> resetBackoff (RTT_update r (c_rttEst c)))\<rparr>
                  in if 0 < SendBuffer_len sb then (Inr (), (restartRetxTimer c2, w))
                     else let c3 = stopRetxTimer c2
                     in if c_nagleBuf c3 \<noteq> [] then
                          let nagleData = c_nagleBuf c3; sq = c_hostSeq c3;
                              c4 = c3\<lparr>c_nagleBuf := [], c_hostSeq := sq + of_nat (length nagleData)\<rparr>
                          in (Inr (), send_quiet E sq (c_guestSeq c3) (tcpFlagACK OR tcpFlagPSH) nagleData [] (c4, w))
                        else (Inr (), (c3, w))))"

text \<open>A duplicate acknowledgement, with fast retransmission on the third one.\<close>

fun ack_duplicate :: "'w conn_env \<Rightarrow> 'w cstate \<Rightarrow> 'w cstate" where
  "ack_duplicate E (c, w) =
     (case onDupAck (c_congCtrl c) of
        (fire, cc) \<Rightarrow>
          let c1 = c\<lparr>c_dupAcks := c_dupAcks c + 1, c_congCtrl := cc\<rparr>
          in if fire then
               (case SendBuffer_oldest (c_sendBuf c1) of
                  None \<Rightarrow> (c1, w)
                | Some seg \<Rightarrow> send_quiet E (s_seqStart seg) (c_guestSeq c1) tcpFlagACK (s_payload seg) [] (c1, w))
             else (c1, w))"

text \<open>The acknowledgement part of \<^verbatim>\<open>handleSegment\<close>.\<close>

fun handle_ack :: "'w conn_env \<Rightarrow> tcpHeader \<Rightarrow> ('w, unit) cop" where
  "handle_ack E hdr (c, w) =
     (if h_flags hdr AND tcpFlagACK = 0 then (Inr (), (c, w))
      else
        let oldWnd = c_peerWnd c; c0 = c\<lparr>c_peerWnd := h_window hdr\<rparr>
        in (case (if c_sendAcked c0 < h_ack hdr then ack_advances E hdr (c0, w)
                  else if h_ack hdr = c_sendAcked c0 \<and> 0 < SendBuffer_len (c_sendBuf c0) \<and> h_payload hdr = [] \<and>
                    h_flags hdr AND (tcpFlagSYN OR tcpFlagFIN OR tcpFlagRST) = 0 \<and> h_window hdr = oldWnd
                  then (Inr (), ack_duplicate E (c0, w)) else (Inr (), (c0, w))) of
             (Inl e, s) \<Rightarrow> (Inl e, s)
           | (Inr _, (c1, w1)) \<Rightarrow>
               if c_hostSeq c1 < h_ack hdr then (Inr (), (c1\<lparr>c_hostSeq := h_ack hdr, c_sendAcked := h_ack hdr\<rparr>, w1))
               else (Inr (), (c1, w1))))"

text \<open>The peer's FIN in the established state, after any payload.\<close>

fun peer_closed :: "'w conn_env \<Rightarrow> bool \<Rightarrow> 'w cstate \<Rightarrow> 'w cstate" where
  "peer_closed E writeClosed (c, w) =
     (let s1 = sendAck E (enqueueData None c, w) in if writeClosed then s1 else sendFin E s1)"

fun handle_established :: "'w conn_env \<Rightarrow> tcpHeader \<Rightarrow> 'w cstate \<Rightarrow> 'w cstate" where
  "handle_established E hdr (c, w) =
     (let payload = h_payload hdr
      in if payload \<noteq> [] then
           if h_seq hdr \<noteq> c_guestSeq c then
             let seg = \<lparr>o_seqStart = h_seq hdr, o_seqEnd = h_seq hdr + of_nat (length payload), o_payload = payload\<rparr>;
                 c1 = (if seqGT (h_seq hdr) (c_guestSeq c)
                       then c\<lparr>c_oooRecvBuf := snd (RecvBuffer_insert seg (c_oooRecvBuf c))\<rparr> else c)
             in sendAck E (c1, w)
           else
             (case collectContiguous (c_guestSeq c + of_nat (length payload)) (c_oooRecvBuf c) of
                (contiguous, next, rb) \<Rightarrow>
                  let peerClosed = (h_flags hdr AND tcpFlagFIN \<noteq> 0);
                      c1 = c\<lparr>c_guestSeq := next, c_oooRecvBuf := rb\<rparr>;
                      c2 = (if peerClosed then c1\<lparr>c_guestSeq := next + 1, c_state := tcpStateFinWait\<rparr> else c1);
                      c3 = fold (\<lambda>seg. enqueueData (Some seg)) contiguous (enqueueData (Some payload) c2)
                  in if peerClosed then peer_closed E (c_writeClosed c) (c3, w) else sendAck E (c3, w))
         else if h_flags hdr AND tcpFlagFIN \<noteq> 0 then
           peer_closed E (c_writeClosed c) (c\<lparr>c_guestSeq := c_guestSeq c + 1, c_state := tcpStateFinWait\<rparr>, w)
         else if h_flags hdr AND tcpFlagRST \<noteq> 0 then Conn_Close E (c, w)
         else (c, w))"

text \<open>
  \<^verbatim>\<open>handleSegment\<close>. It calls itself once, from the state \<open>tcpStateSynRcvd\<close>, after it has
  left that state: the argument \<open>again\<close> stands for that call. The options of a SYN-ACK
  may make \<^verbatim>\<open>parseTCPOptions\<close> loop for ever.
\<close>

fun segment_body :: "('w conn_env \<Rightarrow> tcpHeader \<Rightarrow> ('w, unit) cop) \<Rightarrow> 'w conn_env \<Rightarrow> tcpHeader \<Rightarrow> ('w, unit) cop" where
  "segment_body again E hdr (c, w) =
     (if c_closed c then (Inl NetClosed, (c, w))
      else case handle_ack E hdr (c, w) of
        (Inl e, s) \<Rightarrow> (Inl e, s)
      | (Inr _, (c1, w1)) \<Rightarrow>
          (case c_state c1 of
             tcpStateSynSent \<Rightarrow>
               if h_flags hdr AND tcpFlagRST \<noteq> 0 then
                 (Inr (), Conn_Close E (completeDial (Some NetClosed) (c1\<lparr>c_state := tcpStateClosed\<rparr>), w1))
               else if h_flags hdr AND (tcpFlagSYN OR tcpFlagACK) = tcpFlagSYN OR tcpFlagACK \<and> h_ack hdr = c_hostSeq c1 then
                 (case parseTCPOptions (h_options hdr) of
                    None \<Rightarrow> (Inl Diverges, (c1, w1))
                  | Some opts \<Rightarrow>
                      (case sendAck E ((applyPeerOptions opts c1)\<lparr>c_guestSeq := h_seq hdr + 1, c_peerWnd := h_window hdr,
                              c_state := tcpStateEstablished\<rparr>, w1) of
                         (c2, w2) \<Rightarrow> (Inr (), (completeDial None c2, w2))))
               else (Inr (), (c1, w1))
           | tcpStateSynRcvd \<Rightarrow>
               if h_flags hdr AND tcpFlagACK = 0 \<or> h_ack hdr \<noteq> c_hostSeq c1 then (Inr (), (c1, w1))
               else
                 let c2 = c1\<lparr>c_state := tcpStateEstablished\<rparr>;
                     hasData = (h_payload hdr \<noteq> [] \<or> h_flags hdr AND (tcpFlagFIN OR tcpFlagRST) \<noteq> 0);
                     s3 = (if c_listener c2 then
                             (case env_offer E (c_key c2) w1 of
                                (taken, w2) \<Rightarrow> if taken then (c2, w2) else Conn_Close E (c2, w2))
                           else if c_onEstablished c2 then (c2, env_established E (c_key c2) w1) else (c2, w1))
                 in if hasData then again E hdr s3 else (Inr (), s3)
           | tcpStateEstablished \<Rightarrow> (Inr (), handle_established E hdr (c1, w1))
           | tcpStateFinWait \<Rightarrow>
               if h_flags hdr AND tcpFlagACK \<noteq> 0 then (Inr (), Conn_Close E (c1\<lparr>c_state := tcpStateClosed\<rparr>, w1))
               else (Inr (), (c1, w1))
           | tcpStateClosed \<Rightarrow> (Inr (), (c1, w1))))"

definition handleSegment :: "'w conn_env \<Rightarrow> tcpHeader \<Rightarrow> ('w, unit) cop" where
  "handleSegment = segment_body (segment_body (\<lambda>E hdr s. (Inl Diverges, s)))"

section \<open>Reading\<close>

text \<open>
  The outcome of a read: bytes, the end of the stream, an error, or that the call waits for
  the channel. The clock is read once.
\<close>

datatype read_result = ReadBytes bytes | ReadEOF | ReadError error | ReadWaits

definition Conn_Read :: "nat \<Rightarrow> int \<Rightarrow> tcpConn \<Rightarrow> read_result \<times> tcpConn" where
  "Conn_Read len now c =
     (if c_readPending c \<noteq> [] then
        (ReadBytes (take len (c_readPending c)), c\<lparr>c_readPending := drop len (c_readPending c)\<rparr>)
      else if (case c_readDeadline c of None \<Rightarrow> False | Some t \<Rightarrow> t - now \<le> 0) then (ReadError Timeout, c)
      else case c_recvBuf c of
        [] \<Rightarrow> (if c_closed c then ReadError NetClosed else ReadWaits, c)
      | None # rest \<Rightarrow> (ReadEOF, c\<lparr>c_recvBuf := rest\<rparr>)
      | Some data # rest \<Rightarrow>
          let c1 = c\<lparr>c_recvBuf := rest\<rparr>
          in (ReadBytes (take len data),
              if len < length data \<and> \<not> c_closed c then c1\<lparr>c_readPending := drop len data\<rparr> else c1))"

definition nextReadPayload :: "int \<Rightarrow> tcpConn \<Rightarrow> read_result \<times> tcpConn" where
  "nextReadPayload now c =
     (if c_readPending c \<noteq> [] then (ReadBytes (c_readPending c), c\<lparr>c_readPending := []\<rparr>)
      else if (case c_readDeadline c of None \<Rightarrow> False | Some t \<Rightarrow> t - now \<le> 0) then (ReadError Timeout, c)
      else case c_recvBuf c of
        [] \<Rightarrow> (if c_closed c then ReadError NetClosed else ReadWaits, c)
      | None # rest \<Rightarrow> (ReadEOF, c\<lparr>c_recvBuf := rest\<rparr>)
      | Some data # rest \<Rightarrow> (ReadBytes data, c\<lparr>c_recvBuf := rest\<rparr>))"

text \<open>\<^verbatim>\<open>tryNextReadPayload\<close> does not wait: \<open>ReadWaits\<close> stands for its \<^verbatim>\<open>ok = false\<close>.\<close>

definition tryNextReadPayload :: "tcpConn \<Rightarrow> read_result \<times> tcpConn" where
  "tryNextReadPayload c =
     (if c_readPending c \<noteq> [] then (ReadBytes (c_readPending c), c\<lparr>c_readPending := []\<rparr>)
      else case c_recvBuf c of
        [] \<Rightarrow> (if c_closed c then ReadError NetClosed else ReadWaits, c)
      | None # rest \<Rightarrow> (ReadEOF, c\<lparr>c_recvBuf := rest\<rparr>)
      | Some data # rest \<Rightarrow> (ReadBytes data, c\<lparr>c_recvBuf := rest\<rparr>))"

section \<open>Writing\<close>

text \<open>
  One pass of the loop of \<^verbatim>\<open>Write\<close>: a chunk is written, the call waits for the send
  window, it waits for space in the retransmission queue with a segment it has already
  sent, or it fails.
\<close>

datatype write_step = WroteChunk nat | WaitsWindow | WaitsSpace tcpSendSegment nat | WriteFails error

text \<open>The send window: \<^verbatim>\<open>peerWnd << c.peerWndScale\<close> is zero for a shift of 32 or more.\<close>

definition sendWindow :: "tcpConn \<Rightarrow> u32" where
  "sendWindow c = (if c_wndScaleOK c then push_bit (unat (c_peerWndScale c)) (ucast (c_peerWnd c)) else ucast (c_peerWnd c))"

text \<open>The largest chunk that may be sent now, \<^verbatim>\<open>maxChunk\<close>.\<close>

definition sendRoom :: "tcpConn \<Rightarrow> nat" where
  "sendRoom c = min maxPayload (unat (sendWindow c - (c_hostSeq c - c_sendAcked c)))"

text \<open>The rest of the pass once the segment is in the retransmission queue.\<close>

definition write_appended :: "int \<Rightarrow> tcpConn \<Rightarrow> tcpConn" where
  "write_appended now c =
     (let c1 = c\<lparr>c_sendBuf := snd (SendBuffer_ack now (c_sendAcked c) (c_sendBuf c))\<rparr>
      in if 0 < SendBuffer_len (c_sendBuf c1) then startRetxTimer c1 else c1)"

text \<open>
  Appending a sent segment. If there is no space, what has been acknowledged meanwhile is
  released before a second attempt.
\<close>

definition write_append :: "int \<Rightarrow> tcpSendSegment \<Rightarrow> nat \<Rightarrow> tcpConn \<Rightarrow> write_step \<times> tcpConn" where
  "write_append now seg n c =
     (case SendBuffer_append seg (c_sendBuf c) of
        (True, sb) \<Rightarrow> (WroteChunk n, write_appended now (c\<lparr>c_sendBuf := sb\<rparr>))
      | (False, _) \<Rightarrow>
          if c_closed c then (WriteFails NetClosed, c)
          else
            let c1 = c\<lparr>c_sendBuf := snd (SendBuffer_ack now (c_sendAcked c) (c_sendBuf c))\<rparr>
            in (case SendBuffer_append seg (c_sendBuf c1) of
                  (True, sb) \<Rightarrow> (WroteChunk n, write_appended now (c1\<lparr>c_sendBuf := sb\<rparr>))
                | (False, _) \<Rightarrow> (WaitsSpace seg n, c1)))"

text \<open>
  The bytes to send, after any bytes left in the Nagle buffer, and those that stay in it;
  then sending them.
\<close>

definition next_data :: "tcpConn \<Rightarrow> bytes \<Rightarrow> bytes \<times> bytes" where
  "next_data c chunk =
     (if c_nagleBuf c = [] then (chunk, [])
      else (take (sendRoom c) (c_nagleBuf c @ chunk), drop (sendRoom c) (c_nagleBuf c @ chunk)))"

fun write_send :: "'w conn_env \<Rightarrow> u16 \<Rightarrow> bytes \<times> bytes \<Rightarrow> 'w cstate \<Rightarrow> write_step \<times> 'w cstate" where
  "write_send E flags (data, keep) (c, w) =
     (let sq = c_hostSeq c; c1 = c\<lparr>c_nagleBuf := keep, c_hostSeq := sq + of_nat (length data)\<rparr>
      in (case env_send E (c_localIPv4 c) (c_key c)
            \<lparr>x_seq = sq, x_ack = c_guestSeq c, x_flags = flags, x_payload = data, x_options = []\<rparr> w of
            (Inl e, w1) \<Rightarrow> (WriteFails e, (c1, w1))
          | (Inr _, w1) \<Rightarrow>
              (case write_append (env_now E w1) \<lparr>s_seqStart = sq, s_seqEnd = sq + of_nat (length data),
                  s_payload = data, s_sentAt = env_now E w1, s_retxCount = 0\<rparr> (length data) c1 of
                 (r, c2) \<Rightarrow> (r, (c2, w1)))))"

fun write_chunk :: "'w conn_env \<Rightarrow> bytes \<Rightarrow> nat \<Rightarrow> 'w cstate \<Rightarrow> write_step \<times> 'w cstate" where
  "write_chunk E b written (c, w) =
     (let infl = c_hostSeq c - c_sendAcked c; wnd = sendWindow c; chunk = take (sendRoom c) (drop written b);
          dk = next_data c chunk
      in if c_closed c \<or> c_writeClosed c then (WriteFails NetClosed, (c, w))
         else if \<not> (0 < wnd \<and> infl < wnd) then (WaitsWindow, (c, w))
         else if c_nagleEnabled c \<and> length chunk < maxPayload \<and> 0 < infl
         then (WroteChunk (length chunk), (c\<lparr>c_nagleBuf := c_nagleBuf c @ chunk\<rparr>, w))
         else write_send E
           (if written + length (fst dk) = length b \<and> snd dk = [] then tcpFlagACK OR tcpFlagPSH else tcpFlagACK) dk (c, w))"

declare write_send.simps [simp del]
declare write_chunk.simps [simp del]

lemma write_append_WroteChunk: "write_append now seg n c = (WroteChunk k, c1) \<Longrightarrow> k = n"
  by (auto simp: write_append_def Let_def split: prod.splits bool.splits if_splits)

lemma sendRoom_pos: "c_hostSeq c - c_sendAcked c < sendWindow c \<Longrightarrow> 0 < sendRoom c"
proof -
  assume "c_hostSeq c - c_sendAcked c < sendWindow c"
  then have "sendWindow c - (c_hostSeq c - c_sendAcked c) \<noteq> 0" by auto
  then show ?thesis by (simp add: sendRoom_def maxPayload_def unat_gt_0)
qed

lemma write_send_WroteChunk: "write_send E flags (data, keep) (c, w) = (WroteChunk n, s1) \<Longrightarrow> n = length data"
  by (auto simp: write_send.simps Let_def split: prod.splits sum.splits dest: write_append_WroteChunk)

lemma write_chunk_positive:
  assumes "write_chunk E b written (c, w) = (WroteChunk n, s1)" and "written < length b"
  shows "0 < n"
proof (cases "c_hostSeq c - c_sendAcked c < sendWindow c")
  case True
  let ?chunk = "take (sendRoom c) (drop written b)"
  have chunk: "0 < length ?chunk" using sendRoom_pos [OF True] assms(2) by simp
  obtain data keep where d: "next_data c ?chunk = (data, keep)" by (rule prod.exhaust)
  have "0 < length data"
    using d chunk sendRoom_pos [OF True] by (auto simp: next_data_def split: if_splits)
  then show ?thesis using assms(1) chunk True unfolding write_chunk.simps Let_def d
    by (auto simp del: length_take length_drop split: if_splits dest: write_send_WroteChunk)
next
  case False
  then show ?thesis using assms(1) unfolding write_chunk.simps by (auto simp: Let_def split: if_splits)
qed

lemma write_chunk_pos: "write_chunk E b written s = (WroteChunk n, s1) \<Longrightarrow> written < length b \<Longrightarrow> 0 < n"
  by (cases s) (auto dest: write_chunk_positive)

text \<open>
  \<^verbatim>\<open>Write\<close> from a position of its argument on: the bytes it has written, and whether it
  finished, failed, waits for the window, or waits for space with a segment in hand.
\<close>

datatype write_result = WriteOk | WriteError error | WriteWaitsWindow | WriteWaitsSpace tcpSendSegment nat

function Conn_Write :: "'w conn_env \<Rightarrow> bytes \<Rightarrow> nat \<Rightarrow> 'w cstate \<Rightarrow> (nat \<times> write_result) \<times> 'w cstate" where
  "Conn_Write E b written s =
     (if written < length b then
        (case write_chunk E b written s of
           (WroteChunk n, s1) \<Rightarrow> Conn_Write E b (written + n) s1
         | (WriteFails e, s1) \<Rightarrow> ((written, WriteError e), s1)
         | (WaitsWindow, s1) \<Rightarrow> ((written, WriteWaitsWindow), s1)
         | (WaitsSpace seg n, s1) \<Rightarrow> ((written, WriteWaitsSpace seg n), s1))
      else ((length b, WriteOk), s))"
  by pat_completeness auto
termination
  by (relation "measure (\<lambda>(_, b, written, _). length b - written)") (auto dest: write_chunk_pos [OF sym])

declare Conn_Write.simps [simp del]

section \<open>Retransmission\<close>

text \<open>What a timeout changes before the oldest segment is sent again.\<close>

definition note_retx :: "int \<Rightarrow> tcpSendSegment \<Rightarrow> int \<Rightarrow> tcpConn \<Rightarrow> tcpConn" where
  "note_retx now seg coalescedCount c =
     (let c1 = (if 0 < s_retxCount seg then c\<lparr>c_congCtrl := onTimeout (c_congCtrl c)\<rparr> else c);
          c2 = c1\<lparr>c_rttEst := RTT_backoff (c_rttEst c1), c_retxCount := c_retxCount c1 + 1\<rparr>
      in c2\<lparr>c_sendBuf := markRetransmittedN now coalescedCount (c_sendBuf c2)\<rparr>)"

fun onRetxTimeout :: "'w conn_env \<Rightarrow> 'w cstate \<Rightarrow> 'w cstate" where
  "onRetxTimeout E (c, w) =
     (if c_closed c then (c, w)
      else
        let mss = (if c_mss c = 0 then defaultMSS else c_mss c)
        in (case oldestCoalesced (int (unat mss)) (c_sendBuf c) of
              None \<Rightarrow> (c\<lparr>c_retxTimer := None\<rparr>, w)
            | Some (seg, coalescedCount) \<Rightarrow>
                let age = env_now E w - s_sentAt seg; rto = getRTO (c_rttEst c)
                in if age < rto div 2 then (c\<lparr>c_retxTimer := Some (rto - age)\<rparr>, w)
                   else if maxRetries \<le> s_retxCount seg then Conn_Close E (c, w)
                   else
                     let c1 = note_retx (env_now E w) seg coalescedCount c
                     in (case send_quiet E (s_seqStart seg) (c_guestSeq c1) tcpFlagACK (s_payload seg) [] (c1, w) of
                           (c2, w1) \<Rightarrow> (c2\<lparr>c_retxTimer := Some (getRTO (c_rttEst c2))\<rparr>, w1))))"

lemmas conn_defs [simp del] = send_quiet.simps sendSyn.simps retransmitSyn.simps sendSynAck.simps sendAck.simps sendFin.simps
  Conn_Close.simps CloseWrite.simps ack_advances.simps ack_duplicate.simps handle_ack.simps peer_closed.simps
  handle_established.simps segment_body.simps onRetxTimeout.simps

end
