(* ===== verification/TcpStream.thy ===== *)
theory TcpStream
  imports TcpConn
begin

text \<open>
  The byte streams of a TCP connection. Runs of a connection interleave segments of the
  guest, reads and writes of the application, the retransmission timer and closing in any
  order. This theory shows what the connection sends, \<open>TcpReceive\<close> what it delivers.

  What the connection needs of the rest of the stack is the locale \<open>conn_host\<close>.
\<close>

section \<open>Runs\<close>

datatype conn_event =
  Segment tcpHeader | ReadCall nat | WriteCall bytes | RetrySpace | TimerFires | CloseWriteCall | CloseCall | NoDelay

text \<open>
  A connection, its world, the bytes written and read so far, whether a read reported the
  end of the stream, the segment a write waits to queue, and whether handling a segment
  failed other than because the connection was closed.
\<close>

record 'w run =
  r_conn :: tcpConn
  r_world :: 'w
  r_wrote :: bytes
  r_read :: bytes
  r_eof :: bool
  r_waiting :: "(tcpSendSegment \<times> nat) option"
  r_failed :: bool

abbreviation run_put :: "'w cstate \<Rightarrow> 'w run \<Rightarrow> 'w run" where
  "run_put s r \<equiv> r\<lparr>r_conn := fst s, r_world := snd s\<rparr>"

fun conn_step :: "'w conn_env \<Rightarrow> conn_event \<Rightarrow> 'w run \<Rightarrow> 'w run" where
  "conn_step E (Segment hdr) r =
     (case handleSegment E hdr (r_conn r, r_world r) of
        (res, s) \<Rightarrow> (run_put s r)\<lparr>r_failed := r_failed r \<or> (res \<noteq> Inr () \<and> res \<noteq> Inl NetClosed)\<rparr>)"
| "conn_step E (ReadCall n) r =
     (case Conn_Read n (env_now E (r_world r)) (r_conn r) of
        (ReadBytes bs, c) \<Rightarrow> r\<lparr>r_conn := c, r_read := r_read r @ bs\<rparr>
      | (ReadEOF, c) \<Rightarrow> r\<lparr>r_conn := c, r_eof := True\<rparr>
      | (_, c) \<Rightarrow> r\<lparr>r_conn := c\<rparr>)"
| "conn_step E (WriteCall b) r =
     (if r_waiting r \<noteq> None then r
      else case Conn_Write E b 0 (r_conn r, r_world r) of
        ((n, WriteWaitsSpace seg k), s) \<Rightarrow> (run_put s r)\<lparr>r_wrote := r_wrote r @ take (n + k) b, r_waiting := Some (seg, k)\<rparr>
      | ((n, _), s) \<Rightarrow> (run_put s r)\<lparr>r_wrote := r_wrote r @ take n b\<rparr>)"
| "conn_step E RetrySpace r =
     (case r_waiting r of
        None \<Rightarrow> r
      | Some (seg, k) \<Rightarrow>
          (case write_append (env_now E (r_world r)) seg k (r_conn r) of
             (WaitsSpace _ _, c) \<Rightarrow> r\<lparr>r_conn := c\<rparr>
           | (_, c) \<Rightarrow> r\<lparr>r_conn := c, r_waiting := None\<rparr>))"
| "conn_step E TimerFires r = run_put (onRetxTimeout E (r_conn r, r_world r)) r"
| "conn_step E CloseWriteCall r = run_put (snd (CloseWrite E (r_conn r, r_world r))) r"
| "conn_step E CloseCall r = run_put (Conn_Close E (r_conn r, r_world r)) r"
| "conn_step E NoDelay r = r\<lparr>r_conn := SetNoDelay True (r_conn r)\<rparr>"

text \<open>Runs whose events satisfy a guard in the state in which they happen.\<close>

inductive conn_run :: "'w conn_env \<Rightarrow> ('w run \<Rightarrow> conn_event \<Rightarrow> bool) \<Rightarrow> 'w run \<Rightarrow> 'w run \<Rightarrow> bool"
  for E G r0 where
  conn_start: "conn_run E G r0 r0"
| conn_next: "conn_run E G r0 r \<Longrightarrow> G r ev \<Longrightarrow> conn_run E G r0 (conn_step E ev r)"

section \<open>What a connection needs of the stack\<close>

text \<open>
  \<open>up\<close> holds of the addresses of a connection in a world where the stack can send for it;
  \<open>sent\<close> is what went out on the wire.
\<close>

locale conn_host =
  fixes E :: "'w conn_env"
    and sent :: "'w \<Rightarrow> tcp_out list"
    and up :: "bytes \<Rightarrow> tcpFourTuple \<Rightarrow> 'w \<Rightarrow> bool"
  assumes send_up: "up ip key w \<Longrightarrow> length (x_payload x) \<le> maxPayload \<Longrightarrow> length (x_options x) \<le> 40 \<Longrightarrow>
      \<exists>w1 y. env_send E ip key x w = (Inr (), w1) \<and> up ip key w1 \<and> sent w1 = sent w @ [y] \<and>
        x_seq y = x_seq x \<and> x_payload y = x_payload x"
    and offer_up: "up ip key w \<Longrightarrow> up ip key (snd (env_offer E k w)) \<and> sent (snd (env_offer E k w)) = sent w"
    and established_up: "up ip key w \<Longrightarrow> up ip key (env_established E k w) \<and> sent (env_established E k w) = sent w"
    and forget_up: "up ip key w \<Longrightarrow> up ip key (env_forget E k w) \<and> sent (env_forget E k w) = sent w"

section \<open>The retransmission queue holds the unacknowledged stream\<close>

text \<open>
  The queue holds the stream \<open>S\<close> from position \<open>pos\<close> to the bytes \<open>W\<close> at its end that are
  not queued yet; everything below \<open>a\<close> is acknowledged, and \<open>f\<close> is 1 after a FIN.
\<close>

definition queue_ok :: "u32 \<Rightarrow> bytes \<Rightarrow> bytes \<Rightarrow> nat \<Rightarrow> nat \<Rightarrow> nat \<Rightarrow> tcpSendBuffer \<Rightarrow> bool" where
  "queue_ok s S W a pos f sb \<longleftrightarrow>
     pos \<le> a \<and> a \<le> length S + f \<and> pos \<le> length S \<and> in_sequence s pos (sb_segments sb) \<and>
     concat (map s_payload (sb_segments sb)) @ W = drop pos S \<and>
     (\<forall>seg\<in>set (sb_segments sb). length (s_payload seg) \<le> maxPayload) \<and>
     accounted sb \<and> sb_capacity sb = sendBufCapacity"

lemma length_concat_payload: "length (concat (map s_payload segs)) = payload_bytes segs"
  by (induction segs) simp_all

lemma queue_length: "queue_ok s S W a pos f sb \<Longrightarrow> pos + payload_bytes (sb_segments sb) + length W = length S"
  unfolding queue_ok_def using length_concat_payload [of "sb_segments sb"]
  by (auto dest!: arg_cong [where f = length])

lemma queue_bound: "queue_ok s S W a pos f sb \<Longrightarrow> payload_bytes (sb_segments sb) \<le> 262144"
  by (auto simp: queue_ok_def accounted_def sendBufCapacity_def)

lemma queue_ack:
  assumes q: "queue_ok s S W a pos f sb" and "a \<le> b" and "b \<le> length S + f" and "f \<le> 1" and "length W \<le> maxPayload"
  shows "\<exists>pos1. queue_ok s S W b pos1 f (snd (SendBuffer_ack now (s + of_nat b) sb))"
proof -
  have seq: "in_sequence s pos (sb_segments sb)" "pos \<le> b" using q assms(2) by (auto simp: queue_ok_def)
  have "b < pos + 2 ^ 31"
    using queue_length [OF q] queue_bound [OF q] assms(3-5) by (simp add: maxPayload_def)
  moreover have "pos + payload_bytes (sb_segments sb) < pos + 2 ^ 31" using queue_bound [OF q] by simp
  ultimately obtain acked rest where r: "sb_segments sb = acked @ rest"
      "filter (\<lambda>seg. seqLTE (s_seqEnd seg) (s + of_nat b)) (sb_segments sb) = acked"
      "filter (\<lambda>seg. \<not> seqLTE (s_seqEnd seg) (s + of_nat b)) (sb_segments sb) = rest"
      "pos + payload_bytes acked \<le> b" "in_sequence s (pos + payload_bytes acked) rest"
    using acked_prefix [OF seq] by blast
  have sb: "snd (SendBuffer_ack now (s + of_nat b) sb) =
      sb\<lparr>sb_segments := rest, sb_used := sb_used sb - int (payload_bytes acked)\<rparr>"
    by (simp add: SendBuffer_ack_def ack_loop_filter r(2,3))
  have d: "concat (map s_payload acked) @ concat (map s_payload rest) @ W = drop pos S" using q r(1) by (simp add: queue_ok_def)
  have "concat (map s_payload rest) @ W = drop (pos + payload_bytes acked) S"
    using arg_cong [OF d, of "drop (payload_bytes acked)"]
    by (simp add: length_concat_payload add.commute)
  moreover have "pos + payload_bytes acked \<le> length S" using queue_length [OF q] r(1) by simp
  ultimately have "queue_ok s S W b (pos + payload_bytes acked) f (snd (SendBuffer_ack now (s + of_nat b) sb))"
    using q r assms(3) by (simp add: queue_ok_def sb accounted_def)
  then show ?thesis by blast
qed

lemma in_sequence_append: "in_sequence s pos (xs @ ys) \<longleftrightarrow> in_sequence s pos xs \<and> in_sequence s (pos + payload_bytes xs) ys"
  by (induction xs arbitrary: pos) (auto simp: add.assoc)

lemma queue_append:
  assumes q: "queue_ok s S W a pos f sb" and "SendBuffer_append seg sb = (True, sb1)" and "s_payload seg = W"
    and "s_seqStart seg = s + of_nat (length S - length W)" and "s_seqEnd seg = s + of_nat (length S)" and "length W \<le> maxPayload"
  shows "queue_ok s S [] a pos f sb1"
proof -
  have l: "pos + payload_bytes (sb_segments sb) = length S - length W" "length W \<le> length S" using queue_length [OF q] by simp_all
  then have "s_seqStart seg = s + of_nat (pos + payload_bytes (sb_segments sb))"
    "s_seqEnd seg = s + of_nat (pos + payload_bytes (sb_segments sb) + length W)"
    using assms(4,5) by (simp_all add: l(1))
  then show ?thesis using q assms(2,3,6)
    by (auto simp: queue_ok_def SendBuffer_append_def Let_def in_sequence_append accounted_def split: if_splits)
qed

lemma queue_extend: "queue_ok s S [] a pos f sb \<Longrightarrow> queue_ok s (S @ W) W a pos f sb"
  by (auto simp: queue_ok_def)

lemma in_sequence_mark: "in_sequence s pos (markRetransmittedN_loop now n segs) \<longleftrightarrow> in_sequence s pos segs"
  by (induction now n segs arbitrary: pos rule: markRetransmittedN_loop.induct) auto

lemma mark_payloads: "map s_payload (markRetransmittedN_loop now n segs) = map s_payload segs"
  by (induction now n segs rule: markRetransmittedN_loop.induct) auto

lemma mark_sizes:
  "(\<forall>seg\<in>set (markRetransmittedN_loop now n segs). length (s_payload seg) \<le> k) \<longleftrightarrow> (\<forall>seg\<in>set segs. length (s_payload seg) \<le> k)"
  by (induction now n segs rule: markRetransmittedN_loop.induct) auto

lemma queue_mark: "queue_ok s S W a pos f sb \<Longrightarrow> queue_ok s S W a pos f (markRetransmittedN now n sb)"
  by (simp add: queue_ok_def markRetransmittedN_def in_sequence_mark mark_payloads mark_sizes accounted_def payload_bytes_mark)

text \<open>A segment on the wire carries the bytes of the stream at its sequence number.\<close>

definition on_stream :: "u32 \<Rightarrow> bytes \<Rightarrow> u32 \<Rightarrow> bytes \<Rightarrow> bool" where
  "on_stream s S sq payload \<longleftrightarrow>
     (\<exists>pos. sq = s + of_nat pos \<and> pos + length payload \<le> length S \<and> payload = take (length payload) (drop pos S))"

lemma on_stream_append: "on_stream s S sq payload \<Longrightarrow> on_stream s (S @ W) sq payload"
proof -
  assume "on_stream s S sq payload"
  then obtain pos where p: "sq = s + of_nat pos" "pos + length payload \<le> length S" "payload = take (length payload) (drop pos S)"
    by (auto simp: on_stream_def)
  then have "payload = take (length payload) (drop pos (S @ W))" by simp
  with p show ?thesis by (auto simp: on_stream_def simp del: drop_append intro!: exI [of _ pos])
qed

lemma queue_oldest:
  assumes q: "queue_ok s S W a pos f sb" and "sb_segments sb = seg # segs"
  shows "on_stream s S (s_seqStart seg) (s_payload seg)" "length (s_payload seg) \<le> maxPayload"
proof -
  have "s_payload seg @ concat (map s_payload segs) @ W = drop pos S" using assms by (simp add: queue_ok_def)
  from arg_cong [OF this, of "take (length (s_payload seg))"]
  have "s_payload seg = take (length (s_payload seg)) (drop pos S)" by simp
  then show "on_stream s S (s_seqStart seg) (s_payload seg)"
    using assms queue_length [OF q] by (auto simp: on_stream_def queue_ok_def intro!: exI [of _ pos])
  show "length (s_payload seg) \<le> maxPayload" using assms by (simp add: queue_ok_def)
qed

section \<open>The sending side of an open connection\<close>

definition fin_len :: "tcpConn \<Rightarrow> nat" where
  "fin_len c = (if c_writeClosed c \<or> c_state c = tcpStateFinWait then 1 else 0)"

definition wait_bytes :: "(tcpSendSegment \<times> nat) option \<Rightarrow> bytes" where
  "wait_bytes wt = (case wt of None \<Rightarrow> [] | Some (seg, k) \<Rightarrow> s_payload seg)"

definition wait_ok :: "u32 \<Rightarrow> bytes \<Rightarrow> (tcpSendSegment \<times> nat) option \<Rightarrow> bool" where
  "wait_ok s S wt \<longleftrightarrow> (case wt of None \<Rightarrow> True | Some (seg, k) \<Rightarrow>
     s_seqStart seg = s + of_nat (length S - length (s_payload seg)) \<and> s_seqEnd seg = s + of_nat (length S) \<and>
     length (s_payload seg) \<le> maxPayload)"

text \<open>
  The sending side after the stream \<open>S\<close> was written: the sequence numbers stand for
  positions of the stream, the queue holds what is not acknowledged, and the retransmission
  timer runs while there is anything in it.
\<close>

definition send_core :: "u32 \<Rightarrow> bytes \<Rightarrow> (tcpSendSegment \<times> nat) option \<Rightarrow> tcpConn \<Rightarrow> bool" where
  "send_core s S wt c \<longleftrightarrow>
     (c_state c = tcpStateEstablished \<or> c_state c = tcpStateFinWait) \<and>
     c_hostSeq c = s + of_nat (length S + fin_len c) \<and> wait_ok s S wt \<and>
     (\<exists>a pos. c_sendAcked c = s + of_nat a \<and> queue_ok s S (wait_bytes wt) a pos (fin_len c) (c_sendBuf c)) \<and>
     (sb_segments (c_sendBuf c) \<noteq> [] \<longrightarrow> c_retxTimer c \<noteq> None) \<and>
     \<not> c_nagleEnabled c \<and> c_nagleBuf c = [] \<and> cc_ok (c_congCtrl c)"

text \<open>Sequence numbers of the stream are compared as the code does, without wrap-around.\<close>

lemma seq_unat: "unat s + n < 2 ^ 32 \<Longrightarrow> unat (s + of_nat n :: u32) = unat s + n"
  by (simp add: unat_word_ariths unat_of_nat take_bit_eq_mod)

lemma seq_less: "unat s + n < 2 ^ 32 \<Longrightarrow> unat s + m < 2 ^ 32 \<Longrightarrow> (s + of_nat n :: u32) < s + of_nat m \<longleftrightarrow> n < m"
  by (simp add: word_less_nat_alt seq_unat)

lemma seq_inj: "unat s + n < 2 ^ 32 \<Longrightarrow> unat s + m < 2 ^ 32 \<Longrightarrow> (s + of_nat n :: u32) = s + of_nat m \<longleftrightarrow> n = m"
  using of_nat_u32_inj [of n m] by auto

lemma wait_bytes_le: "wait_ok s S wt \<Longrightarrow> length (wait_bytes wt) \<le> maxPayload"
  by (auto simp: wait_ok_def wait_bytes_def split: option.splits)

lemma send_coreI:
  assumes "c_state c = tcpStateEstablished \<or> c_state c = tcpStateFinWait" and "c_hostSeq c = s + of_nat (length S + fin_len c)"
    and "wait_ok s S wt" and "c_sendAcked c = s + of_nat a" and "queue_ok s S (wait_bytes wt) a pos (fin_len c) (c_sendBuf c)"
    and "sb_segments (c_sendBuf c) \<noteq> [] \<Longrightarrow> c_retxTimer c \<noteq> None" and "\<not> c_nagleEnabled c" and "c_nagleBuf c = []"
    and "cc_ok (c_congCtrl c)"
  shows "send_core s S wt c"
  using assms unfolding send_core_def by blast

text \<open>Fields the sending side does not depend on.\<close>

lemma send_core_other [simp]:
  "send_core s S wt (c\<lparr>c_peerWnd := x1\<rparr>) = send_core s S wt c"
  "send_core s S wt (c\<lparr>c_recvBuf := x2\<rparr>) = send_core s S wt c"
  "send_core s S wt (c\<lparr>c_readPending := x3\<rparr>) = send_core s S wt c"
  "send_core s S wt (c\<lparr>c_rttEst := x4\<rparr>) = send_core s S wt c"
  "send_core s S wt (c\<lparr>c_retxCount := x5\<rparr>) = send_core s S wt c"
  "send_core s S wt (c\<lparr>c_oooRecvBuf := x6\<rparr>) = send_core s S wt c"
  "send_core s S wt (c\<lparr>c_dupAcks := x7\<rparr>) = send_core s S wt c"
  "send_core s S wt (c\<lparr>c_guestSeq := x8\<rparr>) = send_core s S wt c"
  by (simp_all add: send_core_def fin_len_def)

lemma send_core_cc: "send_core s S wt c \<Longrightarrow> cc_ok cc \<Longrightarrow> send_core s S wt (c\<lparr>c_congCtrl := cc\<rparr>)"
  by (simp add: send_core_def fin_len_def)

lemma send_core_timer: "send_core s S wt c \<Longrightarrow> send_core s S wt (c\<lparr>c_retxTimer := Some d\<rparr>)"
  by (simp add: send_core_def fin_len_def)

lemma send_core_idle: "send_core s S wt c \<Longrightarrow> sb_segments (c_sendBuf c) = [] \<Longrightarrow> send_core s S wt (c\<lparr>c_retxTimer := None\<rparr>)"
  by (simp add: send_core_def fin_len_def)

lemma cc_events_ok:
  "cc_ok cc \<Longrightarrow> \<exists>cc1. onAck n cc = Inr cc1 \<and> cc_ok cc1"
  "cc_ok cc \<Longrightarrow> cc_ok (snd (onDupAck cc))"
  "cc_ok cc \<Longrightarrow> cc_ok (onTimeout cc)"
  using cc_step_ok [of cc "CcAck n"] cc_step_ok [of cc CcDup] cc_step_ok [of cc CcTimeout] by auto

text \<open>
  The wire since the start of a run, after the segments \<open>base\<close>, and the whole of what is kept
  about a connection and its world.
\<close>

definition wire_ok :: "u32 \<Rightarrow> bytes \<Rightarrow> tcp_out list \<Rightarrow> tcp_out list \<Rightarrow> bool" where
  "wire_ok s S base outs \<longleftrightarrow>
     (\<exists>news. outs = base @ news \<and> (\<forall>y\<in>set news. x_payload y \<noteq> [] \<longrightarrow> on_stream s S (x_seq y) (x_payload y)))"

definition net_ok :: "('w \<Rightarrow> tcp_out list) \<Rightarrow> (bytes \<Rightarrow> tcpFourTuple \<Rightarrow> 'w \<Rightarrow> bool) \<Rightarrow> tcp_out list \<Rightarrow> u32 \<Rightarrow> bytes \<Rightarrow>
    bytes \<Rightarrow> tcpFourTuple \<Rightarrow> 'w \<Rightarrow> bool" where
  "net_ok sent up base s S ip key w \<longleftrightarrow> wire_ok s S base (sent w) \<and> up ip key w"

fun send_good :: "('w \<Rightarrow> tcp_out list) \<Rightarrow> (bytes \<Rightarrow> tcpFourTuple \<Rightarrow> 'w \<Rightarrow> bool) \<Rightarrow> tcp_out list \<Rightarrow> u32 \<Rightarrow> bytes \<Rightarrow>
    (tcpSendSegment \<times> nat) option \<Rightarrow> 'w cstate \<Rightarrow> bool" where
  "send_good sent up base s S wt (c, w) \<longleftrightarrow>
     net_ok sent up base s S (c_localIPv4 c) (c_key c) w \<and> (\<not> c_closed c \<longrightarrow> send_core s S wt c)"

lemma wire_ok_append: "wire_ok s S base outs \<Longrightarrow> wire_ok s (S @ W) base outs"
  unfolding wire_ok_def using on_stream_append by blast

lemma completeDial_sel [simp]:
  "c_closed (completeDial e c) = c_closed c" "c_localIPv4 (completeDial e c) = c_localIPv4 c" "c_key (completeDial e c) = c_key c"
  "c_hostSeq (completeDial e c) = c_hostSeq c"
  by (simp_all add: completeDial_def split: dial.splits)

lemma timer_sel [simp]:
  "c_closed (stopRetxTimer c) = c_closed c" "c_localIPv4 (stopRetxTimer c) = c_localIPv4 c" "c_key (stopRetxTimer c) = c_key c"
  "c_closed (restartRetxTimer c) = c_closed c" "c_localIPv4 (restartRetxTimer c) = c_localIPv4 c"
  "c_key (restartRetxTimer c) = c_key c"
  by (simp_all add: stopRetxTimer_def restartRetxTimer_def)

text \<open>The part of a connection that handling an acknowledgement leaves alone.\<close>

definition same_rx :: "tcpConn \<Rightarrow> tcpConn \<Rightarrow> bool" where
  "same_rx c c1 \<longleftrightarrow> c_state c1 = c_state c \<and> c_closed c1 = c_closed c \<and> c_writeClosed c1 = c_writeClosed c \<and>
     c_localIPv4 c1 = c_localIPv4 c \<and> c_key c1 = c_key c \<and> c_guestSeq c1 = c_guestSeq c \<and> c_recvBuf c1 = c_recvBuf c \<and>
     c_readPending c1 = c_readPending c \<and> c_readDeadline c1 = c_readDeadline c \<and> c_oooRecvBuf c1 = c_oooRecvBuf c \<and>
     c_listener c1 = c_listener c \<and> c_onEstablished c1 = c_onEstablished c"

lemma ack_advances_core:
  assumes core: "send_core s S wt c" and "c_sendAcked c = s + of_nat a" and "h_ack hdr = s + of_nat b"
    and "queue_ok s S (wait_bytes wt) a pos (fin_len c) (c_sendBuf c)" and "a \<le> b" and "b \<le> length S + fin_len c"
  shows "\<exists>c1. ack_advances E hdr (c, w) = (Inr (), (c1, w)) \<and> send_core s S wt c1 \<and> same_rx c c1 \<and>
    c_hostSeq c1 = c_hostSeq c \<and> c_sendAcked c1 = h_ack hdr"
proof -
  obtain cc where cc: "onAck (uint (h_ack hdr - c_sendAcked c)) (c_congCtrl c) = Inr cc" "cc_ok cc"
    using cc_events_ok(1) core by (fastforce simp: send_core_def)
  obtain x rtt sb where sb: "SendBuffer_ack (env_now E w) (h_ack hdr) (c_sendBuf c) = ((x, rtt), sb)" by (metis prod.exhaust_sel)
  have "length (wait_bytes wt) \<le> maxPayload" "fin_len c \<le> 1" using core wait_bytes_le by (auto simp: send_core_def fin_len_def)
  then obtain pos1 where q: "queue_ok s S (wait_bytes wt) b pos1 (fin_len c) sb"
    using queue_ack [OF assms(4-6), of "env_now E w"] sb assms(3) by auto
  have n: "c_nagleBuf c = []" using core by (simp add: send_core_def)
  define est where "est = (case rtt of None \<Rightarrow> c_rttEst c | Some r \<Rightarrow> resetBackoff (RTT_update r (c_rttEst c)))"
  define c2 where "c2 = c\<lparr>c_sendAcked := h_ack hdr, c_dupAcks := 0, c_congCtrl := cc, c_sendBuf := sb, c_rttEst := est\<rparr>"
  have "ack_advances E hdr (c, w) =
      (Inr (), (if 0 < SendBuffer_len sb then restartRetxTimer c2 else stopRetxTimer c2, w))"
    using n by (auto simp: ack_advances.simps Let_def cc(1) sb c2_def est_def stopRetxTimer_def)
  moreover have "send_core s S wt (if 0 < SendBuffer_len sb then restartRetxTimer c2 else stopRetxTimer c2)"
    (is "send_core s S wt ?c3")
  proof (rule send_coreI [where a = b and pos = pos1])
    have "fin_len ?c3 = fin_len c" by (simp add: fin_len_def c2_def restartRetxTimer_def stopRetxTimer_def)
    then show "queue_ok s S (wait_bytes wt) b pos1 (fin_len ?c3) (c_sendBuf ?c3)" "c_hostSeq ?c3 = s + of_nat (length S + fin_len ?c3)"
      using q core by (simp_all add: c2_def restartRetxTimer_def stopRetxTimer_def send_core_def)
  qed (use core cc(2) assms(3) in \<open>auto simp: send_core_def c2_def restartRetxTimer_def stopRetxTimer_def SendBuffer_len_def\<close>)
  ultimately show ?thesis
    by (auto simp: same_rx_def c2_def restartRetxTimer_def stopRetxTimer_def)
qed

lemma enqueueData_recvBuf: "\<exists>q. enqueueData data c = c\<lparr>c_recvBuf := q\<rparr>"
proof -
  have "c = c\<lparr>c_recvBuf := c_recvBuf c\<rparr>" by simp
  then show ?thesis unfolding enqueueData_def by metis
qed

lemma enqueueAll_recvBuf: "\<exists>q. fold (\<lambda>seg. enqueueData (Some seg)) segs c = c\<lparr>c_recvBuf := q\<rparr>"
proof (induction segs arbitrary: c)
  case Nil
  have "c = c\<lparr>c_recvBuf := c_recvBuf c\<rparr>" by simp
  then show ?case by (metis fold_simps(1))
next
  case (Cons seg segs)
  obtain q where "enqueueData (Some seg) c = c\<lparr>c_recvBuf := q\<rparr>" using enqueueData_recvBuf by blast
  then show ?case using Cons.IH [of "c\<lparr>c_recvBuf := q\<rparr>"] by auto
qed

lemma queue_fin: "queue_ok s S W a pos f sb \<Longrightarrow> f \<le> g \<Longrightarrow> queue_ok s S W a pos g sb"
  by (auto simp: queue_ok_def)

text \<open>The FIN that answers the peer's FIN, or one sent by \<^verbatim>\<open>CloseWrite\<close>.\<close>

lemma send_core_fin:
  assumes "send_core s S wt c" and "fin_len c = 0"
    and "c1 = c\<lparr>c_hostSeq := c_hostSeq c + 1, c_writeClosed := wc, c_state := st\<rparr>"
    and "st = tcpStateEstablished \<and> wc \<or> st = tcpStateFinWait"
  shows "send_core s S wt c1"
proof -
  obtain a pos where q: "c_sendAcked c = s + of_nat a" "queue_ok s S (wait_bytes wt) a pos 0 (c_sendBuf c)"
    using assms(1,2) by (auto simp: send_core_def)
  have f: "fin_len c1 = 1" using assms(3,4) by (auto simp: fin_len_def)
  have "queue_ok s S (wait_bytes wt) a pos (fin_len c1) (c_sendBuf c1)" using queue_fin [OF q(2), of 1] assms(3) f by simp
  then show ?thesis
    using assms q(1) f by (intro send_coreI [where a = a and pos = pos]) (auto simp: send_core_def)
qed

lemma send_core_half_closed: "send_core s S wt c \<Longrightarrow> c_writeClosed c \<Longrightarrow> send_core s S wt (c\<lparr>c_state := tcpStateFinWait\<rparr>)"
  by (simp add: send_core_def fin_len_def)

text \<open>Queueing a segment. Until the timer is started the queue may be without one.\<close>

lemma write_appended_core:
  assumes core: "send_core s S None (c\<lparr>c_retxTimer := Some 0\<rparr>)"
  shows "send_core s S None (write_appended now c)" "same_rx c (write_appended now c)"
proof -
  let ?c1 = "c\<lparr>c_sendBuf := snd (SendBuffer_ack now (c_sendAcked c) (c_sendBuf c))\<rparr>"
  have f: "fin_len (c\<lparr>c_retxTimer := Some 0\<rparr>) = fin_len c" "fin_len ?c1 = fin_len c" "fin_len (startRetxTimer ?c1) = fin_len c"
    by (simp_all add: fin_len_def startRetxTimer_def)
  obtain a pos where q: "c_sendAcked c = s + of_nat a" "queue_ok s S [] a pos (fin_len c) (c_sendBuf c)"
    using core f(1) by (auto simp: send_core_def wait_bytes_def)
  have "a \<le> length S + fin_len c" "fin_len c \<le> 1" using q(2) by (auto simp: queue_ok_def fin_len_def)
  then obtain pos1 where q1: "queue_ok s S [] a pos1 (fin_len c) (c_sendBuf ?c1)"
    using queue_ack [OF q(2) order_refl, of now] q(1) by auto
  have w: "write_appended now c = (if 0 < SendBuffer_len (c_sendBuf ?c1) then startRetxTimer ?c1 else ?c1)"
    by (simp only: write_appended_def Let_def)
  then show "same_rx c (write_appended now c)" by (simp add: same_rx_def startRetxTimer_def)
  show "send_core s S None (write_appended now c)" unfolding w
    by (rule send_coreI [where a = a and pos = pos1])
      (use core q(1) q1 f in \<open>auto simp: send_core_def wait_bytes_def startRetxTimer_def SendBuffer_len_def split: if_splits\<close>)
qed

lemma ack_segments_subset: "sb_segments (snd (SendBuffer_ack now k sb)) \<noteq> [] \<Longrightarrow> sb_segments sb \<noteq> []"
  by (auto simp: SendBuffer_ack_def ack_loop_filter)

lemma send_core_acked:
  assumes core: "send_core s S wt c"
  shows "send_core s S wt (c\<lparr>c_sendBuf := snd (SendBuffer_ack now (c_sendAcked c) (c_sendBuf c))\<rparr>)" (is "send_core s S wt ?c1")
proof -
  have f: "fin_len ?c1 = fin_len c" by (simp add: fin_len_def)
  obtain a pos where q: "c_sendAcked c = s + of_nat a" "queue_ok s S (wait_bytes wt) a pos (fin_len c) (c_sendBuf c)"
    using core by (auto simp: send_core_def)
  have "a \<le> length S + fin_len c" "fin_len c \<le> 1" "length (wait_bytes wt) \<le> maxPayload"
    using q(2) core wait_bytes_le by (auto simp: queue_ok_def fin_len_def send_core_def)
  then obtain pos1 where "queue_ok s S (wait_bytes wt) a pos1 (fin_len c) (c_sendBuf ?c1)"
    using queue_ack [OF q(2) order_refl, of now] q(1) by auto
  then show ?thesis
    by (intro send_coreI [where a = a and pos = pos1])
      (use core q(1) f ack_segments_subset in \<open>auto simp: send_core_def\<close>)
qed

text \<open>The state in which a sent segment has been queued, but for the timer.\<close>

lemma send_core_queued:
  assumes core: "send_core s S (Some (seg, k)) c" and "SendBuffer_append seg (c_sendBuf c) = (True, sb)"
  shows "send_core s S None (c\<lparr>c_sendBuf := sb, c_retxTimer := Some 0\<rparr>)" (is "send_core s S None ?c1")
proof -
  have f: "fin_len ?c1 = fin_len c" by (simp add: fin_len_def)
  obtain a pos where q: "c_sendAcked c = s + of_nat a" "queue_ok s S (s_payload seg) a pos (fin_len c) (c_sendBuf c)"
    using core by (auto simp: send_core_def wait_bytes_def)
  have "queue_ok s S [] a pos (fin_len c) sb"
    using core by (intro queue_append [OF q(2) assms(2)]) (auto simp: send_core_def wait_ok_def)
  then show ?thesis
    by (intro send_coreI [where a = a and pos = pos]) (use core q(1) f in \<open>auto simp: send_core_def wait_bytes_def wait_ok_def\<close>)
qed

lemma write_append_core:
  assumes core: "send_core s S (Some (seg, k)) c" and "\<not> c_closed c"
  shows "\<exists>c1. same_rx c c1 \<and>
    (write_append now seg k c = (WroteChunk k, c1) \<and> send_core s S None c1 \<or>
     write_append now seg k c = (WaitsSpace seg k, c1) \<and> send_core s S (Some (seg, k)) c1)"
proof (cases "fst (SendBuffer_append seg (c_sendBuf c))")
  case True
  then obtain sb where sb: "SendBuffer_append seg (c_sendBuf c) = (True, sb)" by (metis prod.collapse)
  have "send_core s S None (c\<lparr>c_sendBuf := sb\<rparr>\<lparr>c_retxTimer := Some 0\<rparr>)" using send_core_queued [OF core sb] .
  from write_appended_core [OF this, of now] sb show ?thesis by (auto simp: write_append_def same_rx_def)
next
  case False
  then obtain sb0 where sb0: "SendBuffer_append seg (c_sendBuf c) = (False, sb0)" by (metis prod.collapse)
  let ?c1 = "c\<lparr>c_sendBuf := snd (SendBuffer_ack now (c_sendAcked c) (c_sendBuf c))\<rparr>"
  have c1: "send_core s S (Some (seg, k)) ?c1" by (rule send_core_acked [OF core])
  show ?thesis
  proof (cases "fst (SendBuffer_append seg (c_sendBuf ?c1))")
    case True
    then obtain sb where sb: "SendBuffer_append seg (c_sendBuf ?c1) = (True, sb)" by (metis prod.collapse)
    have "send_core s S None (?c1\<lparr>c_sendBuf := sb\<rparr>\<lparr>c_retxTimer := Some 0\<rparr>)" using send_core_queued [OF c1 sb] .
    from write_appended_core [OF this, of now] sb sb0 assms(2) show ?thesis
      by (auto simp: write_append_def same_rx_def)
  next
    case False
    then obtain sb where "SendBuffer_append seg (c_sendBuf ?c1) = (False, sb)" by (metis prod.collapse)
    with c1 sb0 assms(2) show ?thesis by (auto simp: write_append_def same_rx_def)
  qed
qed

lemma note_retx_sel [simp]:
  "c_closed (note_retx now seg n c) = c_closed c" "c_localIPv4 (note_retx now seg n c) = c_localIPv4 c"
  "c_key (note_retx now seg n c) = c_key c" "c_state (note_retx now seg n c) = c_state c"
  "c_hostSeq (note_retx now seg n c) = c_hostSeq c" "c_sendAcked (note_retx now seg n c) = c_sendAcked c"
  "c_retxTimer (note_retx now seg n c) = c_retxTimer c" "c_nagleEnabled (note_retx now seg n c) = c_nagleEnabled c"
  "c_nagleBuf (note_retx now seg n c) = c_nagleBuf c" "c_writeClosed (note_retx now seg n c) = c_writeClosed c"
  "c_sendBuf (note_retx now seg n c) = markRetransmittedN now n (c_sendBuf c)"
  "c_guestSeq (note_retx now seg n c) = c_guestSeq c" "c_recvBuf (note_retx now seg n c) = c_recvBuf c"
  "c_readPending (note_retx now seg n c) = c_readPending c" "c_oooRecvBuf (note_retx now seg n c) = c_oooRecvBuf c"
  "c_readDeadline (note_retx now seg n c) = c_readDeadline c"
  by (simp_all add: note_retx_def Let_def)

lemma note_retx_core:
  assumes core: "send_core s S wt c"
  shows "send_core s S wt (note_retx now seg n c)" (is "send_core s S wt ?c1")
proof -
  obtain a pos where q: "c_sendAcked c = s + of_nat a" "queue_ok s S (wait_bytes wt) a pos (fin_len c) (c_sendBuf c)"
    using core by (auto simp: send_core_def)
  have c1: "fin_len ?c1 = fin_len c" "cc_ok (c_congCtrl ?c1)"
    using core cc_events_ok(3) by (auto simp: note_retx_def Let_def fin_len_def send_core_def)
  have "sb_segments (markRetransmittedN now n (c_sendBuf c)) = [] \<longleftrightarrow> sb_segments (c_sendBuf c) = []"
    by (cases "sb_segments (c_sendBuf c)") (simp_all add: markRetransmittedN_def)
  then show ?thesis
    by (intro send_coreI [where a = a and pos = pos])
      (use core c1 q(1) queue_mark [OF q(2)] in \<open>auto simp: send_core_def\<close>)
qed

lemma mark_closed_sel [simp]:
  "c_closed (mark_closed c)" "c_localIPv4 (mark_closed c) = c_localIPv4 c" "c_key (mark_closed c) = c_key c"
  by (simp_all add: mark_closed_def Let_def)

text \<open>
  The events of a run as far as sending goes: the guest acknowledges only what was sent, the
  application does not write after the guest's FIN, and sequence numbers do not wrap around.
\<close>

definition send_guard :: "u32 \<Rightarrow> 'w run \<Rightarrow> conn_event \<Rightarrow> bool" where
  "send_guard s r ev =
     (case ev of
        Segment hdr \<Rightarrow> h_flags hdr AND tcpFlagACK \<noteq> 0 \<longrightarrow> unat (h_ack hdr - s) \<le> length (r_wrote r) + fin_len (r_conn r)
      | WriteCall b \<Rightarrow> c_state (r_conn r) \<noteq> tcpStateFinWait \<and> unat s + length (r_wrote r) + length b + 1 < 2 ^ 32
      | _ \<Rightarrow> True)"

definition send_inv :: "('w \<Rightarrow> tcp_out list) \<Rightarrow> (bytes \<Rightarrow> tcpFourTuple \<Rightarrow> 'w \<Rightarrow> bool) \<Rightarrow> tcp_out list \<Rightarrow> u32 \<Rightarrow> 'w run \<Rightarrow> bool" where
  "send_inv sent up base s r \<longleftrightarrow>
     send_good sent up base s (r_wrote r) (r_waiting r) (r_conn r, r_world r) \<and> \<not> r_failed r \<and>
     unat s + length (r_wrote r) + 1 < 2 ^ 32"

context conn_host
begin

lemma send_quiet_ok:
  assumes "net_ok sent up base s S (c_localIPv4 c) (c_key c) w" and "payload = [] \<or> on_stream s S sq payload"
    and "length payload \<le> maxPayload" and "length options \<le> 40"
  shows "\<exists>w1. send_quiet E sq ak flags payload options (c, w) = (c, w1) \<and> net_ok sent up base s S (c_localIPv4 c) (c_key c) w1"
proof -
  have "up (c_localIPv4 c) (c_key c) w" using assms(1) by (simp add: net_ok_def)
  from send_up [OF this, of "\<lparr>x_seq = sq, x_ack = ak, x_flags = flags, x_payload = payload, x_options = options\<rparr>"]
  obtain w1 y where "env_send E (c_localIPv4 c) (c_key c)
      \<lparr>x_seq = sq, x_ack = ak, x_flags = flags, x_payload = payload, x_options = options\<rparr> w = (Inr (), w1)"
    "up (c_localIPv4 c) (c_key c) w1" "sent w1 = sent w @ [y]" "x_seq y = sq" "x_payload y = payload"
    using assms(3,4) by auto
  moreover from this assms(1,2) have "wire_ok s S base (sent w1)" by (fastforce simp: net_ok_def wire_ok_def)
  ultimately show ?thesis by (simp add: send_quiet.simps net_ok_def)
qed

lemma sendAck_good:
  "send_good sent up base s S wt (c, w) \<Longrightarrow> \<exists>w1. sendAck E (c, w) = (c, w1) \<and> send_good sent up base s S wt (c, w1)"
  using send_quiet_ok [of base s S c w "[]" "c_hostSeq c" "[]" "c_guestSeq c" tcpFlagACK] by (auto simp: sendAck.simps)

lemma sendFin_ok:
  "net_ok sent up base s S (c_localIPv4 c) (c_key c) w \<Longrightarrow>
     \<exists>w1. sendFin E (c, w) = (c\<lparr>c_hostSeq := c_hostSeq c + 1\<rparr>, w1) \<and> net_ok sent up base s S (c_localIPv4 c) (c_key c) w1"
  using send_quiet_ok [of base s S "c\<lparr>c_hostSeq := c_hostSeq c + 1\<rparr>" w "[]" "c_hostSeq c" "[]" "c_guestSeq c" "tcpFlagFIN OR tcpFlagACK"]
  by (auto simp: sendFin.simps)

lemma Conn_Close_good:
  assumes "net_ok sent up base s S (c_localIPv4 c) (c_key c) w"
  shows "send_good sent up base s S wt (Conn_Close E (c, w)) \<or> c_closed c"
proof (cases "c_closed c")
  case False
  obtain c4 w1 where f: "(if c_state c = tcpStateEstablished \<and> \<not> c_writeClosed c then sendFin E (mark_closed c, w)
        else (mark_closed c, w)) = (c4, w1)"
      "c_closed c4" "c_localIPv4 c4 = c_localIPv4 c" "c_key c4 = c_key c" "net_ok sent up base s S (c_localIPv4 c) (c_key c) w1"
    using sendFin_ok [of base s S "mark_closed c" w] assms by (cases "c_state c = tcpStateEstablished \<and> \<not> c_writeClosed c") auto
  have "Conn_Close E (c, w) = (c4, env_forget E (c_key c4) w1)"
    unfolding Conn_Close.simps Let_def f(1) using False by simp
  moreover have "net_ok sent up base s S (c_localIPv4 c) (c_key c) (env_forget E (c_key c4) w1)"
    using f(5) forget_up [of "c_localIPv4 c" "c_key c" w1 "c_key c4"] by (simp add: net_ok_def)
  ultimately show ?thesis using f(2-4) by simp
qed simp

lemma Conn_Close_inv: "send_good sent up base s S wt (c, w) \<Longrightarrow> send_good sent up base s S wt (Conn_Close E (c, w))"
  using Conn_Close_good [of base s S c w wt] by (cases "c_closed c") (simp_all add: Conn_Close.simps)

lemma ack_duplicate_good:
  assumes "send_good sent up base s S wt (c, w)" and "\<not> c_closed c"
  shows "\<exists>c1 w1. ack_duplicate E (c, w) = (c1, w1) \<and> send_good sent up base s S wt (c1, w1) \<and> same_rx c c1 \<and>
    c_hostSeq c1 = c_hostSeq c \<and> c_sendAcked c1 = c_sendAcked c"
proof -
  obtain fire cc where d: "onDupAck (c_congCtrl c) = (fire, cc)" by (rule prod.exhaust)
  have core: "send_core s S wt c" using assms by simp
  then have "cc_ok cc" using cc_events_ok(2) [of "c_congCtrl c"] d by (simp add: send_core_def)
  then have c1: "send_core s S wt (c\<lparr>c_dupAcks := c_dupAcks c + 1, c_congCtrl := cc\<rparr>)" (is "send_core s S wt ?c1")
    using core send_core_cc [of s S wt "c\<lparr>c_dupAcks := c_dupAcks c + 1\<rparr>" cc] by simp
  have rx: "same_rx c ?c1" "c_hostSeq ?c1 = c_hostSeq c" "c_sendAcked ?c1 = c_sendAcked c" by (simp_all add: same_rx_def)
  show ?thesis
  proof (cases "fire \<and> sb_segments (c_sendBuf c) \<noteq> []")
    case True
    then obtain seg segs where seg: "sb_segments (c_sendBuf c) = seg # segs" by (auto simp: neq_Nil_conv)
    obtain a pos where "queue_ok s S (wait_bytes wt) a pos (fin_len c) (c_sendBuf c)" using core by (auto simp: send_core_def)
    note o = queue_oldest [OF this seg]
    have "net_ok sent up base s S (c_localIPv4 ?c1) (c_key ?c1) w" using assms(1) by simp
    from send_quiet_ok [OF this disjI2 [OF o(1)] o(2), of "[]" "c_guestSeq ?c1" tcpFlagACK] obtain w1 where
      "send_quiet E (s_seqStart seg) (c_guestSeq ?c1) tcpFlagACK (s_payload seg) [] (?c1, w) = (?c1, w1)"
      "net_ok sent up base s S (c_localIPv4 ?c1) (c_key ?c1) w1" by auto
    with True seg d c1 rx show ?thesis
      by (auto simp: ack_duplicate.simps SendBuffer_oldest_def intro!: exI [of _ ?c1])
  next
    case False
    then have "ack_duplicate E (c, w) = (?c1, w)"
      using d by (auto simp: ack_duplicate.simps Let_def SendBuffer_oldest_def split: list.splits)
    with assms c1 rx show ?thesis by auto
  qed
qed

text \<open>An acknowledgement of a position of the stream that was sent.\<close>

lemma handle_ack_good:
  assumes good: "send_good sent up base s S wt (c, w)" and "\<not> c_closed c" and "unat s + length S + 1 < 2 ^ 32"
    and ack: "h_flags hdr AND tcpFlagACK \<noteq> 0 \<Longrightarrow> \<exists>b\<le>length S + fin_len c. h_ack hdr = s + of_nat b"
  shows "\<exists>c1 w1. handle_ack E hdr (c, w) = (Inr (), (c1, w1)) \<and> send_good sent up base s S wt (c1, w1) \<and> same_rx c c1"
proof (cases "h_flags hdr AND tcpFlagACK = 0")
  case True
  with good show ?thesis by (auto simp: handle_ack.simps same_rx_def)
next
  case False
  define c0 where "c0 = c\<lparr>c_peerWnd := h_window hdr\<rparr>"
  have g0: "send_good sent up base s S wt (c0, w)" "\<not> c_closed c0" "same_rx c c0" "fin_len c0 = fin_len c"
    using good assms(2) by (simp_all add: c0_def same_rx_def fin_len_def)
  then have core: "send_core s S wt c0" by simp
  obtain b where b: "b \<le> length S + fin_len c" "h_ack hdr = s + of_nat b" using ack False by blast
  obtain a pos where a: "c_sendAcked c0 = s + of_nat a" "queue_ok s S (wait_bytes wt) a pos (fin_len c0) (c_sendBuf c0)"
    and h: "c_hostSeq c0 = s + of_nat (length S + fin_len c)"
    using core g0(4) by (auto simp: send_core_def)
  have f: "fin_len c \<le> 1" by (simp add: fin_len_def)
  then have bound: "unat s + b < 2 ^ 32" "unat s + a < 2 ^ 32" "unat s + (length S + fin_len c) < 2 ^ 32"
    using b(1) a(2) g0(4) assms(3) by (auto simp: queue_ok_def)
  have no_resync: "\<not> c_hostSeq c0 < h_ack hdr" using seq_less [OF bound(3,1)] b h by simp
  have lt: "c_sendAcked c0 < h_ack hdr \<longleftrightarrow> a < b" using seq_less [OF bound(2,1)] a(1) b(2) by simp
  have "\<exists>c1 w1. (if c_sendAcked c0 < h_ack hdr then ack_advances E hdr (c0, w)
                  else if h_ack hdr = c_sendAcked c0 \<and> 0 < SendBuffer_len (c_sendBuf c0) \<and> h_payload hdr = [] \<and>
                    h_flags hdr AND (tcpFlagSYN OR tcpFlagFIN OR tcpFlagRST) = 0 \<and> h_window hdr = c_peerWnd c
                  then (Inr (), ack_duplicate E (c0, w)) else (Inr (), (c0, w))) = (Inr (), (c1, w1)) \<and>
      send_good sent up base s S wt (c1, w1) \<and> same_rx c0 c1 \<and> c_hostSeq c1 = c_hostSeq c0"
  proof (cases "a < b")
    case True
    then have "a \<le> b" by simp
    from ack_advances_core [OF core a(1) b(2) a(2) this, of E w] b(1) g0(4) obtain c1 where
      "ack_advances E hdr (c0, w) = (Inr (), (c1, w))" "send_core s S wt c1" "same_rx c0 c1" "c_hostSeq c1 = c_hostSeq c0" by auto
    with True lt g0(1) show ?thesis by (auto simp: same_rx_def)
  next
    case False
    from ack_duplicate_good [OF g0(1,2)] obtain c1 w1 where "ack_duplicate E (c0, w) = (c1, w1)"
      "send_good sent up base s S wt (c1, w1)" "same_rx c0 c1" "c_hostSeq c1 = c_hostSeq c0" by auto
    with False lt g0(1) show ?thesis by (auto simp: same_rx_def)
  qed
  then obtain c1 w1 where r: "(if c_sendAcked c0 < h_ack hdr then ack_advances E hdr (c0, w)
                  else if h_ack hdr = c_sendAcked c0 \<and> 0 < SendBuffer_len (c_sendBuf c0) \<and> h_payload hdr = [] \<and>
                    h_flags hdr AND (tcpFlagSYN OR tcpFlagFIN OR tcpFlagRST) = 0 \<and> h_window hdr = c_peerWnd c
                  then (Inr (), ack_duplicate E (c0, w)) else (Inr (), (c0, w))) = (Inr (), (c1, w1))"
    "send_good sent up base s S wt (c1, w1)" "same_rx c0 c1" "c_hostSeq c1 = c_hostSeq c0" by blast
  have "handle_ack E hdr (c, w) = (Inr (), (c1, w1))"
    unfolding handle_ack.simps Let_def c0_def [symmetric] r(1) using False no_resync r(4) by simp
  moreover have "same_rx c c1" using g0(3) r(3) by (simp add: same_rx_def)
  ultimately show ?thesis using r(2) by blast
qed

lemma peer_closed_good:
  assumes net: "net_ok sent up base s S (c_localIPv4 c) (c_key c) w" and core: "send_core s S wt c" "c_state c = tcpStateEstablished"
  shows "send_good sent up base s S wt (peer_closed E (c_writeClosed c) (c\<lparr>c_state := tcpStateFinWait\<rparr>, w))"
proof -
  obtain q where q: "enqueueData None (c\<lparr>c_state := tcpStateFinWait\<rparr>) = c\<lparr>c_state := tcpStateFinWait, c_recvBuf := q\<rparr>" (is "_ = ?c1")
    using enqueueData_recvBuf [of None "c\<lparr>c_state := tcpStateFinWait\<rparr>"] by auto
  have n1: "net_ok sent up base s S (c_localIPv4 ?c1) (c_key ?c1) w" using net by simp
  obtain w1 where w1: "sendAck E (?c1, w) = (?c1, w1)" "net_ok sent up base s S (c_localIPv4 ?c1) (c_key ?c1) w1"
    using send_quiet_ok [OF n1, of "[]" "c_hostSeq c" "[]" "c_guestSeq c" tcpFlagACK] by (auto simp: sendAck.simps)
  show ?thesis
  proof (cases "c_writeClosed c")
    case True
    with send_core_half_closed [OF core(1)] w1 q show ?thesis by (simp add: peer_closed.simps)
  next
    case False
    obtain w2 where w2: "sendFin E (?c1, w1) = (?c1\<lparr>c_hostSeq := c_hostSeq c + 1\<rparr>, w2)"
        "net_ok sent up base s S (c_localIPv4 ?c1) (c_key ?c1) w2"
      using sendFin_ok [OF w1(2)] by auto
    have "send_core s S wt (c\<lparr>c_hostSeq := c_hostSeq c + 1, c_writeClosed := False, c_state := tcpStateFinWait\<rparr>)"
      using core False by (intro send_core_fin [OF core(1)]) (auto simp: fin_len_def)
    then have "send_core s S wt (c\<lparr>c_hostSeq := c_hostSeq c + 1, c_writeClosed := False, c_state := tcpStateFinWait, c_recvBuf := q\<rparr>)"
      by simp
    moreover have "c\<lparr>c_hostSeq := c_hostSeq c + 1, c_writeClosed := False, c_state := tcpStateFinWait, c_recvBuf := q\<rparr> =
        ?c1\<lparr>c_hostSeq := c_hostSeq c + 1\<rparr>" using False by simp
    ultimately show ?thesis using w1 w2 q False by (simp add: peer_closed.simps)
  qed
qed

lemma handle_established_good:
  assumes good: "send_good sent up base s S wt (c, w)" and "\<not> c_closed c" and st: "c_state c = tcpStateEstablished"
  shows "send_good sent up base s S wt (handle_established E hdr (c, w))"
proof -
  have core: "send_core s S wt c" and net: "net_ok sent up base s S (c_localIPv4 c) (c_key c) w" using assms by simp_all
  consider (ooo) "h_payload hdr \<noteq> []" "h_seq hdr \<noteq> c_guestSeq c"
    | (inorder) "h_payload hdr \<noteq> []" "h_seq hdr = c_guestSeq c"
    | (fin) "h_payload hdr = []" "h_flags hdr AND tcpFlagFIN \<noteq> 0"
    | (other) "h_payload hdr = []" "h_flags hdr AND tcpFlagFIN = 0" by blast
  then show ?thesis
  proof cases
    case ooo
    obtain rb where "handle_established E hdr (c, w) = sendAck E (c\<lparr>c_oooRecvBuf := rb\<rparr>, w)"
    proof (cases "seqGT (h_seq hdr) (c_guestSeq c)")
      case True
      with ooo show ?thesis by (intro that) (simp add: handle_established.simps Let_def)
    next
      case False
      with ooo show ?thesis by (intro that [of "c_oooRecvBuf c"]) (simp add: handle_established.simps Let_def)
    qed
    moreover have "send_good sent up base s S wt (c\<lparr>c_oooRecvBuf := rb\<rparr>, w)" using core net by simp
    ultimately show ?thesis using sendAck_good by fastforce
  next
    case inorder
    obtain col next1 rb where col: "collectContiguous (c_guestSeq c + of_nat (length (h_payload hdr))) (c_oooRecvBuf c) = (col, next1, rb)"
      by (rule prod_cases3)
    let ?enq = "\<lambda>c. fold (\<lambda>seg. enqueueData (Some seg)) col (enqueueData (Some (h_payload hdr)) c)"
    have enq: "\<exists>q. ?enq c = c\<lparr>c_recvBuf := q\<rparr>" for c
      using enqueueAll_recvBuf [of "h_payload hdr # col" c] by simp
    show ?thesis
    proof (cases "h_flags hdr AND tcpFlagFIN \<noteq> 0")
      case True
      obtain q where q0: "?enq (c\<lparr>c_oooRecvBuf := rb, c_guestSeq := next1 + 1, c_state := tcpStateFinWait\<rparr>) =
          c\<lparr>c_oooRecvBuf := rb, c_guestSeq := next1 + 1, c_state := tcpStateFinWait, c_recvBuf := q\<rparr>"
        using enq [of "c\<lparr>c_oooRecvBuf := rb, c_guestSeq := next1 + 1, c_state := tcpStateFinWait\<rparr>"] by auto
      let ?c = "c\<lparr>c_guestSeq := next1 + 1, c_oooRecvBuf := rb, c_recvBuf := q\<rparr>"
      have q: "?enq (c\<lparr>c_oooRecvBuf := rb, c_guestSeq := next1 + 1, c_state := tcpStateFinWait\<rparr>) = ?c\<lparr>c_state := tcpStateFinWait\<rparr>"
        unfolding q0 by simp
      have "handle_established E hdr (c, w) = peer_closed E (c_writeClosed ?c) (?c\<lparr>c_state := tcpStateFinWait\<rparr>, w)"
        using inorder True q by (simp add: handle_established.simps Let_def col)
      then show ?thesis using peer_closed_good [of base s S ?c w wt] core net st by simp
    next
      case False
      obtain q where q: "?enq (c\<lparr>c_guestSeq := next1, c_oooRecvBuf := rb\<rparr>) =
          c\<lparr>c_guestSeq := next1, c_oooRecvBuf := rb, c_recvBuf := q\<rparr>" (is "_ = ?c")
        using enq [of "c\<lparr>c_guestSeq := next1, c_oooRecvBuf := rb\<rparr>"] by auto
      have "handle_established E hdr (c, w) = sendAck E (?c, w)"
        using inorder False q by (simp add: handle_established.simps Let_def col)
      moreover have "send_good sent up base s S wt (?c, w)" using core net by simp
      ultimately show ?thesis using sendAck_good by fastforce
    qed
  next
    case fin
    have "handle_established E hdr (c, w) =
        peer_closed E (c_writeClosed (c\<lparr>c_guestSeq := c_guestSeq c + 1\<rparr>)) (c\<lparr>c_guestSeq := c_guestSeq c + 1, c_state := tcpStateFinWait\<rparr>, w)"
      using fin by (simp add: handle_established.simps)
    then show ?thesis using peer_closed_good [of base s S "c\<lparr>c_guestSeq := c_guestSeq c + 1\<rparr>" w wt] core net st by simp
  next
    case other
    then show ?thesis using good Conn_Close_inv [OF good] by (simp add: handle_established.simps)
  qed
qed

lemma handleSegment_good:
  assumes good: "send_good sent up base s S wt (c, w)" and "unat s + length S + 1 < 2 ^ 32"
    and "h_flags hdr AND tcpFlagACK \<noteq> 0 \<Longrightarrow> \<exists>b\<le>length S + fin_len c. h_ack hdr = s + of_nat b"
  shows "\<exists>res s1. handleSegment E hdr (c, w) = (res, s1) \<and> send_good sent up base s S wt s1 \<and> (res = Inr () \<or> res = Inl NetClosed)"
proof (cases "c_closed c")
  case True
  with good show ?thesis by (simp add: handleSegment_def segment_body.simps)
next
  case False
  from handle_ack_good [OF good False assms(2,3)] obtain c1 w1 where
    h: "handle_ack E hdr (c, w) = (Inr (), (c1, w1))" "send_good sent up base s S wt (c1, w1)" "same_rx c c1" by blast
  have open1: "\<not> c_closed c1" using h(3) False by (simp add: same_rx_def)
  then have "c_state c1 = tcpStateEstablished \<or> c_state c1 = tcpStateFinWait" using h(2) by (simp add: send_core_def)
  then show ?thesis
  proof
    assume "c_state c1 = tcpStateEstablished"
    with handle_established_good [OF h(2) open1] h(1) False show ?thesis
      by (simp add: handleSegment_def segment_body.simps)
  next
    assume st: "c_state c1 = tcpStateFinWait"
    have "net_ok sent up base s S (c_localIPv4 (c1\<lparr>c_state := tcpStateClosed\<rparr>)) (c_key (c1\<lparr>c_state := tcpStateClosed\<rparr>)) w1"
      using h(2) by simp
    moreover obtain c2 w2 where cl: "Conn_Close E (c1\<lparr>c_state := tcpStateClosed\<rparr>, w1) = (c2, w2)" by (rule prod.exhaust)
    ultimately have "send_good sent up base s S wt (c2, w2)"
      using Conn_Close_good [of base s S "c1\<lparr>c_state := tcpStateClosed\<rparr>" w1 wt] open1 by simp
    with st h(1,2) cl False show ?thesis by (auto simp: handleSegment_def segment_body.simps)
  qed
qed

text \<open>One chunk of a write, on a connection that still accepts data.\<close>

lemma write_chunk_good:
  assumes good: "send_good sent up base s S None (c, w)" and "c_state c \<noteq> tcpStateFinWait"
  shows "\<exists>c1 w1. c_state c1 = c_state c \<and>
    (write_chunk E b written (c, w) = (WriteFails NetClosed, (c1, w1)) \<and> send_good sent up base s S None (c1, w1) \<or>
     write_chunk E b written (c, w) = (WaitsWindow, (c1, w1)) \<and> send_good sent up base s S None (c1, w1) \<or>
     (\<exists>n. write_chunk E b written (c, w) = (WroteChunk n, (c1, w1)) \<and> n \<le> length b - written \<and>
       send_good sent up base s (S @ take n (drop written b)) None (c1, w1)) \<or>
     (\<exists>seg n. write_chunk E b written (c, w) = (WaitsSpace seg n, (c1, w1)) \<and>
       send_good sent up base s (S @ take n (drop written b)) (Some (seg, n)) (c1, w1)))"
proof -
  consider (closed) "c_closed c \<or> c_writeClosed c"
    | (window) "\<not> c_closed c" "\<not> c_writeClosed c" "\<not> (0 < sendWindow c \<and> c_hostSeq c - c_sendAcked c < sendWindow c)"
    | (send) "\<not> c_closed c" "\<not> c_writeClosed c" "0 < sendWindow c" "c_hostSeq c - c_sendAcked c < sendWindow c" by blast
  then show ?thesis
  proof cases
    case closed
    with good show ?thesis by (simp add: write_chunk.simps)
  next
    case window
    with good show ?thesis by (simp add: write_chunk.simps Let_def)
  next
    case send
    define data where "data = take (sendRoom c) (drop written b)"
    define n where "n = length data"
    define flags where "flags = (if written + length data = length b then tcpFlagACK OR tcpFlagPSH else tcpFlagACK)"
    have "take (length (take k xs)) xs = take k xs" for k and xs :: bytes by (cases "k \<le> length xs") simp_all
    from this [of "sendRoom c" "drop written b"]
    have data: "data = take n (drop written b)" "n \<le> length b - written" "length data \<le> maxPayload"
      unfolding data_def n_def by (simp_all add: sendRoom_def)
    have core: "send_core s S None c" and net: "net_ok sent up base s S (c_localIPv4 c) (c_key c) w" using good send(1) by simp_all
    have nagle: "\<not> c_nagleEnabled c" "c_nagleBuf c = []" and f0: "fin_len c = 0" and hs: "c_hostSeq c = s + of_nat (length S)"
      using core assms(2) send(2) by (auto simp: send_core_def fin_len_def)
    let ?c1 = "c\<lparr>c_nagleBuf := [], c_hostSeq := c_hostSeq c + of_nat (length data)\<rparr>"
    let ?x = "\<lparr>x_seq = c_hostSeq c, x_ack = c_guestSeq c, x_flags = flags, x_payload = data, x_options = []\<rparr>"
    have "up (c_localIPv4 c) (c_key c) w" using net by (simp add: net_ok_def)
    from send_up [OF this, of ?x] data(3) obtain w1 y where
      w1: "env_send E (c_localIPv4 c) (c_key c) ?x w = (Inr (), w1)" "up (c_localIPv4 c) (c_key c) w1"
        "sent w1 = sent w @ [y]" "x_seq y = c_hostSeq c" "x_payload y = data" by auto
    have "on_stream s (S @ data) (c_hostSeq c) data"
      unfolding on_stream_def by (intro exI [of _ "length S"]) (simp add: hs)
    moreover have "wire_ok s (S @ data) base (sent w)" using net wire_ok_append by (auto simp: net_ok_def)
    ultimately have "wire_ok s (S @ data) base (sent w1)" using w1(3-5) by (fastforce simp: wire_ok_def)
    then have net1: "net_ok sent up base s (S @ data) (c_localIPv4 c) (c_key c) w1" using w1(2) by (simp add: net_ok_def)
    let ?seg = "\<lparr>s_seqStart = c_hostSeq c, s_seqEnd = c_hostSeq c + of_nat (length data), s_payload = data,
      s_sentAt = env_now E w1, s_retxCount = 0\<rparr>"
    have chunk: "write_chunk E b written (c, w) =
        (case write_append (env_now E w1) ?seg n ?c1 of (r, c2) \<Rightarrow> (r, (c2, w1)))"
      using send nagle w1(1)
      unfolding write_chunk.simps Let_def data_def [symmetric] next_data_def n_def by (simp add: write_send.simps Let_def flags_def)
    obtain a pos where q: "c_sendAcked c = s + of_nat a" "queue_ok s S [] a pos 0 (c_sendBuf c)"
      using core f0 by (auto simp: send_core_def wait_bytes_def)
    have "send_core s (S @ data) (Some (?seg, n)) ?c1"
    proof (rule send_coreI [where a = a and pos = pos])
      have "fin_len ?c1 = 0" using f0 by (simp add: fin_len_def)
      then show "queue_ok s (S @ data) (wait_bytes (Some (?seg, n))) a pos (fin_len ?c1) (c_sendBuf ?c1)"
        "c_hostSeq ?c1 = s + of_nat (length (S @ data) + fin_len ?c1)"
        using queue_extend [OF q(2), of data] hs by (simp_all add: wait_bytes_def)
    qed (use core q(1) hs data(3) in \<open>auto simp: send_core_def wait_ok_def\<close>)
    from write_append_core [OF this, of "env_now E w1"] send(1) obtain c2 where rx: "same_rx ?c1 c2" and
      "write_append (env_now E w1) ?seg n ?c1 = (WroteChunk n, c2) \<and> send_core s (S @ data) None c2 \<or>
       write_append (env_now E w1) ?seg n ?c1 = (WaitsSpace ?seg n, c2) \<and> send_core s (S @ data) (Some (?seg, n)) c2" by auto
    then have r: "write_chunk E b written (c, w) = (WroteChunk n, (c2, w1)) \<and> send_core s (S @ data) None c2 \<or>
        write_chunk E b written (c, w) = (WaitsSpace ?seg n, (c2, w1)) \<and> send_core s (S @ data) (Some (?seg, n)) c2"
      using chunk by auto
    have "c_state c2 = c_state c" and net2: "net_ok sent up base s (S @ data) (c_localIPv4 c2) (c_key c2) w1"
      using rx net1 by (simp_all add: same_rx_def)
    moreover have "send_good sent up base s (S @ take n (drop written b)) wt (c2, w1)" if "send_core s (S @ data) wt c2" for wt
      using that net2 data(1) by simp
    ultimately show ?thesis using r data(2) by blast
  qed
qed

lemma Conn_Write_good:
  "\<lbrakk>send_good sent up base s (S @ take written b) None (c, w); written \<le> length b; c_state c \<noteq> tcpStateFinWait;
    Conn_Write E b written (c, w) = ((n, res), st1)\<rbrakk> \<Longrightarrow>
   case res of WriteWaitsSpace seg k \<Rightarrow> send_good sent up base s (S @ take (n + k) b) (Some (seg, k)) st1
    | _ \<Rightarrow> send_good sent up base s (S @ take n b) None st1"
proof (induction "length b - written" arbitrary: written c w rule: less_induct)
  case less
  show ?case
  proof (cases "written < length b")
    case True
    note step = Conn_Write.simps [of E b written "(c, w)"]
    have cat: "(S @ take written b) @ take n (drop written b) = S @ take (written + n) b" for n by (simp add: take_add)
    from write_chunk_good [OF less.prems(1,3), of b written, unfolded cat] obtain c1 w1 where st: "c_state c1 = c_state c" and
      "write_chunk E b written (c, w) = (WriteFails NetClosed, (c1, w1)) \<and> send_good sent up base s (S @ take written b) None (c1, w1) \<or>
       write_chunk E b written (c, w) = (WaitsWindow, (c1, w1)) \<and> send_good sent up base s (S @ take written b) None (c1, w1) \<or>
       (\<exists>n. write_chunk E b written (c, w) = (WroteChunk n, (c1, w1)) \<and> n \<le> length b - written \<and>
         send_good sent up base s (S @ take (written + n) b) None (c1, w1)) \<or>
       (\<exists>seg n. write_chunk E b written (c, w) = (WaitsSpace seg n, (c1, w1)) \<and>
         send_good sent up base s (S @ take (written + n) b) (Some (seg, n)) (c1, w1))" by blast
    then consider (stop) r where "r = WriteFails NetClosed \<or> r = WaitsWindow" "write_chunk E b written (c, w) = (r, (c1, w1))"
        "send_good sent up base s (S @ take written b) None (c1, w1)"
      | (wrote) n where "write_chunk E b written (c, w) = (WroteChunk n, (c1, w1))" "n \<le> length b - written"
        "send_good sent up base s (S @ take (written + n) b) None (c1, w1)"
      | (space) seg n where "write_chunk E b written (c, w) = (WaitsSpace seg n, (c1, w1))"
        "send_good sent up base s (S @ take (written + n) b) (Some (seg, n)) (c1, w1)"
      by blast
    then show ?thesis
    proof cases
      case stop
      with less.prems(4) True show ?thesis unfolding step by auto
    next
      case (wrote k)
      have "0 < k" by (rule write_chunk_pos [OF wrote(1) True])
      then have "length b - (written + k) < length b - written" "written + k \<le> length b" using True wrote(2) by auto
      moreover have "Conn_Write E b (written + k) (c1, w1) = ((n, res), st1)"
        using less.prems(4) True wrote(1) unfolding step by simp
      ultimately show ?thesis using less.hyps [of "written + k" c1 w1] wrote(3) less.prems(3) st by simp
    next
      case space
      with less.prems(4) True show ?thesis unfolding step by auto
    qed
  next
    case False
    with less.prems(1,2,4) show ?thesis unfolding Conn_Write.simps [of E b written "(c, w)"] by auto
  qed
qed

lemma onRetxTimeout_good:
  assumes good: "send_good sent up base s S wt (c, w)"
  shows "send_good sent up base s S wt (onRetxTimeout E (c, w))"
proof (cases "c_closed c \<or> sb_segments (c_sendBuf c) = []")
  case True
  then show ?thesis
    using good send_core_idle [of s S wt c] by (auto simp: onRetxTimeout.simps Let_def oldestCoalesced_def)
next
  case False
  then obtain seg segs where seg: "sb_segments (c_sendBuf c) = seg # segs" and "\<not> c_closed c" by (auto simp: neq_Nil_conv)
  have core: "send_core s S wt c" using good \<open>\<not> c_closed c\<close> by simp
  then obtain a pos where q: "c_sendAcked c = s + of_nat a" "queue_ok s S (wait_bytes wt) a pos (fin_len c) (c_sendBuf c)"
    by (auto simp: send_core_def)
  note o = queue_oldest [OF q(2) seg]
  define c3 where "c3 = note_retx (env_now E w) seg 1 c"
  have c3: "send_core s S wt c3" "c_closed c3 = c_closed c" "c_localIPv4 c3 = c_localIPv4 c" "c_key c3 = c_key c"
      "c_guestSeq c3 = c_guestSeq c"
    unfolding c3_def using note_retx_core [OF core] by simp_all
  have n3: "net_ok sent up base s S (c_localIPv4 c3) (c_key c3) w" using good c3 by simp
  from send_quiet_ok [OF n3 disjI2 [OF o(1)] o(2), of "[]" "c_guestSeq c3" tcpFlagACK] obtain w1 where
    w1: "send_quiet E (s_seqStart seg) (c_guestSeq c3) tcpFlagACK (s_payload seg) [] (c3, w) = (c3, w1)"
      "net_ok sent up base s S (c_localIPv4 c3) (c_key c3) w1" by auto
  note simps = onRetxTimeout.simps Let_def oldestCoalesced_def seg
  consider (early) "env_now E w - s_sentAt seg < getRTO (c_rttEst c) div 2"
    | (limit) "\<not> env_now E w - s_sentAt seg < getRTO (c_rttEst c) div 2" "maxRetries \<le> s_retxCount seg"
    | (again) "\<not> env_now E w - s_sentAt seg < getRTO (c_rttEst c) div 2" "\<not> maxRetries \<le> s_retxCount seg" by blast
  then show ?thesis
  proof cases
    case early
    with \<open>\<not> c_closed c\<close> good send_core_timer [OF core] show ?thesis by (simp add: simps)
  next
    case limit
    with \<open>\<not> c_closed c\<close> Conn_Close_inv [OF good] show ?thesis by (simp add: simps)
  next
    case again
    with \<open>\<not> c_closed c\<close> send_core_timer [OF c3(1)] c3 w1 show ?thesis by (simp add: simps flip: c3_def)
  qed
qed

lemma CloseWrite_good:
  assumes good: "send_good sent up base s S wt (c, w)"
  shows "send_good sent up base s S wt (snd (CloseWrite E (c, w)))"
proof (cases "c_closed c \<or> c_writeClosed c \<or> c_state c \<noteq> tcpStateEstablished")
  case True
  then have "snd (CloseWrite E (c, w)) = (c, w)" by (auto simp: CloseWrite.simps)
  with good show ?thesis by simp
next
  case False
  let ?c1 = "c\<lparr>c_writeClosed := True\<rparr>" and ?c2 = "c\<lparr>c_writeClosed := True, c_hostSeq := c_hostSeq c + 1\<rparr>"
  have core: "send_core s S wt c" "fin_len c = 0" using good False by (auto simp: fin_len_def)
  have "net_ok sent up base s S (c_localIPv4 ?c1) (c_key ?c1) w" using good by simp
  from sendFin_ok [OF this] obtain w1 where w1: "sendFin E (?c1, w) = (?c2, w1)"
    "net_ok sent up base s S (c_localIPv4 c) (c_key c) w1" by auto
  have "?c2 = c\<lparr>c_hostSeq := c_hostSeq c + 1, c_writeClosed := True, c_state := tcpStateEstablished\<rparr>" using False by simp
  then have "send_core s S wt ?c2" using send_core_fin [OF core] by blast
  moreover have "snd (CloseWrite E (c, w)) = (?c2, w1)" using False w1(1) by (simp add: CloseWrite.simps)
  ultimately show ?thesis using w1(2) by simp
qed

lemma conn_step_send_inv:
  assumes inv: "send_inv sent up base s r" and guard: "send_guard s r ev"
  shows "send_inv sent up base s (conn_step E ev r)"
proof -
  have good: "send_good sent up base s (r_wrote r) (r_waiting r) (r_conn r, r_world r)" and ok: "\<not> r_failed r"
      "unat s + length (r_wrote r) + 1 < 2 ^ 32"
    using inv by (simp_all add: send_inv_def)
  show ?thesis
  proof (cases ev)
    case (Segment hdr)
    have "\<exists>b\<le>length (r_wrote r) + fin_len (r_conn r). h_ack hdr = s + of_nat b" if "h_flags hdr AND tcpFlagACK \<noteq> 0"
      using guard that Segment by (intro exI [of _ "unat (h_ack hdr - s)"]) (simp add: send_guard_def)
    from handleSegment_good [OF good ok(2) this] obtain res s1 where
      "handleSegment E hdr (r_conn r, r_world r) = (res, s1)" "send_good sent up base s (r_wrote r) (r_waiting r) s1"
      "res = Inr () \<or> res = Inl NetClosed" by blast
    then show ?thesis using ok Segment by (cases s1) (auto simp: send_inv_def)
  next
    case (ReadCall n)
    have "send_good sent up base s (r_wrote r) (r_waiting r) (snd (Conn_Read n now (r_conn r)), r_world r)" for now
      using good by (auto simp: Conn_Read_def Let_def split: list.splits option.splits)
    then show ?thesis using ok ReadCall
      by (auto simp: send_inv_def simp del: send_good.simps split: prod.splits read_result.splits) (metis snd_conv)+
  next
    case (WriteCall b)
    show ?thesis
    proof (cases "r_waiting r")
      case None
      obtain n res st1 where w: "Conn_Write E b 0 (r_conn r, r_world r) = ((n, res), st1)" by (metis prod.exhaust)
      have "send_good sent up base s (r_wrote r @ take 0 b) None (r_conn r, r_world r)" using good None by simp
      from Conn_Write_good [OF this _ _ w] guard WriteCall
      have "case res of WriteWaitsSpace seg k \<Rightarrow> send_good sent up base s (r_wrote r @ take (n + k) b) (Some (seg, k)) st1
        | _ \<Rightarrow> send_good sent up base s (r_wrote r @ take n b) None st1" by (simp add: send_guard_def)
      moreover have "unat s + length (r_wrote r @ take k b) + 1 < 2 ^ 32" for k
        using guard WriteCall by (auto simp: send_guard_def)
      ultimately show ?thesis using ok(1) None w WriteCall
        by (cases st1) (simp add: send_inv_def del: send_good.simps split: write_result.splits)
    next
      case Some
      with inv WriteCall show ?thesis by simp
    qed
  next
    case RetrySpace
    show ?thesis
    proof (cases "r_waiting r")
      case None
      with inv RetrySpace show ?thesis by simp
    next
      case (Some sk)
      obtain seg k where sk: "sk = (seg, k)" by (rule prod.exhaust)
      show ?thesis
      proof (cases "c_closed (r_conn r)")
        case True
        obtain res c1 where wa: "write_append (env_now E (r_world r)) seg k (r_conn r) = (res, c1)" by (rule prod.exhaust)
        then have "c_closed c1" "c_localIPv4 c1 = c_localIPv4 (r_conn r)" "c_key c1 = c_key (r_conn r)"
          using True by (auto simp: write_append_def write_appended_def startRetxTimer_def Let_def split: prod.splits bool.splits if_splits)
        with good ok wa Some sk RetrySpace show ?thesis
          by (auto simp: send_inv_def split: write_step.splits)
      next
        case False
        then have "send_core s (r_wrote r) (Some (seg, k)) (r_conn r)" using good Some sk by simp
        from write_append_core [OF this False, of "env_now E (r_world r)"] good ok Some sk RetrySpace show ?thesis
          by (auto simp: send_inv_def same_rx_def)
      qed
    qed
  next
    case TimerFires
    obtain c1 w1 where "onRetxTimeout E (r_conn r, r_world r) = (c1, w1)" by (rule prod.exhaust)
    with onRetxTimeout_good [OF good] ok TimerFires show ?thesis by (simp add: send_inv_def del: send_good.simps)
  next
    case CloseWriteCall
    obtain c1 w1 where "snd (CloseWrite E (r_conn r, r_world r)) = (c1, w1)" by (rule prod.exhaust)
    with CloseWrite_good [OF good] ok CloseWriteCall show ?thesis by (simp add: send_inv_def del: send_good.simps)
  next
    case CloseCall
    obtain c1 w1 where "Conn_Close E (r_conn r, r_world r) = (c1, w1)" by (rule prod.exhaust)
    with Conn_Close_inv [OF good] ok CloseCall show ?thesis by (simp add: send_inv_def del: send_good.simps)
  next
    case NoDelay
    with good ok show ?thesis by (auto simp: send_inv_def SetNoDelay_def send_core_def fin_len_def)
  qed
qed

lemma conn_run_send_inv:
  assumes "conn_run E (send_guard s) r0 r" and "send_inv sent up base s r0"
  shows "send_inv sent up base s r"
  using assms(1) by induction (use assms(2) conn_step_send_inv in blast)+

end

end
