(* ===== verification/TcpReceive.thy ===== *)
theory TcpReceive
  imports TcpStream
begin

text \<open>
  What a TCP connection delivers. Whatever the environment does, the bytes that reads return
  are the stream of the guest, in order and without a gap, under three conditions that the
  code needs and does not enforce: readers keep up with the channel of 512 chunks, a bare FIN
  comes in order, and the connection is not closed while a chunk is partly read.
\<close>

section \<open>The guest's stream\<close>

text \<open>
  The stream is the first \<open>L\<close> bytes of \<open>f\<close>, its first byte at sequence number \<open>s\<close>.
  A segment of it, and a buffered one.
\<close>

definition on_peer_stream :: "(nat \<Rightarrow> u8) \<Rightarrow> u32 \<Rightarrow> nat \<Rightarrow> u32 \<Rightarrow> bytes \<Rightarrow> bool" where
  "on_peer_stream f s L sq payload \<longleftrightarrow>
     (let pos = unat (sq - s) in pos + length payload \<le> L \<and> payload = map f [pos..<pos + length payload])"

definition ooo_ok :: "(nat \<Rightarrow> u8) \<Rightarrow> u32 \<Rightarrow> nat \<Rightarrow> tcpOOOSegment \<Rightarrow> bool" where
  "ooo_ok f s L seg \<longleftrightarrow> on_peer_stream f s L (o_seqStart seg) (o_payload seg) \<and>
     o_seqEnd seg = o_seqStart seg + of_nat (length (o_payload seg))"

text \<open>
  The guard on events. A segment with data belongs to the stream; a FIN comes at its end, in
  order if it carries no data; the channel has room for what a segment may deliver; the
  connection is not closed with a chunk partly read, and reads of a closed connection take
  whole chunks.
\<close>

definition recv_guard :: "'w conn_env \<Rightarrow> (nat \<Rightarrow> u8) \<Rightarrow> u32 \<Rightarrow> nat \<Rightarrow> 'w run \<Rightarrow> conn_event \<Rightarrow> bool" where
  "recv_guard E f s L r ev \<longleftrightarrow>
     (c_closed (r_conn (conn_step E ev r)) \<longrightarrow> c_closed (r_conn r) \<or> c_readPending (r_conn r) = []) \<and>
     (case ev of
        Segment hdr \<Rightarrow>
          length (c_recvBuf (r_conn r)) + length (rb_segments (c_oooRecvBuf (r_conn r))) + 2 \<le> recvBufCapacity \<and>
          on_peer_stream f s L (h_seq hdr) (h_payload hdr) \<and>
          (h_flags hdr AND tcpFlagFIN \<noteq> 0 \<longrightarrow> h_seq hdr + of_nat (length (h_payload hdr)) = s + of_nat L \<and>
             (h_payload hdr = [] \<longrightarrow> h_seq hdr = c_guestSeq (r_conn r)))
      | ReadCall n \<Rightarrow>
          c_closed (r_conn r) \<longrightarrow> (case c_recvBuf (r_conn r) of Some data # _ \<Rightarrow> length data \<le> n | _ \<Rightarrow> True)
      | _ \<Rightarrow> True)"

text \<open>
  What is delivered and what is queued make up the stream up to some position; the end of the
  stream is queued or reported only after all of it.
\<close>

definition recv_ok :: "(nat \<Rightarrow> u8) \<Rightarrow> u32 \<Rightarrow> nat \<Rightarrow> bytes \<Rightarrow> bool \<Rightarrow> tcpConn \<Rightarrow> bool" where
  "recv_ok f s L rd eof c \<longleftrightarrow>
     (\<exists>m xs. m \<le> L \<and> rd @ c_readPending c @ concat xs = map f [0..<m] \<and>
        (c_recvBuf c = map Some xs \<or> c_recvBuf c = map Some xs @ [None] \<and> m = L \<and> \<not> eof) \<and>
        (eof \<longrightarrow> m = L \<and> xs = [] \<and> c_readPending c = []) \<and>
        (\<not> c_closed c \<longrightarrow>
           c_state c = tcpStateFinWait \<or>
           c_state c = tcpStateEstablished \<and> c_guestSeq c = s + of_nat m \<and> c_recvBuf c = map Some xs \<and> \<not> eof \<and>
           (\<forall>seg\<in>set (rb_segments (c_oooRecvBuf c)). ooo_ok f s L seg)))"

section \<open>Operations that leave the receiving side alone\<close>

definition rx_eq :: "tcpConn \<Rightarrow> tcpConn \<Rightarrow> bool" where
  "rx_eq c c1 \<longleftrightarrow> c_state c1 = c_state c \<and> c_closed c1 = c_closed c \<and> c_guestSeq c1 = c_guestSeq c \<and>
     c_recvBuf c1 = c_recvBuf c \<and> c_readPending c1 = c_readPending c \<and> c_oooRecvBuf c1 = c_oooRecvBuf c"

lemma rx_eq_refl [simp]: "rx_eq c c" by (simp add: rx_eq_def)

lemma rx_eq_trans: "rx_eq c c1 \<Longrightarrow> rx_eq c1 c2 \<Longrightarrow> rx_eq c c2" by (simp add: rx_eq_def)

lemma send_quiet_fst [simp]: "fst (send_quiet E sq ak fl pl opt (c, w)) = c"
  by (simp add: send_quiet.simps)

lemma sends_fst [simp]:
  "fst (sendAck E (c, w)) = c" "fst (sendFin E (c, w)) = c\<lparr>c_hostSeq := c_hostSeq c + 1\<rparr>"
  by (simp_all add: sendAck.simps sendFin.simps)

lemma handle_ack_rx: "rx_eq c (fst (snd (handle_ack E hdr (c, w))))"
proof -
  have adv: "rx_eq c (fst (snd (ack_advances E hdr (c, w))))" for c
    by (auto simp: ack_advances.simps Let_def rx_eq_def restartRetxTimer_def stopRetxTimer_def split: sum.splits prod.splits)
  have dup: "rx_eq c (fst (ack_duplicate E (c, w)))" for c
    by (auto simp: ack_duplicate.simps Let_def rx_eq_def split: prod.splits option.splits)
  show ?thesis
    using adv [of "c\<lparr>c_peerWnd := h_window hdr\<rparr>"] dup [of "c\<lparr>c_peerWnd := h_window hdr\<rparr>"]
    by (auto simp: handle_ack.simps Let_def rx_eq_def split: prod.splits sum.splits)
qed

lemma write_append_rx: "rx_eq c (snd (write_append now seg n c))"
  by (auto simp: write_append_def write_appended_def startRetxTimer_def Let_def rx_eq_def split: prod.splits bool.splits)

lemma write_send_rx: "rx_eq c (fst (snd (write_send E flags dk (c, w))))"
proof -
  have "rx_eq c c2" if "write_append now seg n (c\<lparr>c_nagleBuf := k, c_hostSeq := h\<rparr>) = (res, c2)" for now seg n k h res c2
    using write_append_rx [of "c\<lparr>c_nagleBuf := k, c_hostSeq := h\<rparr>" now seg n] that by (simp add: rx_eq_def)
  moreover have "rx_eq c (c\<lparr>c_nagleBuf := k, c_hostSeq := h\<rparr>)" for k h by (simp add: rx_eq_def)
  ultimately show ?thesis by (cases dk) (auto simp: write_send.simps Let_def split: prod.split sum.split)
qed

lemma write_chunk_rx: "rx_eq c (fst (snd (write_chunk E b written (c, w))))"
proof -
  have "rx_eq c (c\<lparr>c_nagleBuf := k\<rparr>)" for k by (simp add: rx_eq_def)
  then show ?thesis unfolding write_chunk.simps Let_def by (simp add: write_send_rx)
qed

lemma Conn_Write_rx: "rx_eq (fst st) (fst (snd (Conn_Write E b written st)))"
proof (induction E b written st rule: Conn_Write.induct)
  case (1 E b written st)
  have c: "rx_eq (fst st) (fst st1)" if "write_chunk E b written st = (res, st1)" for res st1
    using write_chunk_rx [of "fst st" E b written "snd st"] that by simp
  show ?case
  proof (cases "written < length b")
    case True
    obtain res st1 where w: "write_chunk E b written st = (res, st1)" by (rule prod.exhaust)
    show ?thesis
    proof (cases res)
      case (WroteChunk n)
      with True w have "Conn_Write E b written st = Conn_Write E b (written + n) st1" by (simp add: Conn_Write.simps)
      moreover have "rx_eq (fst st1) (fst (snd (Conn_Write E b (written + n) st1)))" by (rule 1 [OF True w [symmetric] WroteChunk])
      ultimately show ?thesis using rx_eq_trans [OF c [OF w]] by simp
    qed (use True w c [OF w] in \<open>simp_all add: Conn_Write.simps\<close>)
  qed (simp add: Conn_Write.simps)
qed

lemma mark_closed_rx:
  "c_closed (mark_closed c)" "c_recvBuf (mark_closed c) = c_recvBuf c" "c_readPending (mark_closed c) = []"
  by (simp_all add: mark_closed_def stopRetxTimer_def completeDial_def Let_def split: dial.splits)

lemma Conn_Close_rx:
  "\<not> c_closed c \<Longrightarrow> c_closed (fst (Conn_Close E (c, w))) \<and> c_recvBuf (fst (Conn_Close E (c, w))) = c_recvBuf c \<and>
     c_readPending (fst (Conn_Close E (c, w))) = []"
  "c_closed c \<Longrightarrow> Conn_Close E (c, w) = (c, w)"
  by (auto simp: Conn_Close.simps sendFin.simps send_quiet.simps mark_closed_rx Let_def split: prod.splits)

text \<open>
  An operation either leaves the receiving side as it is, or closes the connection. The
  channel stays and what was partly read is dropped.
\<close>

definition rx_keeps :: "tcpConn \<Rightarrow> tcpConn \<Rightarrow> bool" where
  "rx_keeps c c1 \<longleftrightarrow> rx_eq c c1 \<or> \<not> c_closed c \<and> c_closed c1 \<and> c_recvBuf c1 = c_recvBuf c \<and> c_readPending c1 = []"

lemma Conn_Close_keeps: "rx_keeps c (fst (Conn_Close E (c, w)))"
  using Conn_Close_rx [of c E w] by (cases "c_closed c") (simp_all add: rx_keeps_def)

lemma onRetxTimeout_keeps: "rx_keeps c (fst (onRetxTimeout E (c, w)))"
proof -
  have "rx_eq c (note_retx now seg n c\<lparr>c_retxTimer := t\<rparr>)" "rx_eq c (c\<lparr>c_retxTimer := t\<rparr>)" for now seg n t
    by (simp_all add: rx_eq_def)
  then show ?thesis using Conn_Close_keeps [of c E w]
    by (auto simp: onRetxTimeout.simps send_quiet.simps rx_keeps_def Let_def split: option.split prod.split)
qed

lemma CloseWrite_keeps: "rx_keeps c (fst (snd (CloseWrite E (c, w))))"
  by (simp add: CloseWrite.simps rx_keeps_def rx_eq_def)

lemma recv_ok_eq: "rx_eq c c1 \<Longrightarrow> recv_ok f s L rd eof c \<Longrightarrow> recv_ok f s L rd eof c1"
  unfolding recv_ok_def rx_eq_def by simp

lemma recv_ok_keeps:
  assumes "recv_ok f s L rd eof c" and "rx_keeps c c1" and "c_closed c1 \<Longrightarrow> c_closed c \<or> c_readPending c = []"
  shows "recv_ok f s L rd eof c1"
proof (cases "rx_eq c c1")
  case True
  with assms(1) show ?thesis by (rule recv_ok_eq [rotated])
next
  case False
  then have "c_closed c1" "c_recvBuf c1 = c_recvBuf c" "c_readPending c1 = c_readPending c"
    using assms(2,3) by (auto simp: rx_keeps_def)
  with assms(1) show ?thesis unfolding recv_ok_def by auto
qed

section \<open>Data of the guest\<close>

lemma ooo_stream: "ooo_ok f s L seg \<Longrightarrow> L < 2 ^ 32 \<Longrightarrow> stream_segment f s seg"
  unfolding ooo_ok_def on_peer_stream_def stream_segment_def carries_def Let_def
  by (intro exI [of _ "unat (o_seqStart seg - s)"]) auto

lemma collect_pass_next: "collect_pass x segs = (col, n1, new) \<Longrightarrow> n1 = x \<or> (\<exists>seg\<in>set segs. n1 = o_seqEnd seg)"
  by (induction segs arbitrary: x col n1 new) (fastforce split: if_splits prod.splits)+

lemma collect_pass_set: "collect_pass x segs = (col, n1, new) \<Longrightarrow> set new \<subseteq> set segs"
  by (induction segs arbitrary: x col n1 new) (fastforce split: if_splits prod.splits)+

lemma collect_loop_next:
  "collect_loop x segs = (col, n1, new) \<Longrightarrow> (n1 = x \<or> (\<exists>seg\<in>set segs. n1 = o_seqEnd seg)) \<and> length col + length new = length segs"
proof (induction x segs arbitrary: col n1 new rule: collect_loop.induct)
  case (1 x segs)
  obtain col1 x1 new1 where p: "collect_pass x segs = (col1, x1, new1)" by (rule prod_cases3)
  note f = collect_pass_next [OF p] collect_pass_set [OF p] collect_pass_length [OF p]
  show ?case
  proof (cases "col1 = []")
    case True
    with "1.prems" p f show ?thesis by (subst (asm) collect_loop.simps) auto
  next
    case False
    obtain col2 where c: "collect_loop x1 new1 = (col2, n1, new)" "col = col1 @ col2"
      using "1.prems" p False by (subst (asm) collect_loop.simps) (auto split: prod.splits)
    from "1.IH" [OF p [symmetric] refl False c(1)] f c(2) show ?thesis by auto
  qed
qed

lemma collect_recv:
  assumes "\<forall>seg\<in>set (rb_segments rb). ooo_ok f s L seg" and "n \<le> L" and "L < 2 ^ 32"
    and "collectContiguous (s + of_nat n) rb = (col, next1, rb1)"
  shows "\<exists>m\<ge>n. m \<le> L \<and> next1 = s + of_nat m \<and> concat col = map f [n..<m] \<and>
    (\<forall>seg\<in>set (rb_segments rb1). ooo_ok f s L seg) \<and> length col \<le> length (rb_segments rb)"
proof -
  obtain new where c: "collect_loop (s + of_nat n) (rb_segments rb) = (col, next1, new)" "rb1 = rb\<lparr>rb_segments := new\<rparr>"
    using assms(4) by (auto simp: collectContiguous_def split: prod.splits)
  have st: "\<forall>seg\<in>set (rb_segments rb). stream_segment f s seg" using assms(1,3) ooo_stream by blast
  have n: "n < 2 ^ 32" using assms(2,3) by simp
  from collect_loop_stream [OF st n c(1)] obtain m where
    m: "m \<ge> n" "m < 2 ^ 32" "next1 = s + of_nat m" "concat col = map f [n..<m]" "set new \<subseteq> set (rb_segments rb)" by blast
  have "m \<le> L"
  proof -
    from collect_loop_next [OF c(1)] consider "next1 = s + of_nat n" | seg where "seg \<in> set (rb_segments rb)" "next1 = o_seqEnd seg" by blast
    then show ?thesis
    proof cases
      case 1
      then have "m = n" using m(2,3) n by (intro of_nat_u32_inj) auto
      with assms(2) show ?thesis by simp
    next
      case 2
      define e where "e = unat (o_seqStart seg - s) + length (o_payload seg)"
      have e: "e \<le> L" "o_seqEnd seg = s + of_nat e"
        using 2(1) assms(1) by (auto simp: ooo_ok_def on_peer_stream_def Let_def e_def)
      then have "(of_nat m :: u32) = of_nat e" using m(3) 2(2) by simp
      then have "m = e" using m(2) e(1) assms(3) by (intro of_nat_u32_inj) auto
      with e show ?thesis by simp
    qed
  qed
  moreover have "length col \<le> length (rb_segments rb)" using collect_loop_next [OF c(1)] by simp
  ultimately show ?thesis using m c(2) assms(1) by auto
qed

lemma enqueue_room:
  "\<not> c_closed c \<Longrightarrow> length (c_recvBuf c) + length xs \<le> recvBufCapacity \<Longrightarrow>
     fold (\<lambda>seg. enqueueData (Some seg)) xs c = c\<lparr>c_recvBuf := c_recvBuf c @ map Some xs\<rparr>"
  by (induction xs arbitrary: c) (auto simp: enqueueData_def)

lemma insert_subset:
  "set (rb_segments (snd (RecvBuffer_insert seg rb))) \<subseteq> insert seg (set (rb_segments rb))"
  by (auto simp: RecvBuffer_insert_def Let_def split: option.splits dest: in_set_takeD in_set_dropD)

lemma on_peer_position:
  assumes "on_peer_stream f s L (s + of_nat n) payload" and "n \<le> L" and "L < 2 ^ 32"
  shows "n + length payload \<le> L" "payload = map f [n..<n + length payload]"
proof -
  have "unat (of_nat n :: u32) = n" using assms(2,3) by (simp add: unat_of_nat take_bit_eq_mod)
  then show "n + length payload \<le> L" "payload = map f [n..<n + length payload]"
    using assms(1) by (auto simp: on_peer_stream_def Let_def)
qed

text \<open>The state after the guest's FIN: the end of the stream is queued.\<close>

lemma peer_closed_rx:
  "\<not> c_closed c \<Longrightarrow> length (c_recvBuf c) < recvBufCapacity \<Longrightarrow>
     rx_eq (c\<lparr>c_recvBuf := c_recvBuf c @ [None]\<rparr>) (fst (peer_closed E wc (c, w)))"
  by (simp add: peer_closed.simps sendAck.simps sendFin.simps send_quiet.simps enqueueData_def rx_eq_def Let_def)

lemma established_recv:
  assumes ok: "recv_ok f s L rd eof c" and op: "\<not> c_closed c" "c_state c = tcpStateEstablished" and L: "L < 2 ^ 32"
    and room: "length (c_recvBuf c) + length (rb_segments (c_oooRecvBuf c)) + 2 \<le> recvBufCapacity"
    and data: "on_peer_stream f s L (h_seq hdr) (h_payload hdr)"
    and fin: "h_flags hdr AND tcpFlagFIN \<noteq> 0 \<Longrightarrow> h_seq hdr + of_nat (length (h_payload hdr)) = s + of_nat L \<and>
      (h_payload hdr = [] \<longrightarrow> h_seq hdr = c_guestSeq c)"
    and closes: "c_closed (fst (handle_established E hdr (c, w))) \<Longrightarrow> c_readPending c = []"
  shows "recv_ok f s L rd eof (fst (handle_established E hdr (c, w)))"
proof -
  obtain m xs where m: "m \<le> L" "rd @ c_readPending c @ concat xs = map f [0..<m]" "c_guestSeq c = s + of_nat m"
      "c_recvBuf c = map Some xs" "\<not> eof" "\<forall>seg\<in>set (rb_segments (c_oooRecvBuf c)). ooo_ok f s L seg"
    using ok op unfolding recv_ok_def by auto
  have L_inj: "n = L" if "(of_nat n :: u32) = of_nat L" "n \<le> L" for n using that L by (intro of_nat_u32_inj) auto
  consider (ooo) "h_payload hdr \<noteq> []" "h_seq hdr \<noteq> c_guestSeq c"
    | (inorder) "h_payload hdr \<noteq> []" "h_seq hdr = c_guestSeq c"
    | (fin) "h_payload hdr = []" "h_flags hdr AND tcpFlagFIN \<noteq> 0"
    | (other) "h_payload hdr = []" "h_flags hdr AND tcpFlagFIN = 0" by blast
  then show ?thesis
  proof cases
    case ooo
    let ?seg = "\<lparr>o_seqStart = h_seq hdr, o_seqEnd = h_seq hdr + of_nat (length (h_payload hdr)), o_payload = h_payload hdr\<rparr>"
    have "ooo_ok f s L ?seg" using data by (simp add: ooo_ok_def)
    then have "\<forall>seg\<in>set (rb_segments (snd (RecvBuffer_insert ?seg (c_oooRecvBuf c)))). ooo_ok f s L seg"
      using insert_subset [of ?seg "c_oooRecvBuf c"] m(6) by blast
    then have "recv_ok f s L rd eof (c\<lparr>c_oooRecvBuf := snd (RecvBuffer_insert ?seg (c_oooRecvBuf c))\<rparr>)"
      using m op unfolding recv_ok_def by (intro exI [of _ m] exI [of _ xs]) simp
    with ok ooo show ?thesis by (simp add: handle_established.simps Let_def)
  next
    case inorder
    let ?n = "m + length (h_payload hdr)"
    obtain col next1 rb where col: "collectContiguous (c_guestSeq c + of_nat (length (h_payload hdr))) (c_oooRecvBuf c) = (col, next1, rb)"
      by (rule prod_cases3)
    have p: "?n \<le> L" "h_payload hdr = map f [m..<?n]" using on_peer_position [OF _ m(1) L] data inorder(2) m(3) by auto
    have "collectContiguous (s + of_nat ?n) (c_oooRecvBuf c) = (col, next1, rb)" using col m(3) by (simp add: add.assoc)
    from collect_recv [OF m(6) p(1) L this] obtain k where k: "k \<ge> ?n" "k \<le> L" "next1 = s + of_nat k" "concat col = map f [?n..<k]"
      "\<forall>seg\<in>set (rb_segments rb). ooo_ok f s L seg" "length col \<le> length (rb_segments (c_oooRecvBuf c))" by blast
    have rest: "h_payload hdr @ concat col = map f [m..<k]" using p(2) k(1,4) map_upt_append [of m ?n k f] by simp
    have "rd @ c_readPending c @ concat (xs @ h_payload hdr # col) = (rd @ c_readPending c @ concat xs) @ (h_payload hdr @ concat col)"
      by simp
    also have "\<dots> = map f [0..<k]" unfolding m(2) rest using k(1) by (intro map_upt_append) simp_all
    finally have stream: "rd @ c_readPending c @ concat (xs @ h_payload hdr # col) = map f [0..<k]" .
    define c1 where "c1 = c\<lparr>c_oooRecvBuf := rb, c_guestSeq := (if h_flags hdr AND tcpFlagFIN \<noteq> 0 then next1 + 1 else next1),
      c_state := (if h_flags hdr AND tcpFlagFIN \<noteq> 0 then tcpStateFinWait else c_state c)\<rparr>"
    let ?q = "map Some (xs @ h_payload hdr # col)"
    have enq: "fold (\<lambda>seg. enqueueData (Some seg)) col (enqueueData (Some (h_payload hdr)) c1) = c1\<lparr>c_recvBuf := ?q\<rparr>"
      using enqueue_room [of c1 "h_payload hdr # col"] op(1) room k(6) m(4) by (simp add: c1_def)
    show ?thesis
    proof (cases "h_flags hdr AND tcpFlagFIN \<noteq> 0")
      case True
      have "?n = L" using fin [OF True] inorder(2) m(3) p(1) by (intro L_inj) (simp_all add: add.assoc)
      then have "k = L" using k by simp
      have h: "handle_established E hdr (c, w) = peer_closed E (c_writeClosed c) (c1\<lparr>c_recvBuf := ?q\<rparr>, w)"
        using inorder True col enq by (simp add: handle_established.simps Let_def c1_def)
      have e: "rx_eq (c1\<lparr>c_recvBuf := ?q @ [None]\<rparr>) (fst (peer_closed E (c_writeClosed c) (c1\<lparr>c_recvBuf := ?q\<rparr>, w)))"
        using peer_closed_rx [of "c1\<lparr>c_recvBuf := ?q\<rparr>" E "c_writeClosed c" w] op(1) room k(6) m(4) by (simp add: c1_def)
      have "recv_ok f s L rd eof (c1\<lparr>c_recvBuf := ?q @ [None]\<rparr>)"
        using stream m(5) \<open>k = L\<close> True unfolding recv_ok_def
        by (intro exI [of _ k] exI [of _ "xs @ h_payload hdr # col"]) (simp add: c1_def)
      then show ?thesis unfolding h by (rule recv_ok_eq [OF e])
    next
      case False
      have "c\<lparr>c_guestSeq := next1, c_oooRecvBuf := rb\<rparr> = c1" using False by (simp add: c1_def)
      then have "fst (handle_established E hdr (c, w)) = c1\<lparr>c_recvBuf := ?q\<rparr>"
        using inorder False col enq by (simp add: handle_established.simps Let_def)
      moreover have "recv_ok f s L rd eof (c1\<lparr>c_recvBuf := ?q\<rparr>)"
        using stream m(5) k op False unfolding recv_ok_def
        by (intro exI [of _ k] exI [of _ "xs @ h_payload hdr # col"]) (simp add: c1_def)
      ultimately show ?thesis by simp
    qed
  next
    case fin
    let ?c1 = "c\<lparr>c_guestSeq := c_guestSeq c + 1, c_state := tcpStateFinWait\<rparr>"
    have "m = L" using assms(7) fin m(1,3) by (intro L_inj) auto
    then have "recv_ok f s L rd eof (?c1\<lparr>c_recvBuf := c_recvBuf ?c1 @ [None]\<rparr>)"
      using m unfolding recv_ok_def by (intro exI [of _ m] exI [of _ xs]) simp
    moreover have e: "rx_eq (?c1\<lparr>c_recvBuf := c_recvBuf ?c1 @ [None]\<rparr>) (fst (peer_closed E (c_writeClosed c) (?c1, w)))"
      using peer_closed_rx [of ?c1 E "c_writeClosed c" w] op(1) room by simp
    moreover have h: "handle_established E hdr (c, w) = peer_closed E (c_writeClosed c) (?c1, w)"
      using fin by (simp add: handle_established.simps)
    ultimately show ?thesis unfolding h by (intro recv_ok_eq [OF e])
  next
    case other
    then have "handle_established E hdr (c, w) = (c, w) \<or> handle_established E hdr (c, w) = Conn_Close E (c, w)"
      by (simp add: handle_established.simps)
    then show ?thesis using recv_ok_keeps [OF ok Conn_Close_keeps, of E w] closes ok by auto
  qed
qed

lemma handleSegment_recv:
  assumes ok: "recv_ok f s L rd eof c" and L: "L < 2 ^ 32"
    and room: "length (c_recvBuf c) + length (rb_segments (c_oooRecvBuf c)) + 2 \<le> recvBufCapacity"
    and data: "on_peer_stream f s L (h_seq hdr) (h_payload hdr)"
    and fin: "h_flags hdr AND tcpFlagFIN \<noteq> 0 \<Longrightarrow> h_seq hdr + of_nat (length (h_payload hdr)) = s + of_nat L \<and>
      (h_payload hdr = [] \<longrightarrow> h_seq hdr = c_guestSeq c)"
    and closes: "c_closed (fst (snd (handleSegment E hdr (c, w)))) \<Longrightarrow> c_closed c \<or> c_readPending c = []"
  shows "recv_ok f s L rd eof (fst (snd (handleSegment E hdr (c, w))))"
proof (cases "c_closed c")
  case True
  with ok show ?thesis by (simp add: handleSegment_def segment_body.simps)
next
  case False
  obtain res c1 w1 where h: "handle_ack E hdr (c, w) = (res, (c1, w1))" by (metis prod.exhaust)
  have rx: "rx_eq c c1" using handle_ack_rx [of c E hdr w] h by simp
  then have ok1: "recv_ok f s L rd eof c1" and open1: "\<not> c_closed c1" using ok False recv_ok_eq by (auto simp: rx_eq_def)
  have closes1: "c_readPending c1 = []" if "c_closed (fst (snd (handleSegment E hdr (c, w))))"
    using closes that False rx by (simp add: rx_eq_def)
  show ?thesis
  proof (cases res)
    case (Inl e)
    with h ok1 False show ?thesis by (simp add: handleSegment_def segment_body.simps)
  next
    case (Inr u)
    have "c_state c1 = tcpStateFinWait \<or> c_state c1 = tcpStateEstablished" using ok1 open1 unfolding recv_ok_def by auto
    then show ?thesis
    proof
      assume st: "c_state c1 = tcpStateEstablished"
      then have e: "handleSegment E hdr (c, w) = (Inr (), handle_established E hdr (c1, w1))"
        using h Inr False by (simp add: handleSegment_def segment_body.simps)
      show ?thesis unfolding e snd_conv
        by (rule established_recv [OF ok1 open1 st L]) (use room data fin closes1 e rx in \<open>auto simp: rx_eq_def\<close>)
    next
      assume st: "c_state c1 = tcpStateFinWait"
      show ?thesis
      proof (cases "h_flags hdr AND tcpFlagACK \<noteq> 0")
        case True
        then have e: "handleSegment E hdr (c, w) = (Inr (), Conn_Close E (c1\<lparr>c_state := tcpStateClosed\<rparr>, w1))"
          using h Inr False st by (simp add: handleSegment_def segment_body.simps)
        have "rx_keeps c1 (fst (Conn_Close E (c1\<lparr>c_state := tcpStateClosed\<rparr>, w1)))"
          using Conn_Close_rx(1) [of "c1\<lparr>c_state := tcpStateClosed\<rparr>" E w1] open1 by (simp add: rx_keeps_def)
        then show ?thesis using recv_ok_keeps [OF ok1] closes1 unfolding e by auto
      next
        case no_ack: False
        then show ?thesis using h Inr False st ok1 by (simp add: handleSegment_def segment_body.simps)
      qed
    qed
  qed
qed

lemma take_drop_append: "take n xs @ drop n xs @ ys = xs @ ys"
  by (metis append_assoc append_take_drop_id)

lemma Conn_Read_recv:
  assumes ok: "recv_ok f s L rd eof c" and "Conn_Read n now c = (res, c1)"
    and whole: "c_closed c \<Longrightarrow> (case c_recvBuf c of Some data # _ \<Rightarrow> length data \<le> n | _ \<Rightarrow> True)"
  shows "case res of ReadBytes bs \<Rightarrow> recv_ok f s L (rd @ bs) eof c1 | ReadEOF \<Rightarrow> recv_ok f s L rd True c1 | _ \<Rightarrow> recv_ok f s L rd eof c1"
proof -
  obtain m xs where m: "m \<le> L" "rd @ c_readPending c @ concat xs = map f [0..<m]"
      "c_recvBuf c = map Some xs \<or> c_recvBuf c = map Some xs @ [None] \<and> m = L \<and> \<not> eof"
      "eof \<longrightarrow> m = L \<and> xs = [] \<and> c_readPending c = []"
      "\<not> c_closed c \<longrightarrow> c_state c = tcpStateFinWait \<or>
         c_state c = tcpStateEstablished \<and> c_guestSeq c = s + of_nat m \<and> c_recvBuf c = map Some xs \<and> \<not> eof \<and>
         (\<forall>seg\<in>set (rb_segments (c_oooRecvBuf c)). ooo_ok f s L seg)"
    using ok unfolding recv_ok_def by blast
  show ?thesis
  proof (cases "c_readPending c = []")
    case False
    then have r: "res = ReadBytes (take n (c_readPending c))" "c1 = c\<lparr>c_readPending := drop n (c_readPending c)\<rparr>"
      using assms(2) by (auto simp: Conn_Read_def)
    have "recv_ok f s L (rd @ take n (c_readPending c)) eof c1"
      unfolding recv_ok_def r(2) using m False by (intro exI [of _ m] exI [of _ xs]) (auto simp: take_drop_append)
    then show ?thesis using r by simp
  next
    case pend: True
    show ?thesis
    proof (cases "c_recvBuf c")
      case Nil
      with assms(2) pend ok show ?thesis by (auto simp: Conn_Read_def split: if_splits option.splits)
    next
      case (Cons x rest)
      show ?thesis
      proof (cases "case c_readDeadline c of None \<Rightarrow> False | Some t \<Rightarrow> t - now \<le> 0")
        case True
        with assms(2) pend ok show ?thesis by (auto simp: Conn_Read_def)
      next
        case dl: False
        show ?thesis
        proof (cases x)
          case None
          then have r: "res = ReadEOF" "c1 = c\<lparr>c_recvBuf := rest\<rparr>" using assms(2) pend Cons dl by (auto simp: Conn_Read_def)
          have "xs = []" "rest = []" "m = L" "\<not> eof" using m(3) Cons None by (cases xs; auto)+
          then have "recv_ok f s L rd True c1"
            unfolding recv_ok_def r(2) using m pend Cons by (intro exI [of _ m] exI [of _ xs]) auto
          then show ?thesis using r by simp
        next
          case (Some data)
          then obtain ys where ys: "xs = data # ys" using m(3) Cons by (cases xs) auto
          have r: "res = ReadBytes (take n data)"
              "c1 = (if n < length data \<and> \<not> c_closed c then c\<lparr>c_recvBuf := rest, c_readPending := drop n data\<rparr> else c\<lparr>c_recvBuf := rest\<rparr>)"
            using assms(2) pend Cons dl Some by (auto simp: Conn_Read_def Let_def)
          have "length data \<le> n" if "c_closed c" using whole that Cons Some by simp
          then have "recv_ok f s L (rd @ take n data) eof c1"
            unfolding recv_ok_def r(2) using m pend Cons Some ys by (intro exI [of _ m] exI [of _ ys]) (auto simp: not_less take_drop_append)
          then show ?thesis using r by simp
        qed
      qed
    qed
  qed
qed

lemma conn_step_recv:
  assumes ok: "recv_ok f s L (r_read r) (r_eof r) (r_conn r)" and guard: "recv_guard E f s L r ev" and "L < 2 ^ 32"
  shows "recv_ok f s L (r_read (conn_step E ev r)) (r_eof (conn_step E ev r)) (r_conn (conn_step E ev r))"
proof -
  have closes: "c_closed (r_conn (conn_step E ev r)) \<Longrightarrow> c_closed (r_conn r) \<or> c_readPending (r_conn r) = []"
    using guard by (simp add: recv_guard_def)
  have keeps: ?thesis if "rx_keeps (r_conn r) (r_conn (conn_step E ev r))" "r_read (conn_step E ev r) = r_read r"
      "r_eof (conn_step E ev r) = r_eof r"
    using recv_ok_keeps [OF ok that(1) closes] that(2,3) by simp
  show ?thesis
  proof (cases ev)
    case (Segment hdr)
    have st: "r_conn (conn_step E ev r) = fst (snd (handleSegment E hdr (r_conn r, r_world r)))"
        "r_read (conn_step E ev r) = r_read r" "r_eof (conn_step E ev r) = r_eof r"
      by (simp_all add: Segment split: prod.splits)
    show ?thesis unfolding st
      by (rule handleSegment_recv [OF ok assms(3)]) (use guard closes st(1) Segment in \<open>auto simp: recv_guard_def\<close>)
  next
    case (ReadCall n)
    obtain res c1 where rd: "Conn_Read n (env_now E (r_world r)) (r_conn r) = (res, c1)" by (rule prod.exhaust)
    have "c_closed (r_conn r) \<Longrightarrow> (case c_recvBuf (r_conn r) of Some data # _ \<Rightarrow> length data \<le> n | _ \<Rightarrow> True)"
      using guard ReadCall by (simp add: recv_guard_def)
    from Conn_Read_recv [OF ok rd this] rd show ?thesis by (cases res) (simp_all add: ReadCall)
  next
    case (WriteCall b)
    have "rx_eq (r_conn r) (fst (snd (Conn_Write E b 0 (r_conn r, r_world r))))"
      using Conn_Write_rx [of "(r_conn r, r_world r)" E b 0] by simp
    then have "rx_eq (r_conn r) (r_conn (conn_step E ev r))"
      by (auto simp: WriteCall split: prod.splits write_result.splits)
    then show ?thesis
      by (intro keeps) (auto simp: rx_keeps_def WriteCall split: prod.splits write_result.splits)
  next
    case RetrySpace
    have "rx_eq (r_conn r) (r_conn (conn_step E ev r))"
      using write_append_rx [of "r_conn r" "env_now E (r_world r)"]
      by (auto simp: RetrySpace split: option.splits prod.splits write_step.splits) (metis snd_conv)+
    then show ?thesis
      by (intro keeps) (auto simp: rx_keeps_def RetrySpace split: option.splits prod.splits write_step.splits)
  next
    case TimerFires
    show ?thesis by (intro keeps) (simp_all add: TimerFires onRetxTimeout_keeps)
  next
    case CloseWriteCall
    show ?thesis by (intro keeps) (simp_all add: CloseWriteCall CloseWrite_keeps)
  next
    case CloseCall
    show ?thesis by (intro keeps) (simp_all add: CloseCall Conn_Close_keeps)
  next
    case NoDelay
    show ?thesis by (intro keeps) (simp_all add: NoDelay SetNoDelay_def rx_keeps_def rx_eq_def)
  qed
qed


text \<open>A connection that was just established, with the guest's stream 1, 2, 3, 4.\<close>

definition demo_env :: "unit conn_env" where
  "demo_env = \<lparr>env_send = (\<lambda>_ _ _ w. (Inr (), w)), env_now = (\<lambda>_. 0), env_offer = (\<lambda>_ w. (True, w)),
     env_established = (\<lambda>_ w. w), env_forget = (\<lambda>_ w. w)\<rparr>"

definition demo_key :: tcpFourTuple where
  "demo_key = \<lparr>k_srcIP = [10, 42, 0, 2], k_dstIP = [10, 42, 0, 1], k_srcPort = 40000, k_dstPort = 80\<rparr>"

definition demo_open :: "unit run" where
  "demo_open = \<lparr>r_conn = (newTCPConn 7 False demo_key 99 1000 [10, 42, 0, 1] False)\<lparr>c_state := tcpStateEstablished\<rparr>,
     r_world = (), r_wrote = [], r_read = [], r_eof = False, r_waiting = None, r_failed = False\<rparr>"

definition demo_segment :: "u32 \<Rightarrow> bytes \<Rightarrow> tcpHeader" where
  "demo_segment sq payload = \<lparr>h_srcPort = 40000, h_dstPort = 80, h_seq = sq, h_ack = 0, h_dataOff = 0x50, h_flags = 0,
     h_window = 0, h_checksum = 0, h_urgent = 0, h_options = [], h_payload = payload\<rparr>"


text \<open>
  C38 (safety). The condition on closing is needed: \<^verbatim>\<open>Close\<close> drops the rest of a partly read
  chunk and keeps the chunks queued after it, so that a read which follows continues with a
  later part of the stream.
\<close>

theorem Conn_Close_skips_pending:
  assumes "\<not> c_closed c" and "c_recvBuf c = Some later # rest" and "c_readDeadline c = None"
  shows "fst (Conn_Read n now (fst (Conn_Close E (c, w)))) = ReadBytes (take n later)"
proof -
  have "c_readDeadline (fst (Conn_Close E (c, w))) = None"
    using assms(1,3)
    by (auto simp: Conn_Close.simps sendFin.simps send_quiet.simps mark_closed_def stopRetxTimer_def completeDial_def Let_def
        split: prod.splits dial.splits)
  with Conn_Close_rx(1) [OF assms(1), of E w] assms(2) show ?thesis by (simp add: Conn_Read_def Let_def)
qed

theorem Conn_Close_skips_pending_witness:
  "let c = fst (snd (handleSegment demo_env (demo_segment 102 [3, 4])
       (fst (snd (handleSegment demo_env (demo_segment 100 [1, 2]) (r_conn demo_open, ()))), ())));
     c1 = snd (Conn_Read 1 0 c)
   in fst (Conn_Read 1 0 c) = ReadBytes [1] \<and> c_readPending c1 = [2] \<and>
     fst (Conn_Read 9 0 (fst (Conn_Close demo_env (c1, ())))) = ReadBytes (take 9 [3, 4])"
  (is "let c = ?c in _")
proof -
  let ?c1 = "snd (Conn_Read 1 0 ?c)"
  have "\<not> c_closed ?c1" "c_recvBuf ?c1 = Some [3, 4] # []" "c_readDeadline ?c1 = None" by code_simp+
  from Conn_Close_skips_pending [OF this, of 9 0 demo_env "()"]
  have "fst (Conn_Read 9 0 (fst (Conn_Close demo_env (?c1, ())))) = ReadBytes (take 9 [3, 4])" .
  moreover have "fst (Conn_Read 1 0 ?c) = ReadBytes [1]" "c_readPending ?c1 = [2]" by code_simp+
  ultimately show ?thesis unfolding Let_def by blast
qed

end
