(* ===== verification/NetStack.thy ===== *)
theory NetStack
  imports TcpReceive
begin

text \<open>
  The user-mode network stack, \<^verbatim>\<open>NetStack\<close> in \<^verbatim>\<open>src/internal/netstack/netstack.go\<close>: the path of
  a guest's frame from \<^verbatim>\<open>DeliverGuestPacket\<close> through source validation, ARP, ICMP, UDP and TCP,
  and the policy that decides which connections a guest may open.

  The record \<open>net_stack\<close> has the configuration, the tables of listeners, connections and
  UDP sockets, and logs of what leaves the stack: the frames handed to the backend, the
  connections offered to a listener, the proxies started for an established connection and
  the datagrams forwarded to the host. The contents of a pooled frame buffer are a parameter,
  \<open>getbuf\<close>, and so is the initial sequence number drawn from \<^verbatim>\<open>randSource\<close>. A listener's and a
  UDP socket's channel are unbounded lists: the code waits for the application when one is full.
  A listener that was closed takes no connection.
\<close>

section \<open>State\<close>

record udp_datagram =
  u_payload :: bytes
  u_srcIP :: bytes
  u_srcPort :: u16

record net_stack =
  ns_macs :: stack_macs
  ns_hostIPv4 :: bytes
  ns_guestIPv4 :: bytes
  ns_serviceIPv4 :: bytes
  ns_serviceProxyEnabled :: bool
  ns_hostAccessEnabled :: bool
  ns_allowInternet :: bool
  ns_validateChecksums :: bool
  ns_serviceProxyPorts :: "u16 list"
  ns_attached :: bool
  ns_tcpListen :: "u16 \<rightharpoonup> bool"
  ns_tcpConns :: "tcpFourTuple \<rightharpoonup> tcpConn"
  ns_udpSockets :: "u16 \<rightharpoonup> udp_datagram list"
  ns_sourceViolations :: "SourceViolation \<Rightarrow> u64"
  ns_udpRxPackets :: u64
  ns_udpTxPackets :: u64
  ns_clock :: int
  ns_wire :: "bytes list"
  ns_offered :: "tcpFourTuple list"
  ns_proxied :: "tcpFourTuple list"
  ns_udpProxied :: "(u16 \<times> udp_datagram) list"

type_synonym 'a nop = "(net_stack, 'a) op"

section \<open>Sending\<close>

definition sendFrame :: "bytes \<Rightarrow> unit nop" where
  "sendFrame frame ns =
     (if \<not> ns_attached ns then (Inl InterfaceDetached, ns) else (Inr (), ns\<lparr>ns_wire := ns_wire ns @ [frame]\<rparr>))"

definition send_tcp :: "(nat \<Rightarrow> bytes) \<Rightarrow> bytes \<Rightarrow> tcpFourTuple \<Rightarrow> tcp_out \<Rightarrow> unit nop" where
  "send_tcp getbuf localIPv4 key x ns =
     (case sendTCPPacketWithOptions (ns_macs ns) getbuf localIPv4 key (x_seq x) (x_ack x) (x_flags x) (x_payload x) (x_options x) of
        Inl e \<Rightarrow> (Inl e, ns)
      | Inr frame \<Rightarrow> sendFrame frame ns)"

text \<open>The environment of a connection of this stack.\<close>

definition stack_env :: "(nat \<Rightarrow> bytes) \<Rightarrow> net_stack conn_env" where
  "stack_env getbuf =
     \<lparr>env_send = send_tcp getbuf, env_now = ns_clock,
      env_offer = (\<lambda>key ns. if ns_tcpListen ns (k_dstPort key) = Some True then (True, ns\<lparr>ns_offered := ns_offered ns @ [key]\<rparr>) else (False, ns)),
      env_established = (\<lambda>key ns. ns\<lparr>ns_proxied := ns_proxied ns @ [key]\<rparr>),
      env_forget = (\<lambda>key ns. ns\<lparr>ns_tcpConns := (ns_tcpConns ns)(key := None)\<rparr>)\<rparr>"

definition ipEqual :: "bytes \<Rightarrow> bytes \<Rightarrow> bool" where
  "ipEqual a b \<longleftrightarrow> length a = length b \<and> list_all (\<lambda>i. a ! i = b ! i) [0..<length a]"

definition isHostLocalIPv4 :: "bytes \<Rightarrow> bool" where
  "isHostLocalIPv4 ip =
     (case To4 ip of
        None \<Rightarrow> False
      | Some ip4 \<Rightarrow>
          ip4 ! 0 = 0 \<or> ip4 ! 0 = 10 \<or> (ip4 ! 0 = 100 \<and> ip4 ! 1 AND 0xc0 = 0x40) \<or> ip4 ! 0 = 127 \<or>
          (ip4 ! 0 = 169 \<and> ip4 ! 1 = 254) \<or> (ip4 ! 0 = 172 \<and> ip4 ! 1 AND 0xf0 = 16) \<or>
          (ip4 ! 0 = 192 \<and> ip4 ! 1 = 168) \<or> 224 \<le> ip4 ! 0)"

definition shouldProxyService :: "bytes \<Rightarrow> net_stack \<Rightarrow> bool" where
  "shouldProxyService ip ns = (case To4 ip of None \<Rightarrow> False | Some ip4 \<Rightarrow> ipEqual ip4 (ns_serviceIPv4 ns))"

definition serviceProxyAllowed :: "bytes \<Rightarrow> u16 \<Rightarrow> net_stack \<Rightarrow> bool" where
  "serviceProxyAllowed ip port ns =
     (if \<not> shouldProxyService ip ns then False
      else if ns_hostAccessEnabled ns then True else port \<in> set (ns_serviceProxyPorts ns))"

definition serviceARPEnabled :: "net_stack \<Rightarrow> bool" where
  "serviceARPEnabled ns \<longleftrightarrow> ns_hostAccessEnabled ns \<or> 0 < length (ns_serviceProxyPorts ns)"

section \<open>TCP\<close>

text \<open>\<^verbatim>\<open>copy(key.srcIP[:], ip.To4())\<close> into a zero array.\<close>

definition ip_array :: "bytes \<Rightarrow> bytes" where
  "ip_array ip = (case To4 ip of None \<Rightarrow> replicate 4 0 | Some ip4 \<Rightarrow> ip4)"

definition segment_key :: "ipv4Header \<Rightarrow> tcpHeader \<Rightarrow> tcpFourTuple" where
  "segment_key h hdr = \<lparr>k_srcIP = ip_array (ip_src h), k_dstIP = ip_array (ip_dst h),
     k_srcPort = h_srcPort hdr, k_dstPort = h_dstPort hdr\<rparr>"

definition sendRST :: "(nat \<Rightarrow> bytes) \<Rightarrow> ipv4Header \<Rightarrow> tcpHeader \<Rightarrow> unit nop" where
  "sendRST getbuf h hdr ns =
     send_tcp getbuf (case To4 (ip_dst h) of None \<Rightarrow> ns_hostIPv4 ns | Some dst \<Rightarrow> dst) (segment_key h hdr)
       \<lparr>x_seq = h_ack hdr, x_ack = h_seq hdr + 1, x_flags = tcpFlagRST OR tcpFlagACK, x_payload = [], x_options = []\<rparr> ns"

text \<open>Registering a connection for a SYN and answering it.\<close>

definition accept_syn :: "(nat \<Rightarrow> bytes) \<Rightarrow> u32 \<Rightarrow> bool \<Rightarrow> tcpFourTuple \<Rightarrow> tcpHeader \<Rightarrow> tcpOptions \<Rightarrow> bytes \<Rightarrow> bool \<Rightarrow> unit nop" where
  "accept_syn getbuf isn listener key hdr opts localIPv4 callback ns =
     (case sendSynAck (stack_env getbuf)
        (applyPeerOptions opts (newTCPConn isn listener key (h_seq hdr) (h_window hdr) localIPv4 callback), ns) of
        (c, ns1) \<Rightarrow> (Inr (), ns1\<lparr>ns_tcpConns := (ns_tcpConns ns1)(key \<mapsto> c)\<rparr>))"

text \<open>A SYN for which there is no connection.\<close>

definition open_conn :: "(nat \<Rightarrow> bytes) \<Rightarrow> u32 \<Rightarrow> ipv4Header \<Rightarrow> tcpHeader \<Rightarrow> unit nop" where
  "open_conn getbuf isn h hdr ns =
     (case parseTCPOptions (h_options hdr) of
        None \<Rightarrow> (Inl Diverges, ns)
      | Some opts \<Rightarrow>
          let key = segment_key h hdr; dstIP = (case To4 (ip_dst h) of None \<Rightarrow> [] | Some ip4 \<Rightarrow> ip4);
              allowServiceProxy = serviceProxyAllowed dstIP (h_dstPort hdr) ns
          in if ns_tcpListen ns (h_dstPort hdr) \<noteq> None then
               accept_syn getbuf isn True key hdr opts (ns_hostIPv4 ns) False ns
             else if \<not> ns_hostAccessEnabled ns \<and> isHostLocalIPv4 dstIP \<and> \<not> allowServiceProxy then sendRST getbuf h hdr ns
             else if shouldProxyService dstIP ns then
               if \<not> ns_serviceProxyEnabled ns \<or> (\<not> ns_hostAccessEnabled ns \<and> \<not> allowServiceProxy) then sendRST getbuf h hdr ns
               else accept_syn getbuf isn False key hdr opts (ns_serviceIPv4 ns) True ns
             else if \<not> ns_allowInternet ns \<and> \<not> ipEqual dstIP (ns_hostIPv4 ns) then sendRST getbuf h hdr ns
             else if \<not> ipEqual dstIP (ns_hostIPv4 ns) \<and> \<not> ipEqual dstIP (ns_serviceIPv4 ns) then
               accept_syn getbuf isn False key hdr opts dstIP True ns
             else sendRST getbuf h hdr ns)"

text \<open>
  A segment of a registered connection. The table holds a pointer: what handling the segment
  changes is visible there unless it removed the connection.
\<close>

definition conn_segment :: "(nat \<Rightarrow> bytes) \<Rightarrow> tcpFourTuple \<Rightarrow> tcpConn \<Rightarrow> tcpHeader \<Rightarrow> unit nop" where
  "conn_segment getbuf key c hdr ns =
     (case handleSegment (stack_env getbuf) hdr (c, ns) of
        (res, (c1, ns1)) \<Rightarrow>
          let ns2 = (if ns_tcpConns ns1 key = None then ns1 else ns1\<lparr>ns_tcpConns := (ns_tcpConns ns1)(key \<mapsto> c1)\<rparr>)
          in (if res = Inl NetClosed then Inr () else res, ns2))"

definition handleTCP :: "(nat \<Rightarrow> bytes) \<Rightarrow> u32 \<Rightarrow> ipv4Header \<Rightarrow> bytes \<Rightarrow> unit nop" where
  "handleTCP getbuf isn h payload ns =
     (case (if ns_validateChecksums ns then tcpChecksum (ip_src h) (ip_dst h) payload else Inr 0) of
        Inl e \<Rightarrow> (Inl e, ns)
      | Inr computed \<Rightarrow>
          if computed \<noteq> 0 then (Inr (), ns)
          else (case parseTCPHeader payload of
            Inl e \<Rightarrow> (Inl e, ns)
          | Inr hdr \<Rightarrow>
              (case ns_tcpConns ns (segment_key h hdr) of
                 Some c \<Rightarrow> conn_segment getbuf (segment_key h hdr) c hdr ns
               | None \<Rightarrow> if h_flags hdr AND tcpFlagSYN = 0 then (Inr (), ns) else open_conn getbuf isn h hdr ns)))"

section \<open>ARP and ICMP\<close>

definition sendARPReply :: "bytes \<Rightarrow> bytes \<Rightarrow> bytes \<Rightarrow> bytes \<Rightarrow> unit nop" where
  "sendARPReply dstMAC senderMAC senderIP targetIP ns =
     (let host = hostMAC (ns_macs ns);
          f0 = splice (replicate (ethernetHeaderLen + 28) 0) 0 dstMAC;
          f1 = splice (writeMAC f0 6 host) 12 (put_be16 etherTypeARP);
          f2 = splice f1 14 (put_be16 arpHardwareEthernet @ put_be16 arpProtoIPv4 @ [6, 4] @ put_be16 2);
          f3 = copy_ip (writeMAC f2 22 host) 28 targetIP;
          f4 = copy_ip (splice f3 32 senderMAC) 38 senderIP
      in sendFrame f4 ns)"

definition handleARP :: "bytes \<Rightarrow> bytes \<Rightarrow> unit nop" where
  "handleARP srcMAC payload ns =
     (if length payload < 28 then (Inl PacketTooShort, ns)
      else if be16 (slice payload 0 2) \<noteq> arpHardwareEthernet \<or> be16 (slice payload 2 4) \<noteq> arpProtoIPv4 \<or>
        payload ! 4 \<noteq> 6 \<or> payload ! 5 \<noteq> 4 then (Inr (), ns)
      else if be16 (slice payload 6 8) \<noteq> 1 then (Inr (), ns)
      else
        let targetIP = slice payload 24 28
        in if ipEqual targetIP (ns_hostIPv4 ns) \<or> serviceARPEnabled ns \<and> ipEqual targetIP (ns_serviceIPv4 ns)
           then sendARPReply srcMAC (slice payload 8 14) (slice payload 14 18) targetIP ns
           else (Inr (), ns))"

definition icmp_reply :: "bytes \<Rightarrow> bytes" where
  "icmp_reply request =
     (let r0 = replicate (length request) 0; r1 = splice r0 0 [0, request ! 1]; r2 = splice r1 4 (drop 4 request)
      in splice r2 2 (put_be16 (checksum r2)))"

definition sendICMPEchoReply :: "(nat \<Rightarrow> bytes) \<Rightarrow> bytes \<Rightarrow> bytes \<Rightarrow> bytes \<Rightarrow> unit nop" where
  "sendICMPEchoReply getbuf src dst request ns =
     (let frame = getbuf (ipv4HeaderLen + length request); start = ethernetHeaderLen + ipv4HeaderLen;
          reply = icmp_reply request;
          frame1 = splice frame start reply
      in (case buildIPv4HeaderInto (slice frame1 ethernetHeaderLen start) src dst icmpProtocol (length reply) of
            Inl e \<Rightarrow> (Inl e, ns)
          | Inr iphdr \<Rightarrow>
              let frame2 = splice frame1 ethernetHeaderLen iphdr; dstMAC = guestMACForTransmit (ns_macs ns)
              in if \<not> macIsSet dstMAC then (Inl MACUnknown, ns)
                 else (case buildEthernetHeaderInto (take ethernetHeaderLen frame2) dstMAC (hostMAC (ns_macs ns)) etherTypeIPv4 of
                        Inl e \<Rightarrow> (Inl e, ns)
                      | Inr eth \<Rightarrow> sendFrame (splice frame2 0 eth) ns)))"

definition handleICMP :: "(nat \<Rightarrow> bytes) \<Rightarrow> ipv4Header \<Rightarrow> bytes \<Rightarrow> unit nop" where
  "handleICMP getbuf h payload ns =
     (if length payload < 8 then (Inr (), ns)
      else if payload ! 0 \<noteq> 8 then (Inr (), ns)
      else if ns_validateChecksums ns \<and> be16 (slice payload 2 4) \<noteq> checksum (splice payload 2 (put_be16 0)) then (Inr (), ns)
      else sendICMPEchoReply getbuf (ip_dst h) (ip_src h) payload ns)"

section \<open>UDP\<close>

definition handleUDP :: "ipv4Header \<Rightarrow> bytes \<Rightarrow> unit nop" where
  "handleUDP h payload ns =
     (if length payload < 8 then (Inl PacketTooShort, ns)
      else
        let srcPort = be16 (slice payload 0 2); dstPort = be16 (slice payload 2 4); len = unat (be16 (slice payload 4 6))
        in if len < udpHeaderLen \<or> length payload < len then (Inl BadUDPLength, ns)
           else case (if ns_validateChecksums ns \<and> be16 (slice payload 6 8) \<noteq> 0
                      then udpChecksum (ip_src h) (ip_dst h) (take len payload) else Inr 0) of
             Inl e \<Rightarrow> (Inl e, ns)
           | Inr computed \<Rightarrow>
               if computed \<noteq> 0 then (Inr (), ns)
               else
                 let dstIP = (case To4 (ip_dst h) of None \<Rightarrow> [] | Some ip4 \<Rightarrow> ip4);
                     dgram = \<lparr>u_payload = slice payload 8 len, u_srcIP = ip_array (ip_src h), u_srcPort = srcPort\<rparr>
                 in if shouldProxyService dstIP ns then
                      if \<not> ns_serviceProxyEnabled ns \<or> \<not> serviceProxyAllowed dstIP dstPort ns then (Inr (), ns)
                      else (Inr (), ns\<lparr>ns_udpProxied := ns_udpProxied ns @ [(dstPort, dgram)], ns_udpRxPackets := ns_udpRxPackets ns + 1\<rparr>)
                    else (case ns_udpSockets ns dstPort of
                            None \<Rightarrow> (Inr (), ns)
                          | Some q \<Rightarrow> (Inr (), ns\<lparr>ns_udpSockets := (ns_udpSockets ns)(dstPort \<mapsto> q @ [dgram]),
                              ns_udpRxPackets := ns_udpRxPackets ns + 1\<rparr>)))"

section \<open>Frames of the guest\<close>

definition handleIPv4 :: "(nat \<Rightarrow> bytes) \<Rightarrow> u32 \<Rightarrow> bytes \<Rightarrow> unit nop" where
  "handleIPv4 getbuf isn payload ns =
     (case parseIPv4Header payload of
        Inl e \<Rightarrow> (Inl e, ns)
      | Inr hdr \<Rightarrow>
          if ns_validateChecksums ns \<and> ipv4Checksum (take (unat (ip_ihl hdr) * 4) payload) \<noteq> 0 then (Inr (), ns)
          else if To4 (ip_dst hdr) = None then (Inr (), ns)
          else if ip_protocol hdr = udpProtocolNumber then handleUDP hdr (ip_payload hdr) ns
          else if ip_protocol hdr = tcpProtocolNumber then handleTCP getbuf isn hdr (ip_payload hdr) ns
          else if ip_protocol hdr = icmpProtocol then handleICMP getbuf hdr (ip_payload hdr) ns
          else (Inr (), ns))"

definition recordSourceViolation :: "SourceViolation \<Rightarrow> net_stack \<Rightarrow> net_stack" where
  "recordSourceViolation v ns = ns\<lparr>ns_sourceViolations := (ns_sourceViolations ns)(v := ns_sourceViolations ns v + 1)\<rparr>"

definition recordGuestMAC :: "bytes \<Rightarrow> net_stack \<Rightarrow> net_stack" where
  "recordGuestMAC mac ns =
     (if length mac \<noteq> 6 \<or> isBroadcast mac then ns
      else case macToUint64 mac of
        None \<Rightarrow> ns
      | Some v \<Rightarrow>
          let host = hostMAC (ns_macs ns)
          in if macIsSet host \<and> v = host AND macMask then ns
             else ns\<lparr>ns_macs := (ns_macs ns)\<lparr>observedGuestMAC := v\<rparr>\<rparr>)"

definition etherTypeCustom :: u16 where "etherTypeCustom = 0x1234"

definition handleCustom :: "bytes \<Rightarrow> bytes \<Rightarrow> unit nop" where
  "handleCustom srcMAC payload ns =
     (let mac = (case macFromUint64 (hostMAC (ns_macs ns)) of None \<Rightarrow> replicate 6 0 | Some m \<Rightarrow> m)
      in sendFrame (srcMAC @ mac @ put_be16 etherTypeCustom @ payload) ns)"

definition handleEthernetFrame :: "(nat \<Rightarrow> bytes) \<Rightarrow> u32 \<Rightarrow> bytes \<Rightarrow> unit nop" where
  "handleEthernetFrame getbuf isn frame ns =
     (let dst = take 6 frame; src = slice frame 6 12; etherType = be16 (slice frame 12 14); payload = drop 14 frame;
          expectedMAC = (case macFromUint64 (guestMAC (ns_macs ns)) of None \<Rightarrow> [] | Some m \<Rightarrow> m);
          violation = ValidateGuestSource frame expectedMAC (ns_guestIPv4 ns)
      in if violation \<noteq> SourceValid then
           (Inr (), if violation = SourceUnsupportedProtocol then ns else recordSourceViolation violation ns)
         else
           let ns1 = recordGuestMAC src ns; guest = guestMAC (ns_macs ns1)
           in if macIsSet guest \<and> \<not> isBroadcast dst \<and> \<not> macEqualUint64 dst (hostMAC (ns_macs ns1)) \<and> \<not> macEqualUint64 dst guest
              then (Inr (), ns1)
              else if etherType = etherTypeARP then handleARP src payload ns1
              else if etherType = etherTypeIPv4 then handleIPv4 getbuf isn payload ns1
              else if etherType = etherTypeCustom then handleCustom src payload ns1
              else (Inr (), ns1))"

definition DeliverGuestPacket :: "(nat \<Rightarrow> bytes) \<Rightarrow> u32 \<Rightarrow> bytes \<Rightarrow> unit nop" where
  "DeliverGuestPacket getbuf isn packet ns =
     (if length packet < ethernetHeaderLen then (Inl PacketTooShort, ns) else handleEthernetFrame getbuf isn packet ns)"

section \<open>What a connection sends through this stack\<close>

text \<open>A frame on the wire, read back as a TCP segment; other frames carry no stream data.\<close>

definition parse_out :: "bytes \<Rightarrow> tcp_out" where
  "parse_out frame =
     (case parseIPv4Header (drop 14 frame) of
        Inl _ \<Rightarrow> \<lparr>x_seq = 0, x_ack = 0, x_flags = 0, x_payload = [], x_options = []\<rparr>
      | Inr h \<Rightarrow>
          (case (if ip_protocol h = tcpProtocolNumber then parseTCPHeader (ip_payload h) else Inl HeaderTooShort) of
             Inl _ \<Rightarrow> \<lparr>x_seq = 0, x_ack = 0, x_flags = 0, x_payload = [], x_options = []\<rparr>
           | Inr t \<Rightarrow> \<lparr>x_seq = h_seq t, x_ack = h_ack t, x_flags = h_flags t, x_payload = h_payload t, x_options = h_options t\<rparr>))"

definition wire_segments :: "net_stack \<Rightarrow> tcp_out list" where
  "wire_segments ns = map parse_out (ns_wire ns)"

text \<open>The stack can send: the interface is attached, the hardware addresses are known, and buffers have the size asked for.\<close>

definition stack_up :: "(nat \<Rightarrow> bytes) \<Rightarrow> bytes \<Rightarrow> tcpFourTuple \<Rightarrow> net_stack \<Rightarrow> bool" where
  "stack_up getbuf ip key ns \<longleftrightarrow>
     (\<forall>n. length (getbuf n) = ethernetHeaderLen + n) \<and> ns_attached ns \<and> macIsSet (hostMAC (ns_macs ns)) \<and>
     macIsSet (guestMACForTransmit (ns_macs ns)) \<and> length ip = 4 \<and> length (k_srcIP key) = 4"

lemma send_tcp_up:
  assumes "stack_up getbuf ip key ns" and "length (x_payload x) \<le> maxPayload" and "length (x_options x) \<le> 40"
  shows "\<exists>frame. send_tcp getbuf ip key x ns = (Inr (), ns\<lparr>ns_wire := ns_wire ns @ [frame]\<rparr>) \<and>
    x_seq (parse_out frame) = x_seq x \<and> x_payload (parse_out frame) = x_payload x"
proof -
  have up: "\<And>n. length (getbuf n) = ethernetHeaderLen + n" "ns_attached ns" "macIsSet (hostMAC (ns_macs ns))"
      "macIsSet (guestMACForTransmit (ns_macs ns))" "length ip = 4" "length (k_srcIP key) = 4" "length (x_payload x) \<le> 65000"
    using assms by (simp_all add: stack_up_def maxPayload_def)
  from tcp_frame_parses [OF up(1,5,6,3,4) assms(3) up(7), of "x_seq x" "x_ack x" "x_flags x"] obtain frame h t where
    f: "sendTCPPacketWithOptions (ns_macs ns) getbuf ip key (x_seq x) (x_ack x) (x_flags x) (x_payload x) (x_options x) = Inr frame"
      "parseIPv4Header (drop 14 frame) = Inr h" "ip_protocol h = tcpProtocolNumber" "parseTCPHeader (ip_payload h) = Inr t"
      "h_seq t = x_seq x" "h_payload t = x_payload x" by blast
  then show ?thesis using up(2) by (intro exI [of _ frame]) (simp add: send_tcp_def sendFrame_def parse_out_def)
qed

interpretation net: conn_host "stack_env getbuf" wire_segments "stack_up getbuf" for getbuf
proof unfold_locales
  show "\<exists>w1 y. env_send (stack_env getbuf) ip key x w = (Inr (), w1) \<and> stack_up getbuf ip key w1 \<and>
      wire_segments w1 = wire_segments w @ [y] \<and> x_seq y = x_seq x \<and> x_payload y = x_payload x"
    if "stack_up getbuf ip key w" "length (x_payload x) \<le> maxPayload" "length (x_options x) \<le> 40" for ip key w x
    using send_tcp_up [OF that] that(1) by (fastforce simp: stack_env_def stack_up_def wire_segments_def)
qed (auto simp: stack_env_def stack_up_def wire_segments_def)

text \<open>A connection of the stack right after the handshake.\<close>

definition just_opened :: "(nat \<Rightarrow> bytes) \<Rightarrow> u32 \<Rightarrow> net_stack run \<Rightarrow> bool" where
  "just_opened getbuf s r \<longleftrightarrow>
     (let c = r_conn r in c_state c = tcpStateEstablished \<and> \<not> c_closed c \<and> \<not> c_writeClosed c \<and> c_hostSeq c = s \<and> c_sendAcked c = s \<and>
        c_sendBuf c = newTCPSendBuffer sendBufCapacity \<and> cc_ok (c_congCtrl c) \<and> \<not> c_nagleEnabled c \<and> c_nagleBuf c = [] \<and>
        stack_up getbuf (c_localIPv4 c) (c_key c) (r_world r)) \<and>
     r_wrote r = [] \<and> r_waiting r = None \<and> \<not> r_failed r \<and> unat s + 1 < 2 ^ 32"


text \<open>A stack with one guest, and buffers as the pool hands them out the first time.\<close>

definition fresh_buf :: "nat \<Rightarrow> bytes" where
  "fresh_buf n = replicate (ethernetHeaderLen + n) 0"

definition demo_stack :: net_stack where
  "demo_stack = \<lparr>ns_macs = \<lparr>hostMAC = 0x020000000001, guestMAC = 0x020000000002, observedGuestMAC = macUnset\<rparr>,
     ns_hostIPv4 = [10, 42, 0, 1], ns_guestIPv4 = [10, 42, 0, 2], ns_serviceIPv4 = [10, 42, 0, 100],
     ns_serviceProxyEnabled = True, ns_hostAccessEnabled = False, ns_allowInternet = True, ns_validateChecksums = False,
     ns_serviceProxyPorts = [8080], ns_attached = True, ns_tcpListen = Map.empty, ns_tcpConns = Map.empty,
     ns_udpSockets = Map.empty, ns_sourceViolations = (\<lambda>_. 0), ns_udpRxPackets = 0, ns_udpTxPackets = 0, ns_clock = 0,
     ns_wire = [], ns_offered = [], ns_proxied = [], ns_udpProxied = []\<rparr>"

definition demo_run :: "net_stack run" where
  "demo_run = \<lparr>r_conn = (newTCPConn 7 False demo_key 99 1000 [10, 42, 0, 1] False)\<lparr>c_state := tcpStateEstablished\<rparr>,
     r_world = demo_stack, r_wrote = [], r_read = [], r_eof = False, r_waiting = None, r_failed = False\<rparr>"

lemma demo_up: "stack_up fresh_buf [10, 42, 0, 1] demo_key demo_stack"
  by (simp add: stack_up_def fresh_buf_def demo_stack_def demo_key_def macIsSet_def macUnset_def guestMACForTransmit_def)


text \<open>
  C39 (bounds). Wrap-around of sequence numbers is not handled: once the connection has sent past
  sequence number \<open>2 ^ 32\<close>, an acknowledgement of data before that point compares as beyond
  everything sent, and the next sequence number to send is moved back to it. New data then goes
  out under sequence numbers that were already used.
\<close>

theorem ack_before_wrap_rewinds:
  assumes "\<not> c_closed c" and "c_state c = tcpStateEstablished" and "c_nagleBuf c = []" and "cc_ok (c_congCtrl c)"
    and "h_flags hdr = tcpFlagACK" and "h_payload hdr = []" and "c_sendAcked c < h_ack hdr" and "c_hostSeq c < h_ack hdr"
  shows "\<exists>c1 w1. handleSegment E hdr (c, w) = (Inr (), (c1, w1)) \<and> c_hostSeq c1 = h_ack hdr \<and> c_sendAcked c1 = h_ack hdr"
proof -
  define c0 where "c0 = c\<lparr>c_peerWnd := h_window hdr\<rparr>"
  have c0: "c_sendAcked c0 = c_sendAcked c" "c_congCtrl c0 = c_congCtrl c" "c_sendBuf c0 = c_sendBuf c" "c_nagleBuf c0 = c_nagleBuf c"
    by (simp_all add: c0_def)
  obtain cc where cc: "onAck (uint (h_ack hdr - c_sendAcked c)) (c_congCtrl c) = Inr cc" using cc_events_ok(1) assms(4) by blast
  obtain k rtt sb where sb: "SendBuffer_ack (env_now E w) (h_ack hdr) (c_sendBuf c) = ((k, rtt), sb)" by (metis prod.exhaust)
  define c2 where "c2 = c0\<lparr>c_sendAcked := h_ack hdr, c_dupAcks := 0, c_congCtrl := cc, c_sendBuf := sb,
     c_rttEst := (case rtt of None \<Rightarrow> c_rttEst c0 | Some r \<Rightarrow> resetBackoff (RTT_update r (c_rttEst c0)))\<rparr>"
  define c1 where "c1 = (if 0 < SendBuffer_len sb then restartRetxTimer c2 else stopRetxTimer c2)"
  have adv: "ack_advances E hdr (c0, w) = (Inr (), (c1, w))"
    using assms(3) c0 by (simp add: ack_advances.simps Let_def cc sb c1_def c2_def stopRetxTimer_def)
  have c1: "c_hostSeq c1 = c_hostSeq c" "c_closed c1 = c_closed c" "c_state c1 = c_state c" "c_sendAcked c1 = h_ack hdr"
    by (simp_all add: c1_def c2_def c0_def restartRetxTimer_def stopRetxTimer_def)
  have f: "tcpFlagACK AND tcpFlagACK \<noteq> 0" "tcpFlagACK AND tcpFlagFIN = 0" "tcpFlagACK AND tcpFlagRST = 0"
    by (simp_all add: tcpFlagACK_def tcpFlagFIN_def tcpFlagRST_def)
  have "handle_ack E hdr (c, w) = (Inr (), (c1\<lparr>c_hostSeq := h_ack hdr, c_sendAcked := h_ack hdr\<rparr>, w))"
    using assms(5,7,8) c1(1) f(1) adv c0(1) by (simp add: handle_ack.simps Let_def c0_def [symmetric])
  then show ?thesis using assms(1,2,5,6) c1(2-4) f
    by (simp add: handleSegment_def segment_body.simps handle_established.simps)
qed

theorem ack_before_wrap_rewinds_witness:
  "let c = (r_conn demo_run)\<lparr>c_hostSeq := 16, c_sendAcked := 0xfffffff0\<rparr>;
     hdr = (demo_segment 100 [])\<lparr>h_flags := tcpFlagACK, h_ack := 0xfffffff8\<rparr>
   in \<exists>c1 w1. handleSegment demo_env hdr (c, ()) = (Inr (), (c1, w1)) \<and> c_hostSeq c1 = 0xfffffff8"
proof -
  let ?c = "(r_conn demo_run)\<lparr>c_hostSeq := 16, c_sendAcked := 0xfffffff0\<rparr>"
    and ?hdr = "(demo_segment 100 [])\<lparr>h_flags := tcpFlagACK, h_ack := 0xfffffff8\<rparr>"
  have "cc_ok (c_congCtrl ?c)" by code_simp
  moreover have "\<not> c_closed ?c" "c_state ?c = tcpStateEstablished" "c_nagleBuf ?c = []" "h_flags ?hdr = tcpFlagACK"
      "h_payload ?hdr = []" "c_sendAcked ?c < h_ack ?hdr" "c_hostSeq ?c < h_ack ?hdr" by code_simp+
  ultimately show ?thesis using ack_before_wrap_rewinds [of ?c ?hdr demo_env "()"] unfolding Let_def by auto
qed

end
