(* ===== verification/NetPolicy.thy ===== *)
theory NetPolicy
  imports NetStack
begin

text \<open>
  What a guest can reach through the network stack. A connection to the outside is started
  in \<^verbatim>\<open>handleSegment\<close>, through the callback \<^verbatim>\<open>onEstablished\<close> that \<^verbatim>\<open>handleTCP\<close> gave the
  connection when it accepted the SYN. The locale \<open>conn_effects\<close> carries a relation between
  the worlds before and after a segment through \<^verbatim>\<open>handleSegment\<close>; the stack's instance says
  that a segment starts at most the proxy of its own connection, and leaves the policy alone.
\<close>

section \<open>Effects of a segment on the world\<close>

text \<open>
  The connection keeps its key, its address, its callback and the invariant of its congestion
  control, and the world changes as \<open>R\<close> allows.
\<close>

definition same_conn :: "tcpConn \<Rightarrow> tcpConn \<Rightarrow> bool" where
  "same_conn c c1 \<longleftrightarrow> c_key c1 = c_key c \<and> c_onEstablished c1 = c_onEstablished c \<and> c_localIPv4 c1 = c_localIPv4 c \<and>
     (cc_ok (c_congCtrl c) \<longrightarrow> cc_ok (c_congCtrl c1))"

lemma same_conn_trans: "same_conn c c1 \<Longrightarrow> same_conn c1 c2 \<Longrightarrow> same_conn c c2"
  by (auto simp: same_conn_def)

lemma same_conn_simps [simp]:
  "same_conn c c" "same_conn c (c1\<lparr>c_state := s\<rparr>) \<longleftrightarrow> same_conn c c1" "same_conn c (c1\<lparr>c_peerWnd := wnd\<rparr>) \<longleftrightarrow> same_conn c c1"
  "same_conn c (c1\<lparr>c_hostSeq := n\<rparr>) \<longleftrightarrow> same_conn c c1" "same_conn c (c1\<lparr>c_sendAcked := n\<rparr>) \<longleftrightarrow> same_conn c c1"
  "same_conn c (c1\<lparr>c_guestSeq := n\<rparr>) \<longleftrightarrow> same_conn c c1" "same_conn c (c1\<lparr>c_oooRecvBuf := rb\<rparr>) \<longleftrightarrow> same_conn c c1"
  "same_conn c (c1\<lparr>c_nagleBuf := nb\<rparr>) \<longleftrightarrow> same_conn c c1" "same_conn c (c1\<lparr>c_rttEst := est\<rparr>) \<longleftrightarrow> same_conn c c1"
  "same_conn c (c1\<lparr>c_sendBuf := sb\<rparr>) \<longleftrightarrow> same_conn c c1" "same_conn c (c1\<lparr>c_dupAcks := i\<rparr>) \<longleftrightarrow> same_conn c c1"
  "same_conn c (c1\<lparr>c_retxTimer := t\<rparr>) \<longleftrightarrow> same_conn c c1"
  by (simp_all add: same_conn_def)

lemma same_conn_ops [simp]:
  "same_conn c (enqueueData d c1) \<longleftrightarrow> same_conn c c1" "same_conn c (mark_closed c1) \<longleftrightarrow> same_conn c c1"
  "same_conn c (applyPeerOptions opts c1) \<longleftrightarrow> same_conn c c1" "same_conn c (completeDial e c1) \<longleftrightarrow> same_conn c c1"
  by (simp_all add: same_conn_def enqueueData_def mark_closed_def Let_def completeDial_def stopRetxTimer_def applyPeerOptions_def
      split: dial.split)

lemma same_conn_onAck: "onAck n (c_congCtrl c) = Inr cc \<Longrightarrow> same_conn c (c1\<lparr>c_congCtrl := cc\<rparr>) \<longleftrightarrow> same_conn c (c1\<lparr>c_congCtrl := c_congCtrl c\<rparr>)"
  using cc_events_ok(1) [of "c_congCtrl c" n] by (auto simp: same_conn_def)

lemma same_conn_onDupAck:
  "onDupAck (c_congCtrl c) = (fire, cc) \<Longrightarrow> same_conn c (c1\<lparr>c_congCtrl := cc\<rparr>) \<longleftrightarrow> same_conn c (c1\<lparr>c_congCtrl := c_congCtrl c\<rparr>)"
  using cc_events_ok(2) [of "c_congCtrl c"] by (auto simp: same_conn_def)

definition moves :: "(tcpFourTuple \<Rightarrow> bool \<Rightarrow> 'w \<Rightarrow> 'w \<Rightarrow> bool) \<Rightarrow> 'w cstate \<Rightarrow> 'w cstate \<Rightarrow> bool" where
  "moves R s s1 \<longleftrightarrow> same_conn (fst s) (fst s1) \<and> R (c_key (fst s)) (c_onEstablished (fst s)) (snd s) (snd s1)"

locale conn_effects =
  fixes E :: "'w conn_env"
    and R :: "tcpFourTuple \<Rightarrow> bool \<Rightarrow> 'w \<Rightarrow> 'w \<Rightarrow> bool"
  assumes R_refl: "R key cb w w"
    and R_trans: "R key cb w w1 \<Longrightarrow> R key cb w1 w2 \<Longrightarrow> R key cb w w2"
    and R_send: "R key cb w (snd (env_send E ip k x w))"
    and R_offer: "R key cb w (snd (env_offer E key w))"
    and R_established: "R key True w (env_established E key w)"
    and R_forget: "R key cb w (env_forget E key w)"
begin

lemma moves_refl [simp]: "moves R s s"
  by (simp add: moves_def R_refl)

lemma moves_trans: "moves R s s1 \<Longrightarrow> moves R s1 s2 \<Longrightarrow> moves R s s2"
  by (auto simp: moves_def same_conn_def intro: R_trans)

lemma moves_conn: "same_conn c c1 \<Longrightarrow> moves R (c, w) (c1, w)"
  by (simp add: moves_def R_refl)

lemma moves_from: "moves R (c1, w) s \<Longrightarrow> same_conn c c1 \<Longrightarrow> moves R (c, w) s"
  by (auto simp: moves_def same_conn_def)

lemma moves_to: "moves R s (c1, w) \<Longrightarrow> same_conn c1 c2 \<Longrightarrow> moves R s (c2, w)"
  by (auto simp: moves_def same_conn_def)

lemma send_quiet_moves: "moves R s (send_quiet E sq ak flags payload options s)"
  by (cases s) (simp add: moves_def send_quiet.simps R_send)

lemma sendAck_moves: "moves R s (sendAck E s)"
  by (cases s) (simp add: sendAck.simps send_quiet_moves)

lemma sendFin_moves: "moves R s (sendFin E s)"
  by (cases s) (simp add: sendFin.simps, rule moves_from [OF send_quiet_moves], simp_all)

lemma enqueue_all_same:
  "same_conn c c1 \<Longrightarrow> same_conn c (fold (\<lambda>seg. enqueueData (Some seg)) segs c1)"
  by (induction segs arbitrary: c1) simp_all

lemma Conn_Close_moves: "moves R s (Conn_Close E s)"
proof (cases s)
  case (Pair c w)
  have "moves R (c, w) (mark_closed c, w)" by (simp add: moves_conn)
  moreover have "moves R (mark_closed c, w) (sendFin E (mark_closed c, w))" by (rule sendFin_moves)
  ultimately have "moves R (c, w) (if f then sendFin E (mark_closed c, w) else (mark_closed c, w))" for f
    by (auto intro: moves_trans)
  moreover have "moves R (c, w) (case s1 of (c1, w1) \<Rightarrow> (c1, env_forget E (c_key c1) w1))" if "moves R (c, w) s1" for s1
    using that R_trans [OF _ R_forget] by (cases s1) (auto simp: moves_def same_conn_def)
  ultimately show ?thesis unfolding Pair Conn_Close.simps Let_def by simp
qed

lemma peer_closed_moves: "moves R s (peer_closed E wc s)"
proof (cases s)
  case (Pair c w)
  have "moves R (c, w) (sendAck E (enqueueData None c, w))" by (rule moves_from [OF sendAck_moves]) simp_all
  then show ?thesis using moves_trans [OF _ sendFin_moves] by (simp add: Pair peer_closed.simps Let_def)
qed

lemma handle_established_moves: "moves R s (handle_established E hdr s)"
proof (cases s)
  case (Pair c w)
  have "moves R (c, w) (sendAck E (c1, w)) \<and> moves R (c, w) (peer_closed E wc (c1, w))"
    if "same_conn c c1" for c1 wc
    using moves_from [OF sendAck_moves that] moves_from [OF peer_closed_moves that] by blast
  then show ?thesis by (auto simp: Pair handle_established.simps Let_def Conn_Close_moves enqueue_all_same split: prod.split)
qed

lemma ack_advances_moves: "moves R s (snd (ack_advances E hdr s))"
proof (cases s)
  case (Pair c w)
  have "moves R (c, w) (send_quiet E sq ak fl p os (c1, w))"
    if "same_conn c c1" for c1 sq ak fl p os
    by (rule moves_from [OF send_quiet_moves that])
  then show ?thesis
    by (auto simp: Pair ack_advances.simps Let_def restartRetxTimer_def stopRetxTimer_def moves_conn same_conn_onAck
        split: sum.split prod.split)
qed

lemma ack_duplicate_moves: "moves R s (ack_duplicate E s)"
proof (cases s)
  case (Pair c w)
  have "moves R (c, w) (send_quiet E sq ak fl p os (c1, w))"
    if "same_conn c c1" for c1 sq ak fl p os
    by (rule moves_from [OF send_quiet_moves that])
  then show ?thesis by (auto simp: Pair ack_duplicate.simps Let_def moves_conn same_conn_onDupAck split: prod.split option.split)
qed

lemma handle_ack_moves: "moves R s (snd (handle_ack E hdr s))"
proof (cases s)
  case (Pair c w)
  define c0 where "c0 = c\<lparr>c_peerWnd := h_window hdr\<rparr>"
  define X where "X = (if c_sendAcked c0 < h_ack hdr then ack_advances E hdr (c0, w)
     else if h_ack hdr = c_sendAcked c0 \<and> 0 < SendBuffer_len (c_sendBuf c0) \<and> h_payload hdr = [] \<and>
       h_flags hdr AND (tcpFlagSYN OR tcpFlagFIN OR tcpFlagRST) = 0 \<and> h_window hdr = c_peerWnd c
     then (Inr (), ack_duplicate E (c0, w)) else (Inr (), (c0, w)))"
  have "moves R (c0, w) (snd X)" by (simp add: X_def ack_advances_moves ack_duplicate_moves)
  then have m: "moves R (c, w) (snd X)" by (rule moves_from) (simp_all add: c0_def)
  obtain res c1 w1 where X: "X = (res, (c1, w1))" by (metis prod.exhaust)
  have "moves R (c, w) (c1\<lparr>c_hostSeq := h_ack hdr, c_sendAcked := h_ack hdr\<rparr>, w1)"
    by (rule moves_to [OF m [unfolded X snd_conv]]) simp_all
  then show ?thesis using m unfolding Pair handle_ack.simps Let_def c0_def [symmetric] X_def [symmetric] X
    by (cases res) simp_all
qed

lemma segment_body_moves:
  assumes again: "\<And>s. moves R s (snd (again E hdr s))"
  shows "moves R s (snd (segment_body again E hdr s))"
proof (cases s)
  case (Pair c w)
  obtain res c1 w1 where a: "handle_ack E hdr (c, w) = (res, (c1, w1))" by (metis prod.exhaust)
  have m: "moves R (c, w) (c1, w1)" using handle_ack_moves [of "(c, w)" hdr] a by simp
  have step: "moves R (c, w) s2" if "moves R (c2, w1) s2" "same_conn c1 c2" for c2 s2
    using moves_trans [OF m moves_from [OF that]] .
  let ?c2 = "c1\<lparr>c_state := tcpStateEstablished\<rparr>"
  have offer: "moves R (?c2, w1) (case env_offer E (c_key ?c2) w1 of (taken, w2) \<Rightarrow> if taken then (?c2, w2) else Conn_Close E (?c2, w2))"
  proof (cases "env_offer E (c_key ?c2) w1")
    case (Pair taken w2)
    then have "moves R (?c2, w1) (?c2, w2)" using R_offer [of "c_key c1" _ w1] by (simp add: moves_def)
    then show ?thesis using moves_trans [OF _ Conn_Close_moves] Pair by simp
  qed
  have cb: "c_onEstablished c1 \<Longrightarrow> moves R (?c2, w1) (?c2, env_established E (c_key ?c2) w1)"
    by (simp add: moves_def R_established)
  define s3 where "s3 = (if c_listener c1 then
       (case env_offer E (c_key c1) w1 of (taken, w2) \<Rightarrow> if taken then (?c2, w2) else Conn_Close E (?c2, w2))
     else if c_onEstablished c1 then (?c2, env_established E (c_key c1) w1) else (?c2, w1))"
  have "moves R (?c2, w1) s3" using offer cb by (simp add: s3_def)
  then have s3: "moves R (c, w) s3" by (rule step) simp_all
  have last: "moves R (c, w) (snd (again E hdr s3))" by (rule moves_trans [OF s3 again])
  show ?thesis
  proof (cases "c_closed c \<or> isl res")
    case True then show ?thesis using a m by (auto simp: Pair segment_body.simps isl_def)
  next
    case False
    then obtain u where res: "res = Inr u" by (cases res) auto
    have d: "moves R (c, w) (completeDial e c2, w2)" if "sendAck E (c3, w1) = (c2, w2)" "same_conn c1 c3" for e c2 w2 c3
      using step [OF sendAck_moves, of c3] that by (auto intro: moves_to)
    have est: "moves R (c, w) (handle_established E hdr (c1, w1))" by (rule moves_trans [OF m handle_established_moves])
    have close: "moves R (c, w) (Conn_Close E (c2, w1))" if "same_conn c1 c2" for c2
      by (rule step [OF Conn_Close_moves that])
    show ?thesis
    proof (cases "c_state c1")
      case tcpStateSynRcvd
      then show ?thesis using False m s3 [unfolded s3_def] last [unfolded s3_def] a res
        by (cases "c_listener c1"; cases "c_onEstablished c1") (simp_all add: Pair segment_body.simps Let_def)
    next
      case tcpStateSynSent
      have ack: "moves R (c, w) (snd (case sendAck E (c3, w1) of (c2, w2) \<Rightarrow> (Inr () :: error + unit, (completeDial None c2, w2))))"
        if "same_conn c1 c3" for c3
        using d [OF _ that] by (cases "sendAck E (c3, w1)") simp
      show ?thesis using False m a res tcpStateSynSent close ack
        by (simp add: Pair segment_body.simps split: option.split)
    qed (use False m a res est close in \<open>simp_all add: Pair segment_body.simps\<close>)
  qed
qed

lemma handleSegment_moves: "moves R s (snd (handleSegment E hdr s))"
  unfolding handleSegment_def by (intro segment_body_moves) simp

end

section \<open>The policy of the stack\<close>

text \<open>
  The settings that decide what a guest reaches, and what they allow: a port of the host's
  loopback interface through the service address, or an address outside.
\<close>

definition policy :: "net_stack \<Rightarrow> bytes \<times> bytes \<times> bool \<times> bool \<times> bool \<times> u16 list \<times> (u16 \<rightharpoonup> bool)" where
  "policy ns = (ns_hostIPv4 ns, ns_serviceIPv4 ns, ns_serviceProxyEnabled ns, ns_hostAccessEnabled ns, ns_allowInternet ns,
     ns_serviceProxyPorts ns, ns_tcpListen ns)"

definition may_proxy_service :: "net_stack \<Rightarrow> u16 \<Rightarrow> bool" where
  "may_proxy_service ns port \<longleftrightarrow>
     ns_serviceProxyEnabled ns \<and> (ns_hostAccessEnabled ns \<or> port \<in> set (ns_serviceProxyPorts ns))"

definition may_proxy :: "net_stack \<Rightarrow> tcpFourTuple \<Rightarrow> bool" where
  "may_proxy ns key \<longleftrightarrow> ns_tcpListen ns (k_dstPort key) = None \<and>
     (if k_dstIP key = ns_serviceIPv4 ns then may_proxy_service ns (k_dstPort key)
      else k_dstIP key \<noteq> ns_hostIPv4 ns \<and> ns_allowInternet ns \<and> (ns_hostAccessEnabled ns \<or> \<not> isHostLocalIPv4 (k_dstIP key)))"

definition conn_ok :: "tcpFourTuple \<Rightarrow> tcpConn \<Rightarrow> bool" where
  "conn_ok key c \<longleftrightarrow> c_key c = key \<and> length (k_srcIP key) = 4 \<and> length (k_dstIP key) = 4 \<and> length (c_localIPv4 c) = 4 \<and>
     cc_ok (c_congCtrl c)"

definition stack_ok :: "net_stack \<Rightarrow> bool" where
  "stack_ok ns \<longleftrightarrow> length (ns_hostIPv4 ns) = 4 \<and> length (ns_serviceIPv4 ns) = 4 \<and>
     (\<forall>key c. ns_tcpConns ns key = Some c \<longrightarrow> conn_ok key c)"

definition policy_ok :: "net_stack \<Rightarrow> bool" where
  "policy_ok ns \<longleftrightarrow>
     (\<forall>key c. ns_tcpConns ns key = Some c \<longrightarrow> c_onEstablished c \<longrightarrow> may_proxy ns key) \<and>
     (\<forall>key\<in>set (ns_proxied ns). may_proxy ns key) \<and> (\<forall>(port, _)\<in>set (ns_udpProxied ns). may_proxy_service ns port)"

definition stack_keeps :: "net_stack \<Rightarrow> net_stack \<Rightarrow> bool" where
  "stack_keeps ns ns1 \<longleftrightarrow> policy ns1 = policy ns \<and> (stack_ok ns \<longrightarrow> stack_ok ns1 \<and> (policy_ok ns \<longrightarrow> policy_ok ns1))"

lemma stack_keeps_refl [simp]: "stack_keeps ns ns"
  by (simp add: stack_keeps_def)

lemma stack_keeps_trans: "stack_keeps ns ns1 \<Longrightarrow> stack_keeps ns1 ns2 \<Longrightarrow> stack_keeps ns ns2"
  by (simp add: stack_keeps_def)

lemma policy_cong:
  assumes "policy ns1 = policy ns"
  shows "may_proxy ns1 = may_proxy ns" "may_proxy_service ns1 = may_proxy_service ns" "ns_hostIPv4 ns1 = ns_hostIPv4 ns"
    "ns_serviceIPv4 ns1 = ns_serviceIPv4 ns"
  using assms by (auto simp: policy_def may_proxy_def may_proxy_service_def fun_eq_iff)

text \<open>What a segment of the connection \<open>key\<close> does to the rest of the stack.\<close>

definition stack_rel :: "tcpFourTuple \<Rightarrow> bool \<Rightarrow> net_stack \<Rightarrow> net_stack \<Rightarrow> bool" where
  "stack_rel key cb ns ns1 \<longleftrightarrow> policy ns1 = policy ns \<and> ns_tcpConns ns1 \<subseteq>\<^sub>m ns_tcpConns ns \<and>
     (\<exists>ks. ns_proxied ns1 = ns_proxied ns @ ks \<and> set ks \<subseteq> (if cb then {key} else {})) \<and> ns_udpProxied ns1 = ns_udpProxied ns"

lemma stack_rel_trans: "stack_rel key cb ns ns1 \<Longrightarrow> stack_rel key cb ns1 ns2 \<Longrightarrow> stack_rel key cb ns ns2"
  by (auto simp: stack_rel_def intro: map_le_trans split: if_splits)

lemma stack_rel_send: "stack_rel key cb ns (snd (send_tcp getbuf ip k x ns))"
  by (simp add: stack_rel_def send_tcp_def sendFrame_def policy_def split: sum.split)

interpretation effects: conn_effects "stack_env getbuf" stack_rel for getbuf
proof unfold_locales
  show "stack_rel key cb w (snd (env_send (stack_env getbuf) ip k x w))" for key cb w ip k x
    by (simp add: stack_env_def stack_rel_send)
  show "stack_rel key cb w (snd (env_offer (stack_env getbuf) key w))" for key cb w
    by (simp add: stack_env_def stack_rel_def policy_def)
  show "stack_rel key cb w (env_forget (stack_env getbuf) key w)" for key cb w
    by (auto simp: stack_env_def stack_rel_def policy_def map_le_def)
qed (auto simp: stack_env_def stack_rel_def policy_def intro: stack_rel_trans map_le_trans split: if_splits)

lemma stack_keeps_frame:
  assumes "policy ns1 = policy ns" "ns_tcpConns ns1 = ns_tcpConns ns" "ns_proxied ns1 = ns_proxied ns"
    "ns_udpProxied ns1 = ns_udpProxied ns"
  shows "stack_keeps ns ns1"
  using assms policy_cong [OF assms(1)] by (simp add: stack_keeps_def stack_ok_def policy_ok_def)

lemma sendFrame_keeps: "stack_keeps ns (snd (sendFrame frame ns))"
  by (rule stack_keeps_frame) (simp_all add: sendFrame_def policy_def)

lemma send_tcp_keeps: "stack_keeps ns (snd (send_tcp getbuf ip key x ns))"
  by (simp add: send_tcp_def sendFrame_keeps split: sum.split)

lemma handleSegment_stack:
  assumes "handleSegment (stack_env getbuf) hdr (c, ns) = (res, (c1, ns1))"
  shows "same_conn c c1" "stack_rel (c_key c) (c_onEstablished c) ns ns1"
  using effects.handleSegment_moves [of "(c, ns)" getbuf hdr] assms by (simp_all add: moves_def)

lemma conn_segment_keeps:
  assumes conn: "ns_tcpConns ns key = Some c"
  shows "stack_keeps ns (snd (conn_segment getbuf key c hdr ns))"
proof -
  obtain res c1 ns1 where h: "handleSegment (stack_env getbuf) hdr (c, ns) = (res, (c1, ns1))" by (metis prod.exhaust)
  note m = handleSegment_stack [OF h]
  define ns2 where "ns2 = (if ns_tcpConns ns1 key = None then ns1 else ns1\<lparr>ns_tcpConns := (ns_tcpConns ns1)(key \<mapsto> c1)\<rparr>)"
  have pol: "policy ns2 = policy ns" and prox: "ns_proxied ns2 = ns_proxied ns1" "ns_udpProxied ns2 = ns_udpProxied ns"
    using m(2) by (simp_all add: ns2_def stack_rel_def policy_def)
  have conns: "c' = c1 \<and> k = key \<or> ns_tcpConns ns k = Some c'" if "ns_tcpConns ns2 k = Some c'" for k c'
    using that m(2) by (auto simp: ns2_def stack_rel_def map_le_def dom_def split: if_splits)
  have "conn_ok key c \<Longrightarrow> conn_ok key c1" using m(1) by (auto simp: conn_ok_def same_conn_def)
  then have ok: "stack_ok ns \<Longrightarrow> stack_ok ns2"
    using conns conn policy_cong [OF pol] by (fastforce simp: stack_ok_def)
  have "policy_ok ns2" if "stack_ok ns" "policy_ok ns"
  proof -
    have key: "c_key c = key" "c_onEstablished c \<Longrightarrow> may_proxy ns key" "c_onEstablished c1 = c_onEstablished c"
      using that conn m(1) by (auto simp: stack_ok_def policy_ok_def conn_ok_def same_conn_def)
    have "set (ns_proxied ns2) \<subseteq> set (ns_proxied ns) \<union> (if c_onEstablished c then {key} else {})"
      using m(2) key(1) by (auto simp: prox stack_rel_def)
    then show ?thesis using that(2) conns key(2,3) policy_cong [OF pol]
      by (fastforce simp: policy_ok_def prox split: if_splits)
  qed
  with ok pol show ?thesis by (simp add: conn_segment_def h Let_def stack_keeps_def flip: ns2_def)
qed

lemma newTCPConn_fields:
  "c_key (newTCPConn isn l key sq wnd ip cb) = key" "c_onEstablished (newTCPConn isn l key sq wnd ip cb) = cb"
  "c_localIPv4 (newTCPConn isn l key sq wnd ip cb) = ip" "cc_ok (c_congCtrl (newTCPConn isn l key sq wnd ip cb))"
proof -
  have "cc_ok (newTCPCongestionControl defaultMSS)" by code_simp
  then show "cc_ok (c_congCtrl (newTCPConn isn l key sq wnd ip cb))" by (simp add: newTCPConn_def)
qed (simp_all add: newTCPConn_def)

lemma accept_syn_keeps:
  assumes key: "length (k_srcIP key) = 4" "length (k_dstIP key) = 4" and ip: "stack_ok ns \<Longrightarrow> length ip = 4"
    and cb: "cb \<Longrightarrow> may_proxy ns key"
  shows "stack_keeps ns (snd (accept_syn getbuf isn l key hdr opts ip cb ns))"
proof -
  let ?c0 = "applyPeerOptions opts (newTCPConn isn l key (h_seq hdr) (h_window hdr) ip cb)"
  obtain c ns1 where s: "sendSynAck (stack_env getbuf) (?c0, ns) = (c, ns1)" by (metis prod.exhaust)
  have "same_conn (newTCPConn isn l key (h_seq hdr) (h_window hdr) ip cb) ?c0" by simp
  moreover have "moves stack_rel (?c0, ns) (c, ns1)"
    using effects.moves_from [OF effects.send_quiet_moves] s by (metis sendSynAck.simps same_conn_simps(1,4))
  ultimately have c: "same_conn (newTCPConn isn l key (h_seq hdr) (h_window hdr) ip cb) c"
    by (auto simp: moves_def same_conn_def)
  have "ns1 = snd (send_tcp getbuf ip key \<lparr>x_seq = c_hostSeq ?c0, x_ack = c_guestSeq ?c0, x_flags = tcpFlagSYN OR tcpFlagACK,
      x_payload = [], x_options = buildSynAckOptions defaultMSS (c_ourWndScale ?c0) (c_wndScaleOK ?c0)\<rparr> ns)"
    using s by (simp add: sendSynAck.simps send_quiet.simps stack_env_def applyPeerOptions_def newTCPConn_fields(1,3) Let_def
        split: if_splits)
  then have f: "policy ns1 = policy ns" "ns_tcpConns ns1 = ns_tcpConns ns" "ns_proxied ns1 = ns_proxied ns" "ns_udpProxied ns1 = ns_udpProxied ns"
    by (auto simp: send_tcp_def sendFrame_def policy_def split: sum.split)
  define ns2 where "ns2 = ns1\<lparr>ns_tcpConns := (ns_tcpConns ns1)(key \<mapsto> c)\<rparr>"
  have pol: "policy ns2 = policy ns" using f(1) by (simp add: ns2_def policy_def)
  have fields: "c_key c = key" "c_onEstablished c = cb" "c_localIPv4 c = ip" "cc_ok (c_congCtrl c)"
    using c newTCPConn_fields by (simp_all add: same_conn_def)
  have "stack_keeps ns ns2"
    using pol policy_cong [OF pol] fields key ip cb f
    by (auto simp: stack_keeps_def stack_ok_def conn_ok_def policy_ok_def ns2_def split: if_splits)
  then show ?thesis by (simp add: accept_syn_def s ns2_def)
qed

lemma ipEqual_iff: "ipEqual a b \<longleftrightarrow> a = b"
  by (auto simp: ipEqual_def list_all_iff intro: nth_equalityI)

lemma open_conn_keeps:
  assumes len: "length (ip_src h) = 4" "length (ip_dst h) = 4"
  shows "stack_keeps ns (snd (open_conn getbuf isn h hdr ns))"
proof -
  have four: "To4 (ip_dst h) = Some (ip_dst h)" "To4 (ip_src h) = Some (ip_src h)" using len by (simp_all add: To4_def)
  then have key: "k_dstIP (segment_key h hdr) = ip_dst h" "k_srcIP (segment_key h hdr) = ip_src h" "k_dstPort (segment_key h hdr) = h_dstPort hdr"
    by (simp_all add: segment_key_def ip_array_def)
  note acc = accept_syn_keeps [of "segment_key h hdr", unfolded key, OF len]
  have "stack_keeps ns (snd (sendRST getbuf h hdr ns))" by (simp add: sendRST_def send_tcp_keeps)
  then show ?thesis
    unfolding open_conn_def
    by (auto simp: four Let_def shouldProxyService_def serviceProxyAllowed_def ipEqual_iff stack_ok_def may_proxy_def
        may_proxy_service_def key len intro!: acc split: option.split)
qed

lemma handleTCP_keeps:
  assumes "length (ip_src h) = 4" "length (ip_dst h) = 4"
  shows "stack_keeps ns (snd (handleTCP getbuf isn h payload ns))"
  by (simp add: handleTCP_def conn_segment_keeps open_conn_keeps [OF assms] split: sum.split option.split)

lemma handleARP_keeps: "stack_keeps ns (snd (handleARP mac payload ns))"
  by (simp add: handleARP_def sendARPReply_def Let_def sendFrame_keeps)

lemma handleICMP_keeps: "stack_keeps ns (snd (handleICMP getbuf h payload ns))"
  by (simp add: handleICMP_def sendICMPEchoReply_def Let_def sendFrame_keeps split: sum.split)

lemma stack_keeps_udp:
  assumes "policy ns1 = policy ns" "ns_tcpConns ns1 = ns_tcpConns ns" "ns_proxied ns1 = ns_proxied ns"
    "ns_udpProxied ns1 = ns_udpProxied ns @ ds" "\<forall>(port, _)\<in>set ds. may_proxy_service ns port"
  shows "stack_keeps ns ns1"
  using assms policy_cong [OF assms(1)] by (auto simp: stack_keeps_def stack_ok_def policy_ok_def)

lemma handleUDP_keeps:
  assumes "length (ip_dst h) = 4"
  shows "stack_keeps ns (snd (handleUDP h payload ns))"
proof -
  have "stack_keeps ns (ns\<lparr>ns_udpProxied := ns_udpProxied ns @ [(port, d)], ns_udpRxPackets := k\<rparr>)"
    if "may_proxy_service ns port" for port d k
    by (rule stack_keeps_udp [of _ _ "[(port, d)]"]) (use that in \<open>simp_all add: policy_def\<close>)
  moreover have "stack_keeps ns (ns\<lparr>ns_udpSockets := q, ns_udpRxPackets := k\<rparr>)" for q k
    by (rule stack_keeps_frame) (simp_all add: policy_def)
  ultimately show ?thesis using assms
    by (auto simp: handleUDP_def Let_def shouldProxyService_def serviceProxyAllowed_def may_proxy_service_def To4_def
        split: sum.split option.split)
qed

lemma parse_addresses:
  assumes "parseIPv4Header data = Inr h"
  shows "length (ip_src h) = 4" "length (ip_dst h) = 4"
  using assms by (auto simp: parseIPv4Header_def Let_def ipv4HeaderLen_def slice_def split: if_splits)

lemma handleIPv4_keeps: "stack_keeps ns (snd (handleIPv4 getbuf isn payload ns))"
proof (cases "parseIPv4Header payload")
  case (Inr h)
  note len = parse_addresses [OF Inr]
  show ?thesis by (simp add: handleIPv4_def Inr handleUDP_keeps [OF len(2)] handleTCP_keeps [OF len] handleICMP_keeps)
qed (simp add: handleIPv4_def)

lemma handleEthernetFrame_keeps: "stack_keeps ns (snd (handleEthernetFrame getbuf isn frame ns))"
proof -
  have r: "stack_keeps ns (recordGuestMAC mac ns)" for mac
    by (rule stack_keeps_frame) (simp_all add: recordGuestMAC_def policy_def Let_def split: option.split)
  have "stack_keeps ns (recordSourceViolation v ns)" for v
    by (rule stack_keeps_frame) (simp_all add: recordSourceViolation_def policy_def)
  moreover have "stack_keeps ns (snd (handleCustom mac payload (recordGuestMAC m ns)))" for mac payload m
    using stack_keeps_trans [OF r sendFrame_keeps] by (simp add: handleCustom_def Let_def)
  ultimately show ?thesis
    unfolding handleEthernetFrame_def
    by (simp add: Let_def r stack_keeps_trans [OF r handleARP_keeps] stack_keeps_trans [OF r handleIPv4_keeps])
qed

lemma DeliverGuestPacket_keeps: "stack_keeps ns (snd (DeliverGuestPacket getbuf isn packet ns))"
  by (simp add: DeliverGuestPacket_def handleEthernetFrame_keeps)

section \<open>No frame makes the stack panic\<close>

lemma Conn_Close_congCtrl: "c_congCtrl (fst (Conn_Close E s)) = c_congCtrl (fst s)"
  by (cases s) (simp add: Conn_Close.simps Let_def sendFin.simps send_quiet.simps mark_closed_def completeDial_def
      stopRetxTimer_def split: dial.split)

lemma handle_ack_returns:
  assumes "cc_ok (c_congCtrl c)"
  shows "\<exists>s1. handle_ack E hdr (c, w) = (Inr (), s1) \<and> cc_ok (c_congCtrl (fst s1))"
proof -
  define c0 where "c0 = c\<lparr>c_peerWnd := h_window hdr\<rparr>"
  have ok: "cc_ok (c_congCtrl c0)" using assms by (simp add: c0_def)
  obtain cc where cc: "onAck (uint (h_ack hdr - c_sendAcked c0)) (c_congCtrl c0) = Inr cc" "cc_ok cc"
    using cc_events_ok(1) [OF ok] by blast
  have adv: "\<exists>c1 w1. ack_advances E hdr (c0, w) = (Inr (), (c1, w1)) \<and> cc_ok (c_congCtrl c1)"
    using cc by (auto simp: ack_advances.simps Let_def restartRetxTimer_def stopRetxTimer_def send_quiet.simps split: prod.split)
  have dup: "\<exists>c1 w1. ack_duplicate E (c0, w) = (c1, w1) \<and> cc_ok (c_congCtrl c1)"
    using cc_events_ok(2) [OF ok]
    by (cases "onDupAck (c_congCtrl c0)") (auto simp: ack_duplicate.simps Let_def send_quiet.simps split: option.split)
  have "\<exists>c1 w1. (if a then ack_advances E hdr (c0, w) else if b then (Inr (), ack_duplicate E (c0, w)) else (Inr (), (c0, w))) =
      (Inr (), (c1, w1)) \<and> cc_ok (c_congCtrl c1)" for a b
    using adv dup ok by auto
  then obtain c1 w1 where "(if c_sendAcked c0 < h_ack hdr then ack_advances E hdr (c0, w)
     else if h_ack hdr = c_sendAcked c0 \<and> 0 < SendBuffer_len (c_sendBuf c0) \<and> h_payload hdr = [] \<and>
       h_flags hdr AND (tcpFlagSYN OR tcpFlagFIN OR tcpFlagRST) = 0 \<and> h_window hdr = c_peerWnd c
     then (Inr (), ack_duplicate E (c0, w)) else (Inr (), (c0, w))) = (Inr (), (c1, w1))" "cc_ok (c_congCtrl c1)" by blast
  then show ?thesis using assms unfolding handle_ack.simps Let_def c0_def [symmetric] by simp
qed

lemma segment_body_no_panic:
  assumes ok: "cc_ok (c_congCtrl (fst s))" and again: "\<And>s. cc_ok (c_congCtrl (fst s)) \<Longrightarrow> fst (again E hdr s) \<noteq> Inl Panic"
  shows "fst (segment_body again E hdr s) \<noteq> Inl Panic"
proof (cases s)
  case (Pair c w)
  then obtain c1 w1 where a: "handle_ack E hdr (c, w) = (Inr (), (c1, w1))" "cc_ok (c_congCtrl c1)"
    using handle_ack_returns [of c E hdr w] ok by auto
  let ?c2 = "c1\<lparr>c_state := tcpStateEstablished\<rparr>"
  have "cc_ok (c_congCtrl (fst (case x of (taken, w2) \<Rightarrow> if taken then (?c2, w2) else Conn_Close E (?c2, w2))))" for x
    using a(2) Conn_Close_congCtrl [of E "(?c2, _)"] by (cases x) simp
  then have "fst (again E hdr (if l then (case x of (taken, w2) \<Rightarrow> if taken then (?c2, w2) else Conn_Close E (?c2, w2))
      else if b then (?c2, y) else (?c2, w1))) \<noteq> Inl Panic" for l x b y
    using a(2) by (intro again) simp
  note this [of "c_listener c1" "env_offer E (c_key c1) w1" "c_onEstablished c1" "env_established E (c_key c1) w1"]
  moreover have "fst (case s2 of (c2, w2) \<Rightarrow> (Inr () :: error + unit, (completeDial None c2, w2 :: 'a))) = Inr ()" for s2
    by (cases s2) simp
  ultimately show ?thesis
    by (cases "c_state c1"; cases "c_listener c1"; cases "c_onEstablished c1")
      (simp_all add: Pair segment_body.simps a(1) Let_def split: option.split)
qed

lemma handleSegment_no_panic: "cc_ok (c_congCtrl c) \<Longrightarrow> fst (handleSegment E hdr (c, w)) \<noteq> Inl Panic"
  unfolding handleSegment_def by (intro segment_body_no_panic) simp_all

lemma splice_grows: "length bs \<le> length (splice bs i data)"
  by (simp add: splice_def)

lemma headers_fit:
  assumes "\<And>n. length (getbuf n) = ethernetHeaderLen + n"
  shows "buildIPv4HeaderInto (slice (splice (getbuf (ipv4HeaderLen + n)) i b) ethernetHeaderLen (ethernetHeaderLen + ipv4HeaderLen))
      src dst p l \<noteq> Inl e"
    and "buildEthernetHeaderInto (take ethernetHeaderLen (splice (splice (getbuf (ipv4HeaderLen + n)) i b) j b1)) m m1 t \<noteq> Inl e"
proof -
  have n: "ethernetHeaderLen + ipv4HeaderLen \<le> length (splice (getbuf (ipv4HeaderLen + n)) i b)"
    using splice_grows [of "getbuf (ipv4HeaderLen + n)" i b] assms [of "ipv4HeaderLen + n"] by simp
  then have "\<not> length (slice (splice (getbuf (ipv4HeaderLen + n)) i b) ethernetHeaderLen (ethernetHeaderLen + ipv4HeaderLen)) < ipv4HeaderLen"
    by simp
  then show "buildIPv4HeaderInto (slice (splice (getbuf (ipv4HeaderLen + n)) i b) ethernetHeaderLen (ethernetHeaderLen + ipv4HeaderLen))
      src dst p l \<noteq> Inl e" unfolding buildIPv4HeaderInto_def Let_def by (simp only: if_False) simp
  have "ethernetHeaderLen \<le> length (splice (splice (getbuf (ipv4HeaderLen + n)) i b) j b1)"
    using n splice_grows [of "splice (getbuf (ipv4HeaderLen + n)) i b" j b1] by simp
  then show "buildEthernetHeaderInto (take ethernetHeaderLen (splice (splice (getbuf (ipv4HeaderLen + n)) i b) j b1)) m m1 t \<noteq> Inl e"
    by (simp add: buildEthernetHeaderInto_def)
qed

lemma checksums_return:
  "length src = 4 \<Longrightarrow> length dst = 4 \<Longrightarrow> tcpChecksum src dst packet \<noteq> Inl e"
  "length src = 4 \<Longrightarrow> length dst = 4 \<Longrightarrow> udpChecksum src dst packet \<noteq> Inl e"
  by (simp_all add: tcpChecksum_def udpChecksum_def pseudoHeaderChecksum_def To4_def)

lemma sendFrame_no_panic: "fst (sendFrame frame ns) \<noteq> Inl Panic"
  by (simp add: sendFrame_def)

lemma send_tcp_no_panic:
  assumes "\<And>n. length (getbuf n) = ethernetHeaderLen + n" "length ip = 4" "length (k_srcIP key) = 4"
  shows "fst (send_tcp getbuf ip key x ns) \<noteq> Inl Panic"
  unfolding send_tcp_def sendTCPPacketWithOptions_def Let_def
  using headers_fit [of getbuf, OF assms(1)] checksums_return(1) [OF assms(2,3)]
  by (auto simp: sendFrame_no_panic split: sum.split)

lemma handleTCP_no_panic:
  assumes buf: "\<And>n. length (getbuf n) = ethernetHeaderLen + n" and len: "length (ip_src h) = 4" "length (ip_dst h) = 4"
    and ok: "stack_ok ns"
  shows "fst (handleTCP getbuf isn h payload ns) \<noteq> Inl Panic"
proof -
  have "fst (conn_segment getbuf (segment_key h hdr) c hdr ns) \<noteq> Inl Panic" if "ns_tcpConns ns (segment_key h hdr) = Some c" for hdr c
    using that ok handleSegment_no_panic [of c "stack_env getbuf" hdr ns]
    by (auto simp: conn_segment_def stack_ok_def conn_ok_def Let_def split: prod.split)
  moreover have four: "To4 (ip_dst h) = Some (ip_dst h)" "To4 (ip_src h) = Some (ip_src h)" using len by (simp_all add: To4_def)
  have "fst (sendRST getbuf h hdr ns) \<noteq> Inl Panic" for hdr
    unfolding sendRST_def four option.case
    by (rule send_tcp_no_panic [OF buf len(2)]) (simp add: segment_key_def ip_array_def four len)
  then have "fst (open_conn getbuf isn h hdr ns) \<noteq> Inl Panic" for hdr
    by (auto simp: open_conn_def accept_syn_def Let_def split: option.split prod.split)
  ultimately show ?thesis using checksums_return(1) [OF len]
    by (auto simp: handleTCP_def parseTCPHeader_def Let_def split: sum.split option.split)
qed

lemma handleICMP_no_panic:
  assumes "\<And>n. length (getbuf n) = ethernetHeaderLen + n"
  shows "fst (handleICMP getbuf h payload ns) \<noteq> Inl Panic"
  unfolding handleICMP_def sendICMPEchoReply_def Let_def
  using headers_fit [of getbuf, OF assms] by (auto simp: sendFrame_no_panic split: sum.split)

lemma handleUDP_no_panic:
  assumes "length (ip_src h) = 4" "length (ip_dst h) = 4"
  shows "fst (handleUDP h payload ns) \<noteq> Inl Panic"
  using checksums_return(2) [OF assms] by (auto simp: handleUDP_def Let_def split: sum.split option.split)

lemma handleIPv4_no_panic:
  assumes buf: "\<And>n. length (getbuf n) = ethernetHeaderLen + n" and ok: "stack_ok ns"
  shows "fst (handleIPv4 getbuf isn payload ns) \<noteq> Inl Panic"
proof (cases "parseIPv4Header payload")
  case (Inl e)
  then show ?thesis by (auto simp: handleIPv4_def parseIPv4Header_def Let_def split: if_splits)
next
  case (Inr h)
  note len = parse_addresses [OF Inr]
  show ?thesis
    using handleTCP_no_panic [OF buf len ok] handleICMP_no_panic [OF buf] handleUDP_no_panic [OF len]
    by (simp add: handleIPv4_def Inr)
qed

lemma DeliverGuestPacket_no_panic:
  assumes buf: "\<And>n. length (getbuf n) = ethernetHeaderLen + n" and ok: "stack_ok ns"
  shows "fst (DeliverGuestPacket getbuf isn packet ns) \<noteq> Inl Panic"
proof -
  have "stack_ok (recordGuestMAC mac ns)" for mac
    using ok by (simp add: recordGuestMAC_def stack_ok_def Let_def split: option.split)
  then have "fst (handleIPv4 getbuf isn payload (recordGuestMAC mac ns)) \<noteq> Inl Panic" for payload mac
    by (rule handleIPv4_no_panic [OF buf])
  moreover have "fst (handleARP mac payload st) \<noteq> Inl Panic" "fst (handleCustom mac payload st) \<noteq> Inl Panic" for mac payload st
    by (simp_all add: handleARP_def sendARPReply_def handleCustom_def Let_def sendFrame_no_panic)
  ultimately show ?thesis by (simp add: DeliverGuestPacket_def handleEthernetFrame_def Let_def)
qed

section \<open>Sequences of frames\<close>

text \<open>Frames arrive one after the other; each with the initial sequence number drawn if it opens a connection.\<close>

primrec deliver_all :: "(nat \<Rightarrow> bytes) \<Rightarrow> (u32 \<times> bytes) list \<Rightarrow> net_stack \<Rightarrow> net_stack" where
  "deliver_all getbuf [] ns = ns"
| "deliver_all getbuf (f # fs) ns = deliver_all getbuf fs (snd (DeliverGuestPacket getbuf (fst f) (snd f) ns))"

lemma deliver_all_keeps: "stack_keeps ns (deliver_all getbuf fs ns)"
proof (induction fs arbitrary: ns)
  case (Cons f fs)
  show ?case using stack_keeps_trans [OF DeliverGuestPacket_keeps Cons.IH] by simp
qed simp

text \<open>
  C3 (safety). Whatever frames a guest sends, the stack starts an outbound connection only
  to a port of the service address that the settings allow, or, when internet access is on,
  to an address that is neither the host's nor, unless host access is on, one of the host's
  networks; and it relays UDP datagrams only to the allowed ports of the service address.
\<close>

theorem guest_isolation:
  assumes "stack_ok ns" and "ns_tcpConns ns = Map.empty" and "ns_proxied ns = []" and "ns_udpProxied ns = []"
    and "ns1 = deliver_all getbuf frames ns"
  shows "(\<forall>key\<in>set (ns_proxied ns1). may_proxy ns key) \<and> (\<forall>(port, _)\<in>set (ns_udpProxied ns1). may_proxy_service ns port)"
proof -
  have "policy_ok ns" using assms(2-4) by (simp add: policy_ok_def)
  then have "policy ns1 = policy ns" "policy_ok ns1"
    using deliver_all_keeps [of ns getbuf frames] assms(1,5) by (simp_all add: stack_keeps_def)
  then show ?thesis using policy_cong [of ns1 ns] by (simp add: policy_ok_def)
qed

text \<open>
  A guest that tries a host of the local network and then opens a connection to the internet:
  a SYN to 10.0.0.5, a SYN to 8.8.8.8 and the acknowledgement of its SYN-ACK, all to port 80.
\<close>

definition demo_tcp :: "bytes \<Rightarrow> u8 \<Rightarrow> bytes \<Rightarrow> bytes \<Rightarrow> bytes" where
  "demo_tcp dst flags sq ak =
     [2, 0, 0, 0, 0, 1, 2, 0, 0, 0, 0, 2, 8, 0, 0x45, 0, 0, 40, 0, 0, 0, 0, 64, 6, 0, 0, 10, 42, 0, 2] @ dst @
     [0x13, 0x88, 0, 80] @ sq @ ak @ [0x50, flags, 0xff, 0xff, 0, 0, 0, 0]"

definition demo_frames :: "(u32 \<times> bytes) list" where
  "demo_frames = [(7, demo_tcp [10, 0, 0, 5] 2 [0, 0, 0, 100] [0, 0, 0, 0]), (7, demo_tcp [8, 8, 8, 8] 2 [0, 0, 0, 100] [0, 0, 0, 0]),
     (7, demo_tcp [8, 8, 8, 8] 16 [0, 0, 0, 101] [0, 0, 0, 8])]"

lemma demo_stack_ok: "stack_ok demo_stack"
  by (simp add: stack_ok_def demo_stack_def)

theorem guest_isolation_witness:
  "\<lparr>k_srcIP = [10, 42, 0, 2], k_dstIP = [10, 0, 0, 5], k_srcPort = 5000, k_dstPort = 80\<rparr> \<notin>
     set (ns_proxied (deliver_all fresh_buf demo_frames demo_stack)) \<and>
   may_proxy demo_stack \<lparr>k_srcIP = [10, 42, 0, 2], k_dstIP = [8, 8, 8, 8], k_srcPort = 5000, k_dstPort = 80\<rparr>"
proof
  have "\<not> may_proxy demo_stack \<lparr>k_srcIP = [10, 42, 0, 2], k_dstIP = [10, 0, 0, 5], k_srcPort = 5000, k_dstPort = 80\<rparr>" by code_simp
  moreover have "ns_tcpConns demo_stack = Map.empty" "ns_proxied demo_stack = []" "ns_udpProxied demo_stack = []"
    by (simp_all add: demo_stack_def)
  ultimately show "\<lparr>k_srcIP = [10, 42, 0, 2], k_dstIP = [10, 0, 0, 5], k_srcPort = 5000, k_dstPort = 80\<rparr> \<notin>
     set (ns_proxied (deliver_all fresh_buf demo_frames demo_stack))"
    using guest_isolation [OF demo_stack_ok _ _ _ refl, of fresh_buf demo_frames] by blast
qed code_simp

text \<open>
  C17 (type). The tables of the stack stay well typed: every registered connection is found
  under its own key, has IPv4 addresses, and keeps the invariant of its congestion control.
\<close>

theorem DeliverGuestPacket_stack_ok:
  assumes "stack_ok ns"
  shows "stack_ok (snd (DeliverGuestPacket getbuf isn packet ns))"
  using DeliverGuestPacket_keeps [of ns getbuf isn packet] assms by (simp add: stack_keeps_def)

theorem DeliverGuestPacket_stack_ok_witness:
  "stack_ok (snd (DeliverGuestPacket fresh_buf 7 (demo_tcp [8, 8, 8, 8] 2 [0, 0, 0, 100] [0, 0, 0, 0]) demo_stack))"
  by (rule DeliverGuestPacket_stack_ok [OF demo_stack_ok])



end
