(* ===== verification/Spec2Isabelle.thy ===== *)
theory Spec2Isabelle
  imports VsockTransmit Rng Balloon Uart PcDevices Tcp Packets NetPolicy
begin

text \<open>
  A verification library for cc, a program that runs virtual machines and offers their guests
  emulated devices and a user-mode network. File names are relative to \<^verbatim>\<open>src/internal\<close>.

  \<^bold>\<open>The program.\<close> A backend (\<^verbatim>\<open>hv/kvm\<close> on Linux) maps host memory as the guest's memory and
  runs its processors. An access to a device window or port stops a processor and is handed to the
  device that claims the address. Virtio devices (\<^verbatim>\<open>virtio\<close>) have registers in such a window and take
  their work from queues in guest memory: the driver publishes chains of buffers in the available
  ring and notifies the device, which walks the chains, moves the data, lists the chains in the used
  ring and raises an interrupt line. The frames of the network device go to the network stack
  (\<^verbatim>\<open>netstack\<close>), which checks that they come from the guest's own addresses, answers ARP and ICMP, ends the
  guest's TCP connections and bridges those the settings allow to sockets of the host.

  \<^bold>\<open>How code becomes definitions.\<close> A Go struct is a record, a method a function with the
  method's name, prefixed by its type where several types have one of that name. A method that can
  fail returns \<open>error + 'a\<close>; one that changes state takes and returns it (\<open>op\<close> in \<open>Prelude\<close>), and state
  reached before an error is kept, as in Go. Integers are words of their width, Go's \<^verbatim>\<open>int\<close> is
  \<open>int\<close> or, for lengths, \<open>nat\<close>. A panic of the runtime is an error value of its own. A device
  and what lies behind its interfaces form a pair: the record of the device and a world \<open>'w\<close> that the
  functions of a \<open>host\<close> (memory and interrupt lines), a writer or a backend act on. Locks are not
  modelled; what runs under one lock is one step, and steps of different goroutines interleave.

  \<^bold>\<open>Foundations.\<close>
  \<^item> \<open>Prelude\<close>: words, errors, computations, byte orders.
  \<^item> \<open>GuestMemory\<close>: the interfaces \<^verbatim>\<open>GuestMemory\<close> and \<^verbatim>\<open>IRQController\<close> as the record \<open>host\<close>, and
    the locale \<open>guest_ram\<close>: memory as a partial map from addresses to bytes, and what reads and writes
    promise on it. All device proofs rest on it.
  \<^item> \<open>KvmMemory\<close> (\<^verbatim>\<open>hv/kvm/vm_linux_amd64.go\<close>): the address space of a KVM machine, below and above the
    gap, its copies, its slices and its boot-time mapping. It is an instance of \<open>guest_ram\<close>; the mapping keeps
    the windows apart, and an access across the end of the low window is shown to go wrong.

  \<^bold>\<open>Virtio.\<close>
  \<^item> \<open>Virtqueue\<close> (\<^verbatim>\<open>virtio/queue_io.go\<close>): descriptors, chains, requests and responses.
  \<^item> \<open>QueueServer\<close>: the loop that serves a queue. The locale \<open>queue_server\<close> states what
    serving a chain keeps, \<open>queue_reader\<close> that it leaves memory alone; the loop completes the published
    chains in order.
  \<^item> \<open>VirtioMmio\<close> (\<^verbatim>\<open>virtio/console.go\<close>, \<^verbatim>\<open>queue_helpers.go\<close>, \<^verbatim>\<open>state.go\<close>): registers, reset, interrupt line
    and snapshots. The locale \<open>mmio_device\<close> gives every device its invariant over all guest accesses.
  \<^item> \<open>Console\<close>, \<open>Rng\<close>, \<open>Balloon\<close> (\<^verbatim>\<open>console.go\<close>, \<^verbatim>\<open>rng.go\<close>, \<^verbatim>\<open>balloon.go\<close>): the devices, each an instance
    of \<open>mmio_device\<close>. The console prints exactly what was published; the entropy device fills
    the writable buffers and nothing else; the balloon's map of words refines a set of pages and hands
    the host exactly those. Restored devices answer as the originals did.
  \<^item> \<open>Vsock\<close> (\<^verbatim>\<open>vsock.go\<close>, \<^verbatim>\<open>vsock_protocol.go\<close>): the socket device, its packets, its readers as turns
    between critical sections, and the backend of the source. \<open>VsockStream\<close>: over any interleaving the
    packets for a connection carry what its reader read, in order and within the guest's credit, and the
    case of ports used again where a stale reader breaks this. \<open>VsockTransmit\<close>: what the guest
    publishes reaches the host's end of the connection (locale \<open>vsock_host\<close>, interpreted on a KVM machine
    beside the backend of the source).

  \<^bold>\<open>Other devices.\<close>
  \<^item> \<open>Uart\<close> (\<^verbatim>\<open>serial/uart8250.go\<close>): the serial port. After any accesses the interrupt
    identification and the line follow the pending condition, and output is normalised as a whole.
  \<^item> \<open>PcDevices\<close> (\<^verbatim>\<open>hv/kvm/i8042_amd64.go\<close>, \<^verbatim>\<open>cmos_rtc_amd64.go\<close>, \<^verbatim>\<open>acpi_pm_amd64.go\<close>, their versions in
    \<^verbatim>\<open>hv/whp/pc_io_windows_amd64.go\<close>, and \<^verbatim>\<open>arm64vm/pl031.go\<close>): keyboard controller, clocks and power management. The
    two backends agree (locale \<open>two_backends\<close>), and the clock registers decode to the host's time.

  \<^bold>\<open>The network.\<close>
  \<^item> \<open>Tcp\<close> (\<^verbatim>\<open>netstack/tcp.go\<close>): options, sequence numbers, the retransmission queue, reassembly,
    the timer and congestion control, each with its invariant and behaviour.
  \<^item> \<open>Packets\<close> (\<^verbatim>\<open>netstack/netstack.go\<close>, \<^verbatim>\<open>source_validation.go\<close>): checksums, headers, frames, and the check
    that binds a guest to its addresses. Frames parse back to what was sent.
  \<^item> \<open>TcpConn\<close> (\<^verbatim>\<open>tcpConn\<close> in \<^verbatim>\<open>netstack.go\<close>): opening, segments, reading, writing, closing and
    retransmission of a connection, over the environment \<open>conn_env\<close>. \<open>TcpStream\<close> (locale \<open>conn_host\<close>) and
    \<open>TcpReceive\<close> follow its two byte streams over every run of segments, calls and timer expiries.
  \<^item> \<open>NetStack\<close>: the path of a guest frame through \<^verbatim>\<open>DeliverGuestPacket\<close>, and the stack as the
    environment of its connections. \<open>NetPolicy\<close> (locale \<open>conn_effects\<close>): what a guest can reach, that the
    connection table stays well typed, and that no frame makes the stack panic.

  \<^bold>\<open>Loops and fuel.\<close> Loops over a chain stop after as many descriptors as the queue has, as in the
  source. The loops that drain a queue take as fuel the 16 bit distance between the positions of the
  ring, which every round decreases by one, and the copies in guest memory the number of bytes;
  lemmas of these theories show that more fuel changes nothing or that this much always suffices. The
  loop over TCP options is a \<open>partial_function\<close>, because it may not end: the property about it says
  exactly when it does. The error \<open>Diverges\<close> marks a call that does not return: that loop, or a call of
  a socket backend that blocks with the device locked.

  \<^bold>\<open>Parameters.\<close> Output writers, the random source, the page reclaimer, the KVM interrupt call, the clock and the
  socket backend are arguments. The properties that need more of them say so: reads return at most what
  was asked for, or they are stated for the backend of the source. \<^verbatim>\<open>net.IP\<close>, \<^verbatim>\<open>encoding/binary\<close> and
  channels are modelled as the Go library documents them. A \<^verbatim>\<open>select\<close> with several ready cases takes the
  choice as an argument.

  \<^bold>\<open>Not modelled.\<close> System calls, vCPU loops and boot sequences of the backends; the
  file system, network, display, input and block devices; the bridge between an established connection and a host
  socket, DNS and packet capture; images, registries and kernels; the daemon, its client, the command line
  tools and the programs inside the guest. These are I/O, goroutines around I/O, or
  formats of other projects. Device tree nodes and debugging summaries are constant tables and text.
\<close>

end
